(* ===== verification/Qtng_Prelude.thy ===== *)
theory Qtng_Prelude
  imports "HOL-Library.Word" "HOL-Library.Monad_Syntax" "HOL-Library.Sublist"
begin

unbundle bit_operations_syntax

text \<open>
  Shared vocabulary of the development.

  A C++ \<open>std::string\<close> that carries wire data is a list of bytes, a \<open>uint64_t\<close> is a
  64-bit word, and a routine that appends to an output string and reports success is an
  \<open>emit\<close>: the success flag together with the bytes it has appended, the bytes written
  before a failure included.  A routine that reads from \<open>data + off\<close> with
  \<open>size - off\<close> bytes left is a \<open>parser\<close>: a partial function from the remaining bytes
  to the value read and the bytes left after it.
\<close>

type_synonym byte = "8 word"
type_synonym bytes = "8 word list"
type_synonym u32 = "32 word"
type_synonym u64 = "64 word"
type_synonym emit = "bool \<times> bytes"
type_synonym 'a parser = "bytes \<Rightarrow> ('a \<times> bytes) option"

named_theorems bit_const "bits of the masks and flags of the wire formats"
named_theorems codec_simps "round-trip rewrite rules of the wire codecs"
named_theorems reads_intros "parsers that return a suffix of their input"

section \<open>Appending to an output string\<close>

definition put :: "byte \<Rightarrow> emit" where
  "put b = (True, [b])"

definition put_bytes :: "bytes \<Rightarrow> emit" where
  "put_bytes bs = (True, bs)"

definition put_fail :: emit where
  "put_fail = (False, [])"

text \<open>A chain of writes joined by the short-circuiting \<open>&&\<close> of the source.\<close>

fun emits :: "emit list \<Rightarrow> emit" where
  "emits [] = (True, [])"
| "emits (e # es) = (if fst e then (fst (emits es), snd e @ snd (emits es)) else e)"

text \<open>The bytes of a string literal.\<close>

definition asciiBytes :: "string \<Rightarrow> bytes" where
  "asciiBytes s = map of_char s"

lemma put_simps [simp]:
  "fst (put b)" "snd (put b) = [b]"
  "fst (put_bytes bs)" "snd (put_bytes bs) = bs"
  "\<not> fst put_fail"
  by (simp_all add: put_def put_bytes_def put_fail_def)

lemma emits_ok [simp]: "fst (emits es) \<longleftrightarrow> (\<forall>e \<in> set es. fst e)"
  by (induction es) auto

lemma emits_bytes: "\<forall>e \<in> set es. fst e \<Longrightarrow> snd (emits es) = concat (map snd es)"
  by (induction es) auto

declare emits.simps [simp del]

section \<open>Words\<close>

lemma unat_of_nat_u64 [simp]: "n < 18446744073709551616 \<Longrightarrow> unat (of_nat n :: u64) = n"
  by (simp add: unat_of_nat)

lemma unat_add_u64: "unat a + unat b < 2 ^ 64 \<Longrightarrow> unat (a + b :: u64) = unat a + unat b"
  by (simp add: unat_word_ariths)

lemma unat_exp_u64 [simp]:
  assumes "k < 64"
  shows "unat (2 ^ k :: u64) = 2 ^ k"
proof -
  have "unat (push_bit k 1 :: u64) = 2 ^ k mod 2 ^ 64"
    by (simp only: unsigned_push_bit_eq) (simp add: take_bit_eq_mod push_bit_eq_mult)
  moreover have "(2 :: nat) ^ k < 2 ^ 64"
    using assms by (intro power_strict_increasing) auto
  ultimately show ?thesis by (simp add: push_bit_of_1)
qed

lemma unat_take_bit: "unat (take_bit k w) = unat w mod 2 ^ k"
  by (simp only: unsigned_take_bit_eq) (simp add: take_bit_eq_mod)

lemma unat_bit_bound:
  assumes "\<And>n. bit w n \<Longrightarrow> n < m"
  shows "unat (w :: 'a :: len word) < 2 ^ m"
proof -
  have "take_bit m w = w"
    using assms by (intro bit_eqI) (auto simp: bit_simps)
  then have "unat w = take_bit m (unat w)"
    by (metis unsigned_take_bit_eq)
  also have "\<dots> < 2 ^ m" by simp
  finally show ?thesis .
qed

text \<open>Two positions of a ring of \<open>n\<close> slots that are less than \<open>n\<close> apart are the same slot only if equal.\<close>

lemma mod_window:
  assumes "a mod n = b mod n" "a < b + n" "b < a + n"
  shows "a = (b :: nat)"
proof (cases "a \<le> b")
  case True
  then have "n dvd b - a" using assms(1) by (simp add: mod_eq_dvd_iff_nat [symmetric])
  then show ?thesis using True assms nat_dvd_not_less [of "b - a" n] by linarith
next
  case False
  then have "n dvd a - b" using assms(1) by (simp add: mod_eq_dvd_iff_nat [symmetric])
  then show ?thesis using False assms nat_dvd_not_less [of "a - b" n] by linarith
qed

section \<open>Big-endian integers\<close>

text \<open>
  \<open>be_val\<close> is the accumulation loop \<open>v = (v << 8) | b\<close>; \<open>be_bytes n v\<close> the \<open>n\<close>
  low-order bytes of \<open>v\<close>, most significant first.
\<close>

definition be_val :: "bytes \<Rightarrow> u64" where
  "be_val bs = foldl (\<lambda>v b. push_bit 8 v OR ucast b) 0 bs"

fun be_bytes :: "nat \<Rightarrow> u64 \<Rightarrow> bytes" where
  "be_bytes 0 v = []"
| "be_bytes (Suc n) v = be_bytes n (drop_bit 8 v) @ [ucast v]"

lemma length_be_bytes [simp]: "length (be_bytes n v) = n"
  by (induction n arbitrary: v) auto

lemma be_val_snoc: "be_val (bs @ [b]) = push_bit 8 (be_val bs) OR ucast b"
  by (simp add: be_val_def)

lemma be_val_be_bytes: "be_val (be_bytes n v) = take_bit (8 * n) v"
proof (induction n arbitrary: v)
  case 0
  then show ?case by (simp add: be_val_def)
next
  case (Suc n)
  have "push_bit 8 (take_bit (8 * n) (drop_bit 8 v)) OR ucast (ucast v :: byte) = take_bit (8 + 8 * n) v"
    by (rule bit_eqI) (auto simp: bit_simps)
  with Suc show ?case by (simp add: be_val_snoc)
qed

lemma bit_be_val: "bit (be_val bs) n \<Longrightarrow> n < 8 * length bs"
proof (induction bs arbitrary: n rule: rev_induct)
  case Nil
  then show ?case by (simp add: be_val_def)
next
  case (snoc b bs)
  from snoc.prems consider "bit (be_val bs) (n - 8)" | "bit b n"
    by (auto simp: be_val_snoc bit_simps)
  then show ?case
  proof cases
    case 1
    then have "n - 8 < 8 * length bs" by (rule snoc.IH)
    then show ?thesis by simp
  next
    case 2
    then have "n < LENGTH(8)" by (rule bit_imp_le_length)
    then show ?thesis by simp
  qed
qed

lemma be_bytes_be_val: "n \<le> 8 \<Longrightarrow> length bs = n \<Longrightarrow> be_bytes n (be_val bs) = bs"
proof (induction bs arbitrary: n rule: rev_induct)
  case Nil
  then show ?case by simp
next
  case (snoc b bs)
  then obtain m where m: "n = Suc m" "length bs = m" "m < 8" by auto
  have "drop_bit 8 (push_bit 8 (be_val bs) OR ucast b) = be_val bs"
    using m by (intro bit_eqI) (auto simp: bit_simps dest: bit_be_val bit_imp_le_length)
  moreover have "(ucast (push_bit 8 (be_val bs) OR ucast b :: u64) :: byte) = b"
    by (rule bit_eqI) (auto simp: bit_simps dest: bit_imp_le_length)
  ultimately show ?case
    using snoc.IH [of m] m by (simp add: be_val_snoc)
qed

section \<open>Bits of the constants the wire formats use\<close>

text \<open>The simplifier turns the bits of word numerals into those of integers.\<close>

lemma int_masks:
  "(3 :: int) = mask 2" "(7 :: int) = mask 3" "(15 :: int) = mask 4" "(31 :: int) = mask 5"
  "(63 :: int) = mask 6" "(127 :: int) = mask 7" "(255 :: int) = mask 8"
  by (simp_all add: mask_eq_exp_minus_1)

lemma bit_consts [simp]:
  "bit (63 :: int) n \<longleftrightarrow> n < 6" "bit (255 :: int) n \<longleftrightarrow> n < 8"
  unfolding int_masks bit_mask_iff by (auto simp: possible_bit_def)

lemma bit_masks [bit_const]:
  "bit (3 :: int) n \<longleftrightarrow> n < 2" "bit (7 :: int) n \<longleftrightarrow> n < 3" "bit (15 :: int) n \<longleftrightarrow> n < 4"
  "bit (31 :: int) n \<longleftrightarrow> n < 5" "bit (127 :: int) n \<longleftrightarrow> n < 7"
  unfolding int_masks bit_mask_iff by (auto simp: possible_bit_def)

lemma bit_powers [bit_const]:
  "bit (16 :: int) n \<longleftrightarrow> n = 4" "bit (32 :: int) n \<longleftrightarrow> n = 5"
  "bit (64 :: int) n \<longleftrightarrow> n = 6" "bit (128 :: int) n \<longleftrightarrow> n = 7"
  using bit_exp_iff [where 'a = int, of 4 n] bit_exp_iff [where 'a = int, of 5 n]
    bit_exp_iff [where 'a = int, of 6 n] bit_exp_iff [where 'a = int, of 7 n]
  by (auto simp: possible_bit_def)

lemma bit_high_masks [bit_const]:
  "bit (192 :: int) n \<longleftrightarrow> n = 6 \<or> n = 7" "bit (224 :: int) n \<longleftrightarrow> n = 5 \<or> n = 6 \<or> n = 7"
  "bit (240 :: int) n \<longleftrightarrow> n = 4 \<or> n = 5 \<or> n = 6 \<or> n = 7"
proof -
  have "(192 :: int) = 64 OR 128" "(224 :: int) = 32 OR 64 OR 128" "(240 :: int) = 16 OR 32 OR 64 OR 128" by simp_all
  then show "bit (192 :: int) n \<longleftrightarrow> n = 6 \<or> n = 7" "bit (224 :: int) n \<longleftrightarrow> n = 5 \<or> n = 6 \<or> n = 7"
    "bit (240 :: int) n \<longleftrightarrow> n = 4 \<or> n = 5 \<or> n = 6 \<or> n = 7"
    by (simp_all only: bit_or_iff bit_powers)
qed

lemma high_bit: "b AND 0x80 \<noteq> 0 \<longleftrightarrow> bit b 7" for b :: byte
proof -
  have "b AND 0x80 = (if bit b 7 then 0x80 else 0)"
    by (rule bit_eqI) (auto simp: bit_simps bit_const)
  then show ?thesis by simp
qed

section \<open>Parsers\<close>

text \<open>
  \<open>reads p\<close>: whenever \<open>p\<close> succeeds, the bytes it leaves are a suffix of its input.
  The rules follow the shape of a \<open>do\<close> block, so that the property of a decoder is
  obtained by resolving with \<open>reads_intros\<close>.
\<close>

definition reads :: "'a parser \<Rightarrow> bool" where
  "reads p \<longleftrightarrow> (\<forall>bs v r. p bs = Some (v, r) \<longrightarrow> suffix r bs)"

lemma readsD: "reads p \<Longrightarrow> p bs = Some (v, r) \<Longrightarrow> suffix r bs"
  by (auto simp: reads_def)

lemma reads_length: "reads p \<Longrightarrow> p bs = Some (v, r) \<Longrightarrow> length r \<le> length bs"
  by (auto simp: reads_def intro: suffix_length_le)

lemma reads_return [reads_intros]: "reads (\<lambda>bs. Some (v, bs))"
  by (simp add: reads_def)

lemma reads_none [reads_intros]: "reads (\<lambda>bs. None)"
  by (simp add: reads_def)

lemma reads_bind [reads_intros]:
  assumes "reads p" and "\<And>a. reads (q a)"
  shows "reads (\<lambda>bs. do { (a, bs) \<leftarrow> p bs; q a bs })"
  using assms by (fastforce simp: reads_def bind_eq_Some_conv intro: suffix_order.trans)

lemma reads_if [reads_intros]:
  "reads p \<Longrightarrow> reads q \<Longrightarrow> reads (\<lambda>bs. if P bs then p bs else q bs)"
  by (auto simp: reads_def)

section \<open>Interfaces of the wire codecs\<close>

text \<open>
  A parser that succeeds has read a non-empty prefix of its input and nothing else: it
  never looks past the end of the buffer and a loop around it ends.
\<close>

locale prefix_parser =
  fixes dec :: "bytes \<Rightarrow> ('b \<times> bytes) option"
  assumes reads_prefix: "dec bs = Some (v, rest) \<Longrightarrow> \<exists>pre. pre \<noteq> [] \<and> bs = pre @ rest"
begin

lemma shorter: "dec bs = Some (v, rest) \<Longrightarrow> length rest < length bs"
  using reads_prefix by fastforce

lemma reads_dec: "reads dec"
  unfolding reads_def suffix_def using reads_prefix by blast

lemma no_input: "dec [] = None"
  using reads_prefix by (cases "dec []") fastforce+

lemma rest_is_drop: "dec bs = Some (v, rest) \<Longrightarrow> rest = drop (length bs - length rest) bs"
  using reads_prefix by fastforce

end

text \<open>
  An encoder and a prefix parser that undo each other.  \<open>img\<close> is what the decoder
  reconstructs of an encoded value and \<open>ok\<close> the values the encoder is meant for.
\<close>

locale codec = prefix_parser dec
  for dec :: "bytes \<Rightarrow> ('b \<times> bytes) option" +
  fixes enc :: "'a \<Rightarrow> emit" and img :: "'a \<Rightarrow> 'b" and ok :: "'a \<Rightarrow> bool"
  assumes dec_enc: "ok x \<Longrightarrow> enc x = (True, bs) \<Longrightarrow> dec (bs @ rest) = Some (img x, rest)"
begin

lemma enc_nonempty: "ok x \<Longrightarrow> enc x = (True, bs) \<Longrightarrow> bs \<noteq> []"
  using dec_enc [of x bs "[]"] no_input by auto

lemma prefix_free:
  assumes "ok x" "ok y" "enc x = (True, bs)" "enc y = (True, bs @ cs)"
  shows "img x = img y \<and> cs = []"
  using dec_enc [of x bs cs] dec_enc [of y "bs @ cs" "[]"] assms by simp

lemma enc_injective:
  assumes "ok x" "ok y" "enc x = (True, bs)" "enc y = (True, bs)"
  shows "img x = img y"
  using prefix_free [of x y bs "[]"] assms by simp

end

end
