(* ===== verification/Quic_Varint.thy ===== *)
theory Quic_Varint
  imports Qtng_Prelude
begin

unbundle bit_operations_syntax

text \<open>
  The QUIC variable-length integers of \<open>src/quic_varint.cpp\<close>: \<open>quicVarintSize\<close>,
  \<open>quicEncodeVarint\<close> and \<open>quicDecodeVarint\<close>, their round trip, their size and the
  bound \<open>2 ^ 62\<close> of what can be encoded.
\<close>

definition quicVarintSize :: "u64 \<Rightarrow> nat" where
  "quicVarintSize value =
     (if value \<le> 63 then 1
      else if value \<le> 16383 then 2
      else if value \<le> 1073741823 then 4
      else 8)"

definition quicEncodeVarint :: "u64 \<Rightarrow> emit" where
  "quicEncodeVarint value =
     (if value \<le> 63 then (True, [ucast value])
      else if value \<le> 16383 then
        (True, [ucast (0x40 OR (drop_bit 8 value AND 0x3f)), ucast (value AND 0xff)])
      else if value \<le> 1073741823 then
        (True, [ucast (0x80 OR (drop_bit 24 value AND 0x3f)), ucast (drop_bit 16 value AND 0xff),
                ucast (drop_bit 8 value AND 0xff), ucast (value AND 0xff)])
      else if value > 4611686018427387903 then (False, [])
      else
        (True, [ucast (0xc0 OR (drop_bit 56 value AND 0x3f)), ucast (drop_bit 48 value AND 0xff),
                ucast (drop_bit 40 value AND 0xff), ucast (drop_bit 32 value AND 0xff),
                ucast (drop_bit 24 value AND 0xff), ucast (drop_bit 16 value AND 0xff),
                ucast (drop_bit 8 value AND 0xff), ucast (value AND 0xff)]))"

text \<open>The decoder returns \<open>consumed\<close> and \<open>value\<close>; the loop over the bytes 1 to
  \<open>len - 1\<close> is the fold.\<close>

definition quicDecodeVarint :: "bytes \<Rightarrow> (nat \<times> u64) option" where
  "quicDecodeVarint data =
     (if data = [] then None
      else
        let prefix = unat (drop_bit 6 (data ! 0));
            len = 2 ^ prefix
        in if length data < len then None
           else Some (len,
             foldl (\<lambda>v b. push_bit 8 v OR ucast b) (ucast (data ! 0) AND 0x3f)
               (take (len - 1) (drop 1 data))))"

text \<open>The calling pattern of the frame decoder: read a varint, then \<open>off += c\<close>.\<close>

definition get_varint :: "u64 parser" where
  "get_varint bs = map_option (\<lambda>(c, v). (v, drop c bs)) (quicDecodeVarint bs)"

section \<open>Round trip\<close>

text \<open>
  Every encoding is a head byte, whose two high bits are the code \<open>c\<close> of the length,
  followed by the \<open>2 ^ c - 1\<close> low-order bytes of the value.
\<close>

definition varint_head :: "nat \<Rightarrow> u64 \<Rightarrow> byte" where
  "varint_head c v = ucast (push_bit 6 (of_nat c) OR (drop_bit (8 * (2 ^ c - 1)) v AND 63) :: u64)"

lemma varint_head_prefix:
  assumes "c < 4"
  shows "unat (drop_bit 6 (varint_head c v)) = c"
proof -
  have "drop_bit 6 (varint_head c v) = of_nat c"
  proof (rule bit_eqI)
    fix n assume "possible_bit TYPE(8 word) n"
    then have "n < 8" by simp
    moreover have "\<not> bit c n" if "\<not> n < 2"
      using bit_take_bit_iff [of 2 c n] take_bit_nat_eq_self [of c 2] assms that by simp
    ultimately show "bit (drop_bit 6 (varint_head c v)) n \<longleftrightarrow> bit (of_nat c :: byte) n"
      by (auto simp: varint_head_def bit_simps)
  qed
  with assms show ?thesis
    by (simp add: unat_of_nat)
qed

lemma varint_head_value:
  "ucast (varint_head c v) AND (63 :: u64) = drop_bit (8 * (2 ^ c - 1)) v AND 63"
  unfolding varint_head_def by (rule bit_eqI) (auto simp: bit_simps)

lemma foldl_be_val:
  "foldl (\<lambda>v b. push_bit 8 v OR ucast b) a bs = push_bit (8 * length bs) a OR be_val bs"
proof (induction bs rule: rev_induct)
  case Nil
  then show ?case by (simp add: be_val_def)
next
  case (snoc b bs)
  then show ?case
    by (simp add: be_val_snoc) (rule bit_eqI, auto simp: bit_simps)
qed

lemma varint_recompose:
  assumes "v < 2 ^ (m + 6)"
  shows "push_bit m (drop_bit m v AND 63) OR take_bit m v = (v :: u64)"
proof (rule bit_eqI)
  fix n assume "possible_bit TYPE(64 word) n"
  moreover have "n < m + 6" if "bit v n"
    using less_mask_eq [OF assms] that by (auto simp: bit_simps simp flip: take_bit_eq_mask)
      (metis bit_take_bit_iff)
  ultimately show "bit (push_bit m (drop_bit m v AND 63) OR take_bit m v) n = bit v n"
    by (auto simp: bit_simps)
qed

lemma quicDecodeVarint_form:
  assumes c: "c < 4" and k: "k = 2 ^ c - 1" and v: "v < 2 ^ (8 * k + 6)"
  shows "quicDecodeVarint (varint_head c v # be_bytes k v @ rest) = Some (2 ^ c, v)"
proof -
  have "Suc k = 2 ^ c" by (simp add: k)
  moreover have "push_bit (8 * k) (drop_bit (8 * k) v AND 63) OR take_bit (8 * k) v = v"
    using v by (rule varint_recompose)
  ultimately show ?thesis
    by (simp add: quicDecodeVarint_def Let_def varint_head_prefix [OF c] foldl_be_val
        be_val_be_bytes varint_head_value k)
qed

lemma quicEncodeVarint_form:
  assumes "fst (quicEncodeVarint v)"
  obtains c where "c < 4" "quicVarintSize v = 2 ^ c" "v < 2 ^ (8 * (2 ^ c - 1) + 6)"
    "snd (quicEncodeVarint v) = varint_head c v # be_bytes (2 ^ c - 1) v"
proof -
  have trunc: "ucast (w AND 255) = (ucast w :: byte)" for w :: u64
    by (rule bit_eqI) (auto simp: bit_simps)
  have small: "ucast (v AND 63) = (ucast v :: byte)" if "v < 2 ^ 6"
    using that less_mask_eq [of v 6] by (simp add: mask_eq_exp_minus_1)
  note defs = quicEncodeVarint_def quicVarintSize_def varint_head_def trunc eval_nat_numeral
  consider "v < 2 ^ 6" | "v < 2 ^ 14" "\<not> v < 2 ^ 6"
    | "v < 2 ^ 30" "\<not> v < 2 ^ 14" | "v < 2 ^ 62" "\<not> v < 2 ^ 30" | "\<not> v < 2 ^ 62"
    by blast
  then show thesis
  proof cases
    case 1
    then have "v \<le> 63" by (simp add: word_le_nat_alt word_less_nat_alt)
    with 1 show thesis
      by (intro that [of 0]) (simp_all add: quicEncodeVarint_def quicVarintSize_def varint_head_def small)
  next
    case 2
    then have "v \<le> 16383" "\<not> v \<le> 63" by (simp_all add: word_le_nat_alt word_less_nat_alt)
    with 2 show thesis
      by (intro that [of 1]) (simp_all add: defs)
  next
    case 3
    then have "v \<le> 1073741823" "\<not> v \<le> 16383" "\<not> v \<le> 63" by (simp_all add: word_le_nat_alt word_less_nat_alt)
    with 3 show thesis
      by (intro that [of 2]) (simp_all add: defs)
  next
    case 4
    then have "v \<le> 4611686018427387903" "\<not> v \<le> 1073741823" "\<not> v \<le> 16383" "\<not> v \<le> 63" by (simp_all add: word_le_nat_alt word_less_nat_alt)
    with 4 show thesis
      by (intro that [of 3]) (simp_all add: defs)
  next
    case 5
    then have "v > 4611686018427387903" "\<not> v \<le> 1073741823" "\<not> v \<le> 16383" "\<not> v \<le> 63" by (simp_all add: word_le_nat_alt word_less_nat_alt)
    with assms show thesis by (simp add: quicEncodeVarint_def)
  qed
qed

lemma quicDecodeVarint_encode:
  assumes "fst (quicEncodeVarint v)"
  shows "quicDecodeVarint (snd (quicEncodeVarint v) @ rest) = Some (quicVarintSize v, v)"
  using assms by (elim quicEncodeVarint_form) (simp add: quicDecodeVarint_form)

lemma length_quicEncodeVarint:
  "fst (quicEncodeVarint v) \<Longrightarrow> length (snd (quicEncodeVarint v)) = quicVarintSize v"
  by (elim quicEncodeVarint_form) simp

lemma quicEncodeVarint_ok: "fst (quicEncodeVarint v) \<longleftrightarrow> unat v < 2 ^ 62"
  by (auto simp: quicEncodeVarint_def word_le_nat_alt word_less_nat_alt)

lemma get_varint_encode [codec_simps]:
  "fst (quicEncodeVarint v) \<Longrightarrow> get_varint (snd (quicEncodeVarint v) @ rest) = Some (v, rest)"
  by (simp add: get_varint_def quicDecodeVarint_encode flip: length_quicEncodeVarint)

section \<open>What the decoder accepts\<close>

lemma quicDecodeVarint_consumed:
  assumes "quicDecodeVarint data = Some (c, v)"
  shows "c \<in> {1, 2, 4, 8}" and "c \<le> length data"
proof -
  define p where "p = unat (drop_bit 6 (data ! 0))"
  have "unat (drop_bit 6 (data ! 0)) < 2 ^ 2"
    by (rule unat_bit_bound) (auto simp: bit_simps dest: bit_imp_le_length)
  then have "p < 4" by (simp add: p_def)
  then have "(2 :: nat) ^ p \<in> {1, 2, 4, 8}"
    by (auto simp: less_Suc_eq numeral_eq_Suc)
  with assms show "c \<in> {1, 2, 4, 8}" and "c \<le> length data"
    by (auto simp: quicDecodeVarint_def Let_def p_def split: if_splits)
qed

lemma quicDecodeVarint_value:
  assumes "quicDecodeVarint data = Some (c, v)"
  shows "unat v < 2 ^ (8 * c - 2)"
proof (rule unat_bit_bound)
  fix n assume "bit v n"
  have c: "c \<in> {1, 2, 4, 8}" "c \<le> length data"
    using quicDecodeVarint_consumed [OF assms] by auto
  define tl where "tl = take (c - 1) (drop 1 data)"
  have "length tl = c - 1" using c by (simp add: tl_def)
  have "v = push_bit (8 * length tl) (ucast (data ! 0) AND 63) OR be_val tl"
    using assms by (auto simp: quicDecodeVarint_def Let_def tl_def foldl_be_val split: if_splits)
  with \<open>bit v n\<close> have "n < 8 * length tl + 6"
    by (auto simp: bit_simps dest: bit_be_val)
  with c \<open>length tl = c - 1\<close> show "n < 8 * c - 2" by auto
qed

interpretation varint_parser: prefix_parser get_varint
proof
  fix bs v rest
  assume "get_varint bs = Some (v, rest)"
  then obtain c where c: "quicDecodeVarint bs = Some (c, v)" "rest = drop c bs"
    by (auto simp: get_varint_def)
  from quicDecodeVarint_consumed [OF c(1)] have "0 < c" "c \<le> length bs" by auto
  with c have "take c bs \<noteq> []" "bs = take c bs @ rest" by auto
  then show "\<exists>pre. pre \<noteq> [] \<and> bs = pre @ rest" by blast
qed

interpretation varint: codec get_varint quicEncodeVarint id "\<lambda>_. True"
  by unfold_locales (metis fst_conv get_varint_encode id_apply snd_conv)

lemmas reads_get_varint [reads_intros] = varint_parser.reads_dec

section \<open>Properties\<close>

text \<open>
  C30.  A varint that the encoder accepts is decoded back from any buffer that starts with
  it: the value is the encoded one and the number of bytes consumed is
  \<open>quicVarintSize\<close>, the length of the encoding.
\<close>

theorem varint_roundtrip:
  assumes "fst (quicEncodeVarint value)"
  shows "quicDecodeVarint (snd (quicEncodeVarint value) @ rest) = Some (quicVarintSize value, value)
    \<and> length (snd (quicEncodeVarint value)) = quicVarintSize value"
  using assms by (simp add: quicDecodeVarint_encode length_quicEncodeVarint)

theorem varint_roundtrip_witness:
  "quicDecodeVarint (snd (quicEncodeVarint 15293) @ [7]) = Some (quicVarintSize 15293, 15293)"
  using varint_roundtrip [of 15293 "[7]"] by (simp add: quicEncodeVarint_ok)

end
