(* ===== verification/Quic_Frame.thy ===== *)
theory Quic_Frame
  imports Quic_Varint
begin

unbundle bit_operations_syntax

text \<open>
  The QUIC frame codec of \<open>src/quic_frame.cpp\<close> (\<open>quicEncodeFrame\<close>,
  \<open>quicDecodeFrames\<close>) over the \<open>QuicFrame\<close> structure of
  \<open>include/qtng/private/quic_p.h\<close>.  The decoder's offset into the packet is the list of
  bytes that remain, so that \<open>off + len > size\<close> reads \<open>len > length rest\<close>: the offset
  is at most the packet size and a decoded length below \<open>2 ^ 62\<close>, so the sum of the
  source does not wrap.
\<close>

section \<open>Data\<close>

datatype QuicFrameType =
    Padding | Ping | Ack | AckEcn | ResetStream | StopSending | Crypto | NewToken | Stream
  | MaxData | MaxStreamData | MaxStreamsBidi | MaxStreamsUni | DataBlocked | StreamDataBlocked
  | StreamsBlockedBidi | StreamsBlockedUni | NewConnectionId | RetireConnectionId
  | PathChallenge | PathResponse | ConnectionClose | ConnectionCloseApp | HandshakeDone | Unknown

record QuicAckRange =
  gap :: u64
  ackRangeLength :: u64

record QuicFrame =
  fr_type :: QuicFrameType
  rawType :: byte
  largestAcknowledged :: u64
  ackDelay :: u64
  firstAckRange :: u64
  ackRanges :: "QuicAckRange list"
  fr_offset :: u64
  fr_data :: bytes
  streamId :: u64
  fin :: bool
  hasLength :: bool
  applicationErrorCode :: u64
  finalSize :: u64
  maxData :: u64
  errorCode :: u64
  frameType :: u64
  reasonPhrase :: bytes
  pathData :: bytes
  sequenceNumber :: u64
  retirePriorTo :: u64
  connectionId :: bytes
  statelessResetToken :: bytes

text \<open>A frame as its default member initialisers leave it.\<close>

definition emptyFrame :: QuicFrame where
  "emptyFrame = \<lparr> fr_type = Unknown, rawType = 0, largestAcknowledged = 0, ackDelay = 0,
     firstAckRange = 0, ackRanges = [], fr_offset = 0, fr_data = [], streamId = 0, fin = False,
     hasLength = False, applicationErrorCode = 0, finalSize = 0, maxData = 0, errorCode = 0,
     frameType = 0, reasonPhrase = [], pathData = [], sequenceNumber = 0, retirePriorTo = 0,
     connectionId = [], statelessResetToken = [] \<rparr>"

section \<open>Encoding\<close>

text \<open>\<open>quicEncodeVarint(x.size(), out)\<close>: a container's size is a \<open>size_t\<close>.\<close>

definition put_size :: "nat \<Rightarrow> emit" where
  "put_size n = quicEncodeVarint (of_nat n)"

definition streamTypeByte :: "QuicFrame \<Rightarrow> byte" where
  "streamTypeByte f =
     (let t = 0x08 OR 0x02;
          t1 = (if fr_offset f \<noteq> 0 then t OR 0x04 else t)
      in if fin f then t1 OR 0x01 else t1)"

definition quicEncodeFrame :: "QuicFrame \<Rightarrow> emit" where
  "quicEncodeFrame f = (case fr_type f of
     Padding \<Rightarrow> put 0x00
   | Ping \<Rightarrow> put 0x01
   | Ack \<Rightarrow> emits ([put 0x02, quicEncodeVarint (largestAcknowledged f), quicEncodeVarint (ackDelay f),
         put_size (length (ackRanges f)), quicEncodeVarint (firstAckRange f)]
         @ concat (map (\<lambda>r. [quicEncodeVarint (gap r), quicEncodeVarint (ackRangeLength r)]) (ackRanges f)))
   | Crypto \<Rightarrow> emits [put 0x06, quicEncodeVarint (fr_offset f), put_size (length (fr_data f)),
         put_bytes (fr_data f)]
   | Stream \<Rightarrow> (let t = streamTypeByte f in
       emits ([put t, quicEncodeVarint (streamId f)]
         @ (if t AND 0x04 \<noteq> 0 then [quicEncodeVarint (fr_offset f)] else [])
         @ (if t AND 0x02 \<noteq> 0 then [put_size (length (fr_data f))] else [])
         @ [put_bytes (fr_data f)]))
   | ResetStream \<Rightarrow> emits [put 0x04, quicEncodeVarint (streamId f),
         quicEncodeVarint (applicationErrorCode f), quicEncodeVarint (finalSize f)]
   | StopSending \<Rightarrow> emits [put 0x05, quicEncodeVarint (streamId f),
         quicEncodeVarint (applicationErrorCode f)]
   | MaxData \<Rightarrow> emits [put 0x10, quicEncodeVarint (maxData f)]
   | MaxStreamData \<Rightarrow> emits [put 0x11, quicEncodeVarint (streamId f), quicEncodeVarint (maxData f)]
   | PathChallenge \<Rightarrow> emits [put 0x1a,
         (if length (pathData f) \<noteq> 8 then put_fail else put_bytes (pathData f))]
   | PathResponse \<Rightarrow> emits [put 0x1b,
         (if length (pathData f) \<noteq> 8 then put_fail else put_bytes (pathData f))]
   | ConnectionClose \<Rightarrow> emits [put 0x1c, quicEncodeVarint (errorCode f), quicEncodeVarint (frameType f),
         put_size (length (reasonPhrase f)), put_bytes (reasonPhrase f)]
   | HandshakeDone \<Rightarrow> put 0x1e
   | NewConnectionId \<Rightarrow> emits [put 0x18, quicEncodeVarint (sequenceNumber f),
         quicEncodeVarint (retirePriorTo f),
         (if connectionId f = [] \<or> length (connectionId f) > 20 \<or> length (statelessResetToken f) \<noteq> 16
          then put_fail
          else put_bytes (of_nat (length (connectionId f)) # connectionId f @ statelessResetToken f))]
   | RetireConnectionId \<Rightarrow> emits [put 0x19, quicEncodeVarint (sequenceNumber f)]
   | _ \<Rightarrow> put_fail)"

section \<open>Decoding\<close>

text \<open>\<open>x.assign(data + off, len); off += len\<close> behind the bounds check.\<close>

definition get_bytes :: "nat \<Rightarrow> bytes parser" where
  "get_bytes n bs = (if n > length bs then None else Some (take n bs, drop n bs))"

definition get_byte :: "byte parser" where
  "get_byte bs = (case bs of [] \<Rightarrow> None | b # r \<Rightarrow> Some (b, r))"

definition get_blob :: "bytes parser" where
  "get_blob bs = do { (len, bs) \<leftarrow> get_varint bs; get_bytes (unat len) bs }"

text \<open>The loop that reads the ACK ranges; its bound is the \<open>uint64_t\<close> on the wire.\<close>

fun get_ranges :: "nat \<Rightarrow> QuicAckRange list parser" where
  "get_ranges 0 bs = Some ([], bs)"
| "get_ranges (Suc n) bs = do {
     (g, bs) \<leftarrow> get_varint bs;
     (l, bs) \<leftarrow> get_varint bs;
     (rs, bs) \<leftarrow> get_ranges n bs;
     Some (\<lparr> gap = g, ackRangeLength = l \<rparr> # rs, bs) }"

definition get_ack :: "QuicFrame \<Rightarrow> QuicFrame parser" where
  "get_ack f bs = do {
     (largest, bs) \<leftarrow> get_varint bs;
     (delay, bs) \<leftarrow> get_varint bs;
     (count, bs) \<leftarrow> get_varint bs;
     (first, bs) \<leftarrow> get_varint bs;
     (rs, bs) \<leftarrow> get_ranges (unat count) bs;
     (_, bs) \<leftarrow> (if rawType f = 0x03 then do {
         (_, bs) \<leftarrow> get_varint bs;
         (_, bs) \<leftarrow> get_varint bs;
         (_, bs) \<leftarrow> get_varint bs;
         Some ((), bs) } else Some ((), bs));
     Some (f\<lparr> largestAcknowledged := largest, ackDelay := delay, firstAckRange := first,
              ackRanges := rs \<rparr>, bs) }"

definition get_stream :: "QuicFrame \<Rightarrow> QuicFrame parser" where
  "get_stream f bs = do {
     let t = rawType f;
     let f = f\<lparr> fin := t AND 0x01 \<noteq> 0, hasLength := t AND 0x02 \<noteq> 0 \<rparr>;
     (sid, bs) \<leftarrow> get_varint bs;
     (off, bs) \<leftarrow> (if t AND 0x04 \<noteq> 0 then get_varint bs else Some (0, bs));
     (d, bs) \<leftarrow> (if t AND 0x02 \<noteq> 0 then get_blob bs else Some (bs, []));
     Some (f\<lparr> streamId := sid, fr_offset := off, fr_data := d \<rparr>, bs) }"

definition get_new_connection_id :: "QuicFrame \<Rightarrow> QuicFrame parser" where
  "get_new_connection_id f bs = do {
     (sn, bs) \<leftarrow> get_varint bs;
     (rp, bs) \<leftarrow> get_varint bs;
     (b, bs) \<leftarrow> get_byte bs;
     let cidLen = unat b;
     if cidLen = 0 \<or> cidLen > 20 \<or> cidLen + 16 > length bs then None
     else do {
       (cid, bs) \<leftarrow> get_bytes cidLen bs;
       (tok, bs) \<leftarrow> get_bytes 16 bs;
       Some (f\<lparr> sequenceNumber := sn, retirePriorTo := rp, connectionId := cid,
                statelessResetToken := tok \<rparr>, bs) } }"

text \<open>The body of the decoding loop after the type byte \<open>t\<close>, in the source's order.\<close>

definition quicDecodeBody :: "byte \<Rightarrow> QuicFrame parser" where
  "quicDecodeBody t bs =
     (let f = emptyFrame\<lparr> rawType := t \<rparr> in
      if t = 0x00 then Some (f\<lparr> fr_type := Padding \<rparr>, dropWhile (\<lambda>b. b = 0) bs)
      else if t = 0x01 then Some (f\<lparr> fr_type := Ping \<rparr>, bs)
      else if t = 0x02 \<or> t = 0x03 then
        get_ack (f\<lparr> fr_type := (if t = 0x02 then Ack else AckEcn) \<rparr>) bs
      else if t = 0x06 then do {
        (off, bs) \<leftarrow> get_varint bs;
        (d, bs) \<leftarrow> get_blob bs;
        Some (f\<lparr> fr_type := Crypto, fr_offset := off, fr_data := d \<rparr>, bs) }
      else if t = 0x07 then do {
        (d, bs) \<leftarrow> get_blob bs;
        Some (f\<lparr> fr_type := NewToken, fr_data := d \<rparr>, bs) }
      else if t AND 0xf8 = 0x08 then get_stream (f\<lparr> fr_type := Stream \<rparr>) bs
      else if t = 0x04 then do {
        (sid, bs) \<leftarrow> get_varint bs;
        (e, bs) \<leftarrow> get_varint bs;
        (fs, bs) \<leftarrow> get_varint bs;
        Some (f\<lparr> fr_type := ResetStream, streamId := sid, applicationErrorCode := e,
                 finalSize := fs \<rparr>, bs) }
      else if t = 0x05 then do {
        (sid, bs) \<leftarrow> get_varint bs;
        (e, bs) \<leftarrow> get_varint bs;
        Some (f\<lparr> fr_type := StopSending, streamId := sid, applicationErrorCode := e \<rparr>, bs) }
      else if t = 0x10 then do {
        (m, bs) \<leftarrow> get_varint bs;
        Some (f\<lparr> fr_type := MaxData, maxData := m \<rparr>, bs) }
      else if t = 0x11 then do {
        (sid, bs) \<leftarrow> get_varint bs;
        (m, bs) \<leftarrow> get_varint bs;
        Some (f\<lparr> fr_type := MaxStreamData, streamId := sid, maxData := m \<rparr>, bs) }
      else if t = 0x12 \<or> t = 0x13 then do {
        (m, bs) \<leftarrow> get_varint bs;
        Some (f\<lparr> fr_type := (if t = 0x12 then MaxStreamsBidi else MaxStreamsUni), maxData := m \<rparr>, bs) }
      else if t = 0x14 then do {
        (m, bs) \<leftarrow> get_varint bs;
        Some (f\<lparr> fr_type := DataBlocked, maxData := m \<rparr>, bs) }
      else if t = 0x15 then do {
        (sid, bs) \<leftarrow> get_varint bs;
        (m, bs) \<leftarrow> get_varint bs;
        Some (f\<lparr> fr_type := StreamDataBlocked, streamId := sid, maxData := m \<rparr>, bs) }
      else if t = 0x16 \<or> t = 0x17 then do {
        (m, bs) \<leftarrow> get_varint bs;
        Some (f\<lparr> fr_type := (if t = 0x16 then StreamsBlockedBidi else StreamsBlockedUni),
                 maxData := m \<rparr>, bs) }
      else if t = 0x1a \<or> t = 0x1b then do {
        (d, bs) \<leftarrow> get_bytes 8 bs;
        Some (f\<lparr> fr_type := (if t = 0x1a then PathChallenge else PathResponse), pathData := d \<rparr>, bs) }
      else if t = 0x1c \<or> t = 0x1d then do {
        (e, bs) \<leftarrow> get_varint bs;
        (ft, bs) \<leftarrow> (if t = 0x1c then get_varint bs else Some (0, bs));
        (r, bs) \<leftarrow> get_blob bs;
        Some (f\<lparr> fr_type := (if t = 0x1c then ConnectionClose else ConnectionCloseApp),
                 errorCode := e, frameType := ft, reasonPhrase := r \<rparr>, bs) }
      else if t = 0x1e then Some (f\<lparr> fr_type := HandshakeDone \<rparr>, bs)
      else if t = 0x18 then get_new_connection_id (f\<lparr> fr_type := NewConnectionId \<rparr>) bs
      else if t = 0x19 then do {
        (sn, bs) \<leftarrow> get_varint bs;
        Some (f\<lparr> fr_type := RetireConnectionId, sequenceNumber := sn \<rparr>, bs) }
      else None)"

definition quicDecodeFrame :: "QuicFrame parser" where
  "quicDecodeFrame bs = (case bs of [] \<Rightarrow> None | t # r \<Rightarrow> quicDecodeBody t r)"

section \<open>The decoder reads a prefix and its loop ends\<close>

lemma reads_get_bytes [reads_intros]: "reads (get_bytes n)"
  by (auto simp: reads_def get_bytes_def suffix_drop split: if_splits)

lemma reads_get_byte [reads_intros]: "reads get_byte"
  by (auto simp: reads_def get_byte_def suffix_def split: list.splits)

lemma reads_get_blob [reads_intros]: "reads get_blob"
  unfolding get_blob_def by (intro reads_intros)

lemma reads_get_ranges [reads_intros]: "reads (get_ranges n)"
proof (induction n)
  case 0
  show ?case by (simp add: reads_def)
next
  case (Suc n)
  show ?case
    unfolding get_ranges.simps by (intro reads_intros Suc)
qed

lemma reads_get_ack [reads_intros]: "reads (get_ack f)"
  unfolding get_ack_def by (intro reads_intros)

lemma reads_all_bytes [reads_intros]: "reads (\<lambda>bs. Some (bs, []))"
  by (simp add: reads_def)

lemma reads_get_stream [reads_intros]: "reads (get_stream f)"
  unfolding get_stream_def Let_def by (intro reads_intros)

lemma reads_get_new_connection_id [reads_intros]: "reads (get_new_connection_id f)"
  unfolding get_new_connection_id_def Let_def by (intro reads_intros)

lemma reads_skip_padding [reads_intros]: "reads (\<lambda>bs. Some (f, dropWhile P bs))"
  by (simp add: reads_def suffix_dropWhile)

lemma reads_quicDecodeBody: "reads (quicDecodeBody t)"
  unfolding quicDecodeBody_def Let_def by (intro reads_intros)

interpretation frame_parser: prefix_parser quicDecodeFrame
proof
  fix bs f rest
  assume "quicDecodeFrame bs = Some (f, rest)"
  then obtain t r where "bs = t # r" "quicDecodeBody t r = Some (f, rest)"
    by (auto simp: quicDecodeFrame_def split: list.splits)
  with readsD [OF reads_quicDecodeBody] obtain pre where "bs = (t # pre) @ rest"
    by (fastforce simp: suffix_def)
  then show "\<exists>pre. pre \<noteq> [] \<and> bs = pre @ rest" by blast
qed

text \<open>The decoding loop: the success flag and the frames pushed so far.\<close>

function quicDecodeFrames :: "bytes \<Rightarrow> bool \<times> QuicFrame list" where
  "quicDecodeFrames bs =
     (if bs = [] then (True, [])
      else case quicDecodeFrame bs of
          None \<Rightarrow> (False, [])
        | Some (f, rest) \<Rightarrow> (let (ok, fs) = quicDecodeFrames rest in (ok, f # fs)))"
  by pat_completeness auto
termination
  by (relation "measure length") (auto intro: frame_parser.shorter)

declare quicDecodeFrames.simps [simp del]

section \<open>Round trip\<close>

text \<open>
  What the decoder rebuilds of an encoded frame: the fields the encoder writes for the
  frame's type, every other field at its default.
\<close>

definition wireFrame :: "QuicFrame \<Rightarrow> QuicFrame" where
  "wireFrame f = (let e = emptyFrame\<lparr> fr_type := fr_type f \<rparr> in case fr_type f of
     Padding \<Rightarrow> e
   | Ping \<Rightarrow> e\<lparr> rawType := 0x01 \<rparr>
   | Ack \<Rightarrow> e\<lparr> rawType := 0x02, largestAcknowledged := largestAcknowledged f, ackDelay := ackDelay f,
       firstAckRange := firstAckRange f, ackRanges := ackRanges f \<rparr>
   | Crypto \<Rightarrow> e\<lparr> rawType := 0x06, fr_offset := fr_offset f, fr_data := fr_data f \<rparr>
   | Stream \<Rightarrow> e\<lparr> rawType := streamTypeByte f, streamId := streamId f, fr_offset := fr_offset f,
       fr_data := fr_data f, fin := fin f, hasLength := True \<rparr>
   | ResetStream \<Rightarrow> e\<lparr> rawType := 0x04, streamId := streamId f,
       applicationErrorCode := applicationErrorCode f, finalSize := finalSize f \<rparr>
   | StopSending \<Rightarrow> e\<lparr> rawType := 0x05, streamId := streamId f,
       applicationErrorCode := applicationErrorCode f \<rparr>
   | MaxData \<Rightarrow> e\<lparr> rawType := 0x10, maxData := maxData f \<rparr>
   | MaxStreamData \<Rightarrow> e\<lparr> rawType := 0x11, streamId := streamId f, maxData := maxData f \<rparr>
   | PathChallenge \<Rightarrow> e\<lparr> rawType := 0x1a, pathData := pathData f \<rparr>
   | PathResponse \<Rightarrow> e\<lparr> rawType := 0x1b, pathData := pathData f \<rparr>
   | ConnectionClose \<Rightarrow> e\<lparr> rawType := 0x1c, errorCode := errorCode f, frameType := frameType f,
       reasonPhrase := reasonPhrase f \<rparr>
   | HandshakeDone \<Rightarrow> e\<lparr> rawType := 0x1e \<rparr>
   | NewConnectionId \<Rightarrow> e\<lparr> rawType := 0x18, sequenceNumber := sequenceNumber f,
       retirePriorTo := retirePriorTo f, connectionId := connectionId f,
       statelessResetToken := statelessResetToken f \<rparr>
   | RetireConnectionId \<Rightarrow> e\<lparr> rawType := 0x19, sequenceNumber := sequenceNumber f \<rparr>
   | _ \<Rightarrow> e)"

text \<open>The sizes of the containers in a frame are values of \<open>size_t\<close>.\<close>

definition frameSizes :: "QuicFrame \<Rightarrow> bool" where
  "frameSizes f \<longleftrightarrow> length (ackRanges f) < 2 ^ 64 \<and> length (fr_data f) < 2 ^ 64
     \<and> length (reasonPhrase f) < 2 ^ 64"

lemma get_bytes_append [codec_simps]: "get_bytes (length d) (d @ rest) = Some (d, rest)"
  by (simp add: get_bytes_def)

lemma get_bytes_append_n [codec_simps]: "length d = n \<Longrightarrow> get_bytes n (d @ rest) = Some (d, rest)"
  by (simp add: get_bytes_def)

lemma get_varint_size [codec_simps]:
  "fst (put_size n) \<Longrightarrow> get_varint (snd (put_size n) @ rest) = Some (of_nat n, rest)"
  by (simp add: put_size_def codec_simps)

lemma get_blob_append [codec_simps]:
  "fst (put_size (length d)) \<Longrightarrow> length d < 2 ^ 64 \<Longrightarrow>
     get_blob (snd (put_size (length d)) @ d @ rest) = Some (d, rest)"
  by (simp add: get_blob_def codec_simps)

lemma get_ranges_append [codec_simps]:
  assumes "\<forall>r \<in> set rs. fst (quicEncodeVarint (gap r)) \<and> fst (quicEncodeVarint (ackRangeLength r))"
  shows "get_ranges (length rs)
    (concat (map snd (concat (map (\<lambda>r. [quicEncodeVarint (gap r), quicEncodeVarint (ackRangeLength r)]) rs)))
      @ rest) = Some (rs, rest)"
  using assms by (induction rs) (simp_all add: codec_simps)

lemma streamTypeByte_bits:
  "streamTypeByte f AND 0x04 \<noteq> 0 \<longleftrightarrow> fr_offset f \<noteq> 0" "streamTypeByte f AND 0x02 \<noteq> 0"
  "streamTypeByte f AND 0x01 \<noteq> 0 \<longleftrightarrow> fin f" "streamTypeByte f AND 0xf8 = 0x08"
  "streamTypeByte f \<notin> {0x00, 0x01, 0x02, 0x03, 0x06, 0x07}"
  by (simp_all add: streamTypeByte_def Let_def)

lemmas frame_codec_defs = quicEncodeFrame_def quicDecodeFrame_def quicDecodeBody_def wireFrame_def
  frameSizes_def emptyFrame_def emits_bytes codec_simps

lemma quicDecodeFrame_encode:
  assumes "fr_type f \<noteq> Padding" and "frameSizes f" and "quicEncodeFrame f = (True, bs)"
  shows "quicDecodeFrame (bs @ rest) = Some (wireFrame f, rest)"
proof -
  have ok: "fst (quicEncodeFrame f)" and bs: "bs = snd (quicEncodeFrame f)"
    using assms(3) by simp_all
  show ?thesis
  proof (cases "fr_type f")
    case Ack
    with ok bs assms(2) show ?thesis
      by (simp add: frame_codec_defs get_ack_def)
  next
    case Stream
    with ok bs assms(2) show ?thesis
      by (simp add: frame_codec_defs get_stream_def streamTypeByte_bits [simplified])
  next
    case NewConnectionId
    with ok bs show ?thesis
      by (simp add: frame_codec_defs get_new_connection_id_def get_byte_def unat_of_nat
          split: if_splits)
  qed (use ok bs assms(1,2) in \<open>simp_all add: frame_codec_defs split: if_splits\<close>)
qed

interpretation frames: codec quicDecodeFrame quicEncodeFrame wireFrame
  "\<lambda>f. fr_type f \<noteq> Padding \<and> frameSizes f"
  by unfold_locales (simp add: quicDecodeFrame_encode)

text \<open>A run of PADDING frames is one frame to the decoder.\<close>

fun mergePadding :: "QuicFrame list \<Rightarrow> QuicFrame list" where
  "mergePadding (f # g # fs) =
     (if fr_type f = Padding \<and> fr_type g = Padding then mergePadding (g # fs)
      else f # mergePadding (g # fs))"
| "mergePadding fs = fs"

lemma encoded_padding: "fr_type f = Padding \<Longrightarrow> snd (quicEncodeFrame f) = [0]"
  by (simp add: quicEncodeFrame_def)

lemma encoded_head:
  assumes "fr_type f \<noteq> Padding" and "fst (quicEncodeFrame f)"
  shows "\<exists>t r. snd (quicEncodeFrame f) = t # r \<and> t \<noteq> 0"
  using assms streamTypeByte_bits(5) [of f]
  by (cases "fr_type f") (auto simp: quicEncodeFrame_def emits_bytes Let_def split: if_splits)

lemma quicDecodeFrames_step:
  assumes "quicDecodeFrame bs = Some (f, rest)"
  shows "quicDecodeFrames bs = (fst (quicDecodeFrames rest), f # snd (quicDecodeFrames rest))"
  using assms frame_parser.no_input
  by (subst quicDecodeFrames.simps) (auto simp: case_prod_beta)

lemma quicDecodeFrames_padding:
  "quicDecodeFrames (0 # bs) = (let r = quicDecodeFrames (dropWhile (\<lambda>b. b = 0) bs)
     in (fst r, emptyFrame\<lparr> fr_type := Padding \<rparr> # snd r))"
  by (subst quicDecodeFrames_step) (simp_all add: quicDecodeFrame_def quicDecodeBody_def emptyFrame_def Let_def)

lemma quicDecodeFrames_encode:
  assumes "\<forall>f \<in> set fs. fst (quicEncodeFrame f) \<and> frameSizes f"
  shows "quicDecodeFrames (concat (map (\<lambda>f. snd (quicEncodeFrame f)) fs))
    = (True, map wireFrame (mergePadding fs))"
  using assms
proof (induction fs rule: mergePadding.induct [case_names two none one])
  case (two f g fs)
  let ?enc = "\<lambda>f. snd (quicEncodeFrame f)"
  show ?case
  proof (cases "fr_type f = Padding")
    case True
    show ?thesis
    proof (cases "fr_type g = Padding")
      case True
      with two \<open>fr_type f = Padding\<close> show ?thesis
        by (simp add: encoded_padding quicDecodeFrames_padding)
    next
      case False
      with two obtain t r where "?enc g = t # r" "t \<noteq> 0"
        using encoded_head by fastforce
      with two True False show ?thesis
        by (simp add: encoded_padding quicDecodeFrames_padding wireFrame_def)
    qed
  next
    case False
    have "quicDecodeFrame (?enc f @ concat (map ?enc (g # fs)))
      = Some (wireFrame f, concat (map ?enc (g # fs)))"
      using False two.prems by (intro quicDecodeFrame_encode) (auto simp: prod_eq_iff)
    with two False show ?thesis
      by (simp add: quicDecodeFrames_step)
  qed
next
  case none
  then show ?case by (simp add: quicDecodeFrames.simps)
next
  case (one f)
  have nil: "quicDecodeFrames [] = (True, [])" by (simp add: quicDecodeFrames.simps)
  show ?case
  proof (cases "fr_type f = Padding")
    case True
    then show ?thesis by (simp add: encoded_padding quicDecodeFrames_padding nil wireFrame_def)
  next
    case False
    then have "quicDecodeFrame (snd (quicEncodeFrame f) @ []) = Some (wireFrame f, [])"
      using one by (intro quicDecodeFrame_encode) (auto simp: prod_eq_iff)
    then show ?thesis by (simp add: quicDecodeFrames_step nil)
  qed
qed

section \<open>Properties\<close>

text \<open>
  C6.  A packet payload is the concatenation of encoded frames.  Decoding it succeeds and
  returns exactly the frames that were encoded, in order, each with the fields its type
  carries; only a run of PADDING frames comes back as one.
\<close>

theorem frames_roundtrip:
  assumes "\<forall>f \<in> set fs. fst (quicEncodeFrame f) \<and> frameSizes f"
  shows "quicDecodeFrames (concat (map (\<lambda>f. snd (quicEncodeFrame f)) fs))
    = (True, map wireFrame (mergePadding fs))"
  using assms by (rule quicDecodeFrames_encode)

definition sampleFrames :: "QuicFrame list" where
  "sampleFrames =
     [emptyFrame\<lparr> fr_type := Padding \<rparr>, emptyFrame\<lparr> fr_type := Padding \<rparr>,
      emptyFrame\<lparr> fr_type := Ack, largestAcknowledged := 70, firstAckRange := 3,
        ackRanges := [\<lparr> gap = 1, ackRangeLength = 2 \<rparr>] \<rparr>,
      emptyFrame\<lparr> fr_type := Stream, streamId := 4, fr_offset := 20000, fr_data := [104, 105], fin := True \<rparr>]"

theorem frames_roundtrip_witness:
  "quicDecodeFrames (concat (map (\<lambda>f. snd (quicEncodeFrame f)) sampleFrames))
    = (True, map wireFrame (mergePadding sampleFrames)) \<and> length (mergePadding sampleFrames) = 3"
proof -
  have "\<forall>f \<in> set sampleFrames. fst (quicEncodeFrame f) \<and> frameSizes f"
    by (simp add: sampleFrames_def quicEncodeFrame_def frameSizes_def emptyFrame_def
        quicEncodeVarint_ok put_size_def streamTypeByte_def Let_def)
  from frames_roundtrip [OF this] show ?thesis
    by (simp add: sampleFrames_def emptyFrame_def)
qed

end
