(* ===== verification/Quic_Packet.thy ===== *)
theory Quic_Packet
  imports Quic_Frame
begin

unbundle bit_operations_syntax

text \<open>
  Packet headers: the second half of \<open>src/quic_frame.cpp\<close> (connection identifiers,
  \<open>quicBuildLongHeader\<close>, \<open>quicBuildShortHeader\<close>, \<open>quicParsePacketHeader\<close>) and the
  packet-number reconstruction \<open>quicDecodePacketNumber\<close> of \<open>src/quic_crypto.cpp\<close>.
  Retry packets, which carry an integrity tag, are in \<open>Quic_Protect\<close>.
\<close>

section \<open>Data\<close>

datatype QuicLongPacketType = QuicLongInitial | QuicLongZeroRtt | QuicLongHandshake | QuicLongRetry

fun longTypeCode :: "QuicLongPacketType \<Rightarrow> byte" where
  "longTypeCode QuicLongInitial = 0"
| "longTypeCode QuicLongZeroRtt = 1"
| "longTypeCode QuicLongHandshake = 2"
| "longTypeCode QuicLongRetry = 3"

text \<open>The cast of a two-bit value back to the enumeration.\<close>

definition longTypeOf :: "byte \<Rightarrow> QuicLongPacketType" where
  "longTypeOf b = (if b = 0 then QuicLongInitial else if b = 1 then QuicLongZeroRtt
     else if b = 2 then QuicLongHandshake else QuicLongRetry)"

record QuicPacketHeader =
  isLong :: bool
  longType :: QuicLongPacketType
  version :: u32
  dcid :: bytes
  scid :: bytes
  token :: bytes
  packetNumber :: u64
  pnLength :: int
  headerLength :: nat
  pnOffset :: nat
  payloadLength :: nat
  keyPhase :: bool

definition emptyHeader :: QuicPacketHeader where
  "emptyHeader = \<lparr> isLong = False, longType = QuicLongInitial, version = 0, dcid = [], scid = [],
     token = [], packetNumber = 0, pnLength = 0, headerLength = 0, pnOffset = 0,
     payloadLength = 0, keyPhase = False \<rparr>"

section \<open>Connection identifiers and packet numbers\<close>

definition encodeConnId :: "bytes \<Rightarrow> emit" where
  "encodeConnId cid = (if length cid > 20 then put_fail else put_bytes (of_nat (length cid) # cid))"

definition decodeConnId :: "bytes parser" where
  "decodeConnId bs = do {
     (b, bs) \<leftarrow> get_byte bs;
     let len = unat b;
     if len > 20 \<or> len > length bs then None else Some (take len bs, drop len bs) }"

definition writePn :: "u64 \<Rightarrow> int \<Rightarrow> bytes" where
  "writePn pn len = map (\<lambda>i. ucast (drop_bit (8 * i) pn AND 0xff)) (rev [0..<nat len])"

definition versionBytes :: "u32 \<Rightarrow> bytes" where
  "versionBytes v = [ucast (drop_bit 24 v AND 0xff), ucast (drop_bit 16 v AND 0xff),
     ucast (drop_bit 8 v AND 0xff), ucast (v AND 0xff)]"

text \<open>The version field at offset 1; the source has checked that five bytes are there.\<close>

definition versionOf :: "bytes \<Rightarrow> u32" where
  "versionOf data = push_bit 24 (ucast (data ! 1)) OR push_bit 16 (ucast (data ! 2))
     OR push_bit 8 (ucast (data ! 3)) OR ucast (data ! 4)"

section \<open>Building headers\<close>

definition pnBits :: "int \<Rightarrow> byte" where
  "pnBits len = of_int (len - 1) AND 0x3"

definition quicBuildLongHeader :: "QuicLongPacketType \<Rightarrow> u32 \<Rightarrow> bytes \<Rightarrow> bytes \<Rightarrow> bytes \<Rightarrow> u64 \<Rightarrow>
    int \<Rightarrow> u64 \<Rightarrow> bytes" where
  "quicBuildLongHeader ty ver dc sc tok pn len payloadAndTagLen =
     (let first = 0xc0 OR push_bit 4 (longTypeCode ty AND 0x3) OR pnBits len
      in first # versionBytes ver
         @ snd (encodeConnId dc)
         @ snd (encodeConnId sc)
         @ (if ty = QuicLongInitial then snd (put_size (length tok)) @ tok else [])
         @ snd (quicEncodeVarint (payloadAndTagLen + of_int len))
         @ writePn pn len)"

definition quicBuildShortHeader :: "bytes \<Rightarrow> u64 \<Rightarrow> int \<Rightarrow> bool \<Rightarrow> bytes" where
  "quicBuildShortHeader dc pn len kp =
     (let first = 0x40 OR (if kp then 0x04 else 0) OR pnBits len
      in first # dc @ writePn pn len)"

section \<open>Parsing headers\<close>

text \<open>\<open>skipPn\<close> leaves the (still protected) packet number unread.\<close>

definition quicParsePacketHeader :: "bytes \<Rightarrow> bool \<Rightarrow> QuicPacketHeader option" where
  "quicParsePacketHeader data skipPn =
     (if length data < 1 then None
      else let first = data ! 0; pnl = uint (first AND 0x03) + 1 in
        if first AND 0x80 \<noteq> 0 then
          (if length data < 5 then None
           else do {
             let ty = longTypeOf (drop_bit 4 first AND 0x3);
             (dc, rest) \<leftarrow> decodeConnId (drop 5 data);
             (sc, rest) \<leftarrow> decodeConnId rest;
             (tok, rest) \<leftarrow> (if ty = QuicLongInitial then get_blob rest else Some ([], rest));
             (len, rest) \<leftarrow> get_varint rest;
             let off = length data - length rest;
             let h = emptyHeader\<lparr> isLong := True, longType := ty, version := versionOf data,
                 dcid := dc, scid := sc, token := tok, payloadLength := unat len,
                 pnOffset := off, pnLength := pnl \<rparr>;
             if skipPn then Some (h\<lparr> headerLength := off \<rparr>)
             else if nat pnl > length rest then None
             else Some (h\<lparr> packetNumber := foldl (\<lambda>p b. push_bit 8 p OR ucast b) 0 (take (nat pnl) rest),
                           headerLength := off + nat pnl \<rparr>) })
        else Some (emptyHeader\<lparr> pnLength := pnl, pnOffset := 1, headerLength := 1 \<rparr>))"

section \<open>Packet-number reconstruction\<close>

definition quicDecodePacketNumber :: "u64 \<Rightarrow> u64 \<Rightarrow> int \<Rightarrow> u64" where
  "quicDecodePacketNumber largestPn truncated len =
     (let pnNbits = nat len * 8;
          expectedPn = largestPn + 1;
          pnWin = push_bit pnNbits 1;
          pnHwin = pnWin div 2;
          pnMask = pnWin - 1;
          candidate = (expectedPn AND NOT pnMask) OR truncated
      in if candidate + pnHwin \<le> expectedPn \<and> candidate + pnWin < push_bit 62 1 then candidate + pnWin
         else if candidate > expectedPn + pnHwin \<and> candidate \<ge> pnWin then candidate - pnWin
         else candidate)"

section \<open>Header round trips\<close>

lemma trunc_byte: "ucast (w AND 255) = (ucast w :: byte)" for w :: u64
  by (rule bit_eqI) (auto simp: bit_simps)

lemma writePn_be_bytes: "writePn pn len = be_bytes (nat len) pn"
proof -
  have "map (\<lambda>i. ucast (drop_bit (8 * i) p AND 0xff)) (rev [0..<n]) = be_bytes n p" for n and p :: u64
  proof (induction n arbitrary: p)
    case 0
    then show ?case by simp
  next
    case (Suc n)
    have "map (\<lambda>i. ucast (drop_bit (8 * i) p AND 0xff) :: byte) (rev [0..<Suc n])
      = map (\<lambda>i. ucast (drop_bit (8 * i) (drop_bit 8 p) AND 0xff)) (rev [0..<n]) @ [ucast p]"
      by (simp only: upt_conv_Cons zero_less_Suc flip: map_Suc_upt)
        (simp add: rev_map trunc_byte add.commute)
    then show ?case by (simp only: Suc be_bytes.simps)
  qed
  then show ?thesis by (simp add: writePn_def)
qed

lemma decodeConnId_encode [codec_simps]:
  "length cid \<le> 20 \<Longrightarrow> decodeConnId (snd (encodeConnId cid) @ rest) = Some (cid, rest)"
  by (simp add: decodeConnId_def encodeConnId_def get_byte_def unat_of_nat)

lemma versionOf_bytes: "versionOf (x # versionBytes v @ rest) = v"
proof (rule bit_eqI)
  fix n assume "possible_bit TYPE(32 word) n"
  then consider "n < 8" | "8 \<le> n" "n < 16" | "16 \<le> n" "n < 24" | "24 \<le> n" "n < 32" by fastforce
  then show "bit (versionOf (x # versionBytes v @ rest)) n = bit v n"
    by cases (auto simp: versionOf_def versionBytes_def bit_simps)
qed

lemma versionBytes_length [simp]: "length (versionBytes v) = 4"
  by (simp add: versionBytes_def)

lemma pn_lengths: "1 \<le> len \<Longrightarrow> len \<le> 4 \<Longrightarrow> len \<in> {1, 2, 3, 4 :: int}"
  by auto

lemma long_first_byte:
  assumes "1 \<le> len" "len \<le> 4"
  shows "let b = 0xc0 OR push_bit 4 (longTypeCode ty AND 0x3) OR pnBits len in
    b AND 0x80 \<noteq> 0 \<and> longTypeOf (drop_bit 4 b AND 0x3) = ty \<and> uint (b AND 0x03) + 1 = len"
  using pn_lengths [OF assms] by (cases ty) (auto simp: pnBits_def longTypeOf_def)

lemma quicParsePacketHeader_build:
  assumes len: "1 \<le> len" "len \<le> 4" and cids: "length dc \<le> 20" "length sc \<le> 20"
    and tok: "length tok < 2 ^ 62" and size: "n + nat len < 2 ^ 62"
  shows "let hdr = quicBuildLongHeader ty ver dc sc tok pn len (of_nat n) in
    quicParsePacketHeader (hdr @ rest) False = Some \<lparr> isLong = True, longType = ty, version = ver,
      dcid = dc, scid = sc, token = (if ty = QuicLongInitial then tok else []),
      packetNumber = take_bit (8 * nat len) pn, pnLength = len, headerLength = length hdr,
      pnOffset = length hdr - nat len, payloadLength = n + nat len, keyPhase = False \<rparr>"
proof -
  define first where "first = 0xc0 OR push_bit 4 (longTypeCode ty AND 0x3) OR pnBits len"
  define lenField where "lenField = snd (quicEncodeVarint (of_nat n + of_int len))"
  define tokField where "tokField = (if ty = QuicLongInitial then snd (put_size (length tok)) @ tok else [])"
  define pnField where "pnField = writePn pn len"
  define tail where "tail = lenField @ pnField @ rest"
  have "(of_nat n + of_int len :: u64) = of_nat (n + nat len)" using len by simp
  moreover have "unat (of_nat (n + nat len) :: u64) = n + nat len"
    using size by (intro unat_of_nat_u64) simp
  ultimately have lenOk: "fst (quicEncodeVarint (of_nat n + of_int len))"
    and lenVal: "unat (of_nat n + of_int len :: u64) = n + nat len"
    using size by (simp_all add: quicEncodeVarint_ok)
  have getLen: "get_varint tail = Some (of_nat n + of_int len, pnField @ rest)"
    using lenOk by (simp add: tail_def lenField_def codec_simps)
  have getTok: "(if ty = QuicLongInitial then get_blob (tokField @ tail) else Some ([], tokField @ tail))
    = Some (if ty = QuicLongInitial then tok else [], tail)"
    using tok get_blob_append [of tok tail]
    by (simp add: tokField_def put_size_def quicEncodeVarint_ok)
  have pnLen: "length pnField = nat len" by (simp add: pnField_def writePn_be_bytes)
  have pnVal: "foldl (\<lambda>p b. push_bit 8 p OR ucast b) 0 pnField = take_bit (8 * nat len) pn"
    by (simp add: pnField_def writePn_be_bytes be_val_be_bytes flip: be_val_def)
  have hdr: "quicBuildLongHeader ty ver dc sc tok pn len (of_nat n)
    = first # versionBytes ver @ snd (encodeConnId dc) @ snd (encodeConnId sc) @ tokField @ lenField @ pnField"
    by (simp add: quicBuildLongHeader_def Let_def first_def tokField_def lenField_def pnField_def)
  show ?thesis
    unfolding Let_def hdr
    using long_first_byte [OF len, of ty, folded first_def] cids getLen getTok pnLen pnVal lenVal
    by (cases "ty = QuicLongInitial")
      (simp_all add: quicParsePacketHeader_def Let_def codec_simps versionOf_bytes emptyHeader_def
        tail_def)
qed

section \<open>Packet numbers\<close>

lemma pn_candidate:
  assumes "unat t < 2 ^ k"
  shows "unat ((e AND NOT (mask k)) OR t :: u64) = unat e div 2 ^ k * 2 ^ k + unat t"
proof -
  define c where "c = (e AND NOT (mask k)) OR t"
  have t: "take_bit k t = t"
    using assms by (simp add: word_unat_eq_iff unsigned_take_bit_eq take_bit_nat_eq_self)
  then have tb: "bit t n \<Longrightarrow> n < k" for n by (metis bit_take_bit_iff)
  have "take_bit k c = t"
    by (rule bit_eqI) (auto simp: c_def bit_simps dest: tb)
  moreover have "drop_bit k c = drop_bit k e"
  proof (rule bit_eqI)
    fix n
    have "\<not> bit t (k + n)" using tb [of "k + n"] by auto
    then show "bit (drop_bit k c) n = bit (drop_bit k e) n"
      using bit_imp_le_length [of e "k + n"] by (auto simp: c_def bit_simps)
  qed
  ultimately have "take_bit k (unat c) = unat t" "drop_bit k (unat c) = drop_bit k (unat e)"
    by (metis unsigned_take_bit_eq, metis unat_drop_bit_eq)
  then show ?thesis
    using div_mult_mod_eq [of "unat c" "2 ^ k"]
    by (simp add: take_bit_eq_mod drop_bit_eq_div flip: c_def)
qed

text \<open>The choice among the three candidates on natural numbers.\<close>

lemma pn_candidate_choice:
  fixes e p h :: nat
  assumes h: "0 < h" and lo: "e < p + h" and hi: "p \<le> e + h"
  defines "c \<equiv> e div (2 * h) * (2 * h) + p mod (2 * h)"
  shows "p = (if c + h \<le> e then c + 2 * h else if c > e + h then c - 2 * h else c)"
    and "c > e + h \<Longrightarrow> c \<ge> 2 * h"
proof -
  define w where "w = 2 * h"
  have "0 < w" using h by (simp add: w_def)
  define q r d s where "q = p div w" and "r = p mod w" and "d = e div w" and "s = e mod w"
  have p: "p = q * w + r" "r < w" and e: "e = d * w + s" "s < w"
    using \<open>0 < w\<close> by (simp_all add: q_def r_def d_def s_def)
  have c: "c = d * w + r" by (simp only: c_def w_def d_def r_def)
  have "q < d + 2"
  proof (rule ccontr)
    assume "\<not> q < d + 2"
    then have "(d + 2) * w \<le> q * w" by (intro mult_le_mono1) simp
    with hi p e h show False by (simp add: w_def algebra_simps)
  qed
  moreover have "d < q + 2"
  proof (rule ccontr)
    assume "\<not> d < q + 2"
    then have "(q + 2) * w \<le> d * w" by (intro mult_le_mono1) simp
    with lo p e h show False by (simp add: w_def algebra_simps)
  qed
  ultimately consider "q = d" | "q = d + 1" | "d = q + 1" by linarith
  then have "p = (if c + h \<le> e then c + w else if c > e + h then c - w else c) \<and> (c > e + h \<longrightarrow> c \<ge> w)"
  proof cases
    case 1
    then have "p = c" using p(1) c by simp
    with lo hi show ?thesis by simp
  next
    case 2
    then have "p = c + w" using p(1) c by simp
    moreover from this have "c + h \<le> e" using hi w_def by linarith
    ultimately show ?thesis by simp
  next
    case 3
    then have "c = p + w" using p(1) c by simp
    moreover from this have "\<not> c + h \<le> e" "c > e + h" using lo h w_def by linarith+
    ultimately show ?thesis by simp
  qed
  then show "p = (if c + h \<le> e then c + 2 * h else if c > e + h then c - 2 * h else c)"
    and "c > e + h \<Longrightarrow> c \<ge> 2 * h"
    by (simp_all add: w_def)
qed

lemma quicDecodePacketNumber_window:
  assumes len: "1 \<le> len" "len \<le> 4"
    and e: "unat largestPn + 1 < 2 ^ 62" and p: "unat pn < 2 ^ 62"
    and lo: "unat largestPn + 1 < unat pn + 2 ^ (8 * nat len - 1)"
    and hi: "unat pn \<le> unat largestPn + 1 + 2 ^ (8 * nat len - 1)"
  shows "quicDecodePacketNumber largestPn (take_bit (8 * nat len) pn) len = pn"
proof -
  define k where "k = 8 * nat len"
  define h where "h = (2 :: nat) ^ (k - 1)"
  define e where "e = largestPn + 1"
  have k: "0 < k" "k \<le> 32" using len by (auto simp: k_def)
  have w: "2 * h = 2 ^ k" using k by (simp add: h_def flip: power_Suc)
  have h: "0 < h" "h \<le> 2 ^ 31" using k power_increasing [of "k - 1" 31 "2 :: nat"] by (auto simp: h_def)
  have ue: "unat e = unat largestPn + 1"
    using \<open>unat largestPn + 1 < 2 ^ 62\<close> by (simp add: e_def unat_word_ariths)
  define c where "c = (e AND NOT (mask k)) OR take_bit k pn"
  have "unat (take_bit k pn) = unat pn mod 2 ^ k"
    by (rule unat_take_bit)
  then have uc: "unat c = unat e div (2 * h) * (2 * h) + unat pn mod (2 * h)"
    unfolding c_def w by (subst pn_candidate) auto
  note choice = pn_candidate_choice [of h "unat e" "unat pn", folded uc]
  have win: "unat (2 ^ k :: u64) = 2 * h"
    using k w by simp
  then have hwin: "unat (2 ^ k div 2 :: u64) = h" by (simp add: unat_div)
  have "unat pn mod (2 * h) < 2 * h" using h by simp
  then have "unat c < unat e + 2 * h"
    unfolding uc using div_times_less_eq_dividend [of "unat e" "2 * h"] by linarith
  then have small: "unat c < 2 ^ 62 + 2 ^ 32" "unat e < 2 ^ 62" using e ue h by simp_all
  have lohi: "unat e < unat pn + h" "unat pn \<le> unat e + h"
    using lo hi by (simp_all add: ue h_def k_def)
  note choice = pn_candidate_choice [OF h(1) lohi, folded uc]
  have c1: "c + 2 ^ k div 2 \<le> e \<longleftrightarrow> unat c + h \<le> unat e"
    using small h by (simp add: word_le_nat_alt unat_add_u64 hwin)
  have c2: "c > e + 2 ^ k div 2 \<longleftrightarrow> unat c > unat e + h"
    using small h by (simp add: word_less_nat_alt unat_add_u64 hwin)
  have cw: "unat (c + 2 ^ k) = unat c + 2 * h"
    using small h by (simp add: unat_add_u64 win)
  have kk: "nat len * 8 = k" by (simp add: k_def)
  have c': "c = (e AND NOT (2 ^ k - 1)) OR take_bit k pn" by (simp add: c_def mask_eq_exp_minus_1)
  have "quicDecodePacketNumber largestPn (take_bit k pn) len =
    (if unat c + h \<le> unat e \<and> unat c + 2 * h < 2 ^ 62 then c + 2 ^ k
     else if unat c > unat e + h \<and> unat c \<ge> 2 * h then c - 2 ^ k else c)"
    unfolding quicDecodePacketNumber_def Let_def kk push_bit_of_1 e_def [symmetric] c' [symmetric] c1 c2
    by (simp add: word_less_nat_alt word_le_nat_alt cw win)
  also have "\<dots> = pn"
    using choice p by (auto simp: word_unat_eq_iff cw unat_sub word_le_nat_alt win split: if_splits)
  finally show ?thesis by (simp add: k_def)
qed

section \<open>Properties\<close>

text \<open>
  A long header that \<open>quicBuildLongHeader\<close> wrote is read back by
  \<open>quicParsePacketHeader\<close> from any datagram that starts with it: every field is the one
  written, the packet number is truncated to its wire length, and the reported offsets are
  those of the header that was written.
\<close>

theorem long_header_roundtrip:
  assumes "1 \<le> len" "len \<le> 4" "length dc \<le> 20" "length sc \<le> 20"
    and "length tok < 2 ^ 62" "n + nat len < 2 ^ 62"
  shows "let hdr = quicBuildLongHeader ty ver dc sc tok pn len (of_nat n) in
    quicParsePacketHeader (hdr @ rest) False = Some \<lparr> isLong = True, longType = ty, version = ver,
      dcid = dc, scid = sc, token = (if ty = QuicLongInitial then tok else []),
      packetNumber = take_bit (8 * nat len) pn, pnLength = len, headerLength = length hdr,
      pnOffset = length hdr - nat len, payloadLength = n + nat len, keyPhase = False \<rparr>"
  using assms by (rule quicParsePacketHeader_build)

theorem long_header_roundtrip_witness:
  "let hdr = quicBuildLongHeader QuicLongInitial 1 [1, 2, 3] [9] [7, 7] 0x1234 2 100 in
    quicParsePacketHeader (hdr @ [5]) False = Some \<lparr> isLong = True, longType = QuicLongInitial,
      version = 1, dcid = [1, 2, 3], scid = [9], token = [7, 7], packetNumber = 0x1234, pnLength = 2,
      headerLength = length hdr, pnOffset = length hdr - 2, payloadLength = 102, keyPhase = False \<rparr>"
  using long_header_roundtrip [of 2 "[1, 2, 3]" "[9]" "[7, 7]" 100 QuicLongInitial 1 "0x1234" "[5]"]
  by (simp add: Let_def)

text \<open>
  C8.  A packet number truncated to \<open>len\<close> bytes on the wire is reconstructed exactly by
  \<open>quicDecodePacketNumber\<close> whenever it lies within half a window of the one after the
  largest received, the guarantee of RFC 9000, A.3.
\<close>

theorem packet_number_roundtrip:
  assumes "1 \<le> len" "len \<le> 4" "unat largestPn + 1 < 2 ^ 62" "unat pn < 2 ^ 62"
    and "unat largestPn + 1 < unat pn + 2 ^ (8 * nat len - 1)"
    and "unat pn \<le> unat largestPn + 1 + 2 ^ (8 * nat len - 1)"
  shows "quicDecodePacketNumber largestPn (take_bit (8 * nat len) pn) len = pn"
  using assms by (rule quicDecodePacketNumber_window)

theorem packet_number_roundtrip_witness:
  "quicDecodePacketNumber 0xa82f30ea 0x9b32 2 = 0xa82f9b32"
  using packet_number_roundtrip [of 2 "0xa82f30ea" "0xa82f9b32"] by simp

end
