(* ===== verification/Quic_Protect.thy ===== *)
theory Quic_Protect
  imports Quic_Packet
begin

unbundle bit_operations_syntax

text \<open>
  Packet protection: the \<open>Aead\<close> wrapper, HKDF and the AES block helper of
  \<open>src/aead.cpp\<close>, and \<open>quicProtectPacket\<close>, \<open>quicUnprotectPacket\<close> with their
  helpers from \<open>src/quic_crypto.cpp\<close>, and the Retry packets of \<open>src/quic_frame.cpp\<close> with
  their integrity tag.  OpenSSL is not part of the repository: the
  sequences of \<open>EVP_*\<close> and \<open>HMAC\<close> calls enter as the record \<open>evp\<close> of functions,
  a failing call (or an exhausted allocator) being \<open>None\<close>.
\<close>

section \<open>The cryptographic library as a parameter\<close>

datatype AeadAlgorithm = Aes128Gcm | Aes256Gcm | ChaCha20Poly1305

datatype MdAlgorithm = Md5 | Sha1 | Sha224 | Sha256 | Sha384 | Sha512 | Sha3_224 | Sha3_256
  | Sha3_384 | Sha3_512 | Ripemd160 | Sha512_224 | Sha512_256 | Blake2s_256 | Blake2b_512 | Sm3

text \<open>
  \<open>evp_seal\<close> takes key, nonce, additional data and plaintext and returns ciphertext and
  tag; \<open>evp_open\<close> takes key, nonce, additional data, ciphertext and tag; \<open>evp_ecb\<close> is
  one AES block; \<open>evp_md\<close> is the output size of a digest the library offers and
  \<open>evp_hmac\<close> is \<open>HMAC\<close> with a key and a message.
\<close>

record evp =
  evp_cipher :: "AeadAlgorithm \<Rightarrow> bool"
  evp_seal :: "AeadAlgorithm \<Rightarrow> bytes \<Rightarrow> bytes \<Rightarrow> bytes \<Rightarrow> bytes \<Rightarrow> (bytes \<times> bytes) option"
  evp_open :: "AeadAlgorithm \<Rightarrow> bytes \<Rightarrow> bytes \<Rightarrow> bytes \<Rightarrow> bytes \<Rightarrow> bytes \<Rightarrow> bytes option"
  evp_ecb :: "bytes \<Rightarrow> bytes \<Rightarrow> bytes option"
  evp_md :: "MdAlgorithm \<Rightarrow> nat option"
  evp_hmac :: "MdAlgorithm \<Rightarrow> bytes \<Rightarrow> bytes \<Rightarrow> bytes option"

text \<open>
  What the documentation of the library promises: authenticated decryption undoes
  encryption, ciphertexts have the length of the plaintext and tags 16 bytes, an AES block
  is 16 bytes, and an \<open>HMAC\<close> call that succeeds returns as many bytes as the digest has.
\<close>

definition evpAead :: "evp \<Rightarrow> bool" where
  "evpAead E \<longleftrightarrow> (\<forall>alg k n a p c t. evp_seal E alg k n a p = Some (c, t) \<longrightarrow>
     length c = length p \<and> length t = 16 \<and> evp_open E alg k n a c t = Some p)"

definition evpBlock :: "evp \<Rightarrow> bool" where
  "evpBlock E \<longleftrightarrow> (\<forall>k b c. evp_ecb E k b = Some c \<longrightarrow> length c = 16)"

definition evpHmac :: "evp \<Rightarrow> bool" where
  "evpHmac E \<longleftrightarrow> (\<forall>md n k m t. evp_md E md = Some n \<longrightarrow> evp_hmac E md k m = Some t \<longrightarrow>
     0 < n \<and> length t = n)"

section \<open>Authenticated encryption\<close>

definition INT_MAX :: nat where
  "INT_MAX = 2147483647"

fun keySize :: "AeadAlgorithm \<Rightarrow> nat" where
  "keySize Aes128Gcm = 16"
| "keySize Aes256Gcm = 32"
| "keySize ChaCha20Poly1305 = 32"

definition nonceSize :: nat where "nonceSize = 12"

definition tagSize :: nat where "tagSize = 16"

record Aead =
  aeadAlgo :: AeadAlgorithm
  aeadKey :: bytes

definition newAead :: "AeadAlgorithm \<Rightarrow> Aead" where
  "newAead alg = \<lparr> aeadAlgo = alg, aeadKey = [] \<rparr>"

definition aeadSetKey :: "evp \<Rightarrow> Aead \<Rightarrow> bytes \<Rightarrow> Aead option" where
  "aeadSetKey E a key =
     (if \<not> evp_cipher E (aeadAlgo a) \<or> length key \<noteq> keySize (aeadAlgo a) then None
      else Some (a\<lparr> aeadKey := key \<rparr>))"

definition aeadSeal :: "evp \<Rightarrow> Aead \<Rightarrow> bytes \<Rightarrow> bytes \<Rightarrow> bytes \<Rightarrow> bytes option" where
  "aeadSeal E a nonce aad plaintext =
     (if \<not> evp_cipher E (aeadAlgo a) \<or> aeadKey a = [] \<or> length nonce \<noteq> nonceSize
        \<or> length aad > INT_MAX \<or> length plaintext > INT_MAX then None
      else map_option (\<lambda>(c, t). c @ t) (evp_seal E (aeadAlgo a) (aeadKey a) nonce aad plaintext))"

definition aeadOpen :: "evp \<Rightarrow> Aead \<Rightarrow> bytes \<Rightarrow> bytes \<Rightarrow> bytes \<Rightarrow> bytes option" where
  "aeadOpen E a nonce aad ciphertextAndTag =
     (if \<not> evp_cipher E (aeadAlgo a) \<or> aeadKey a = [] \<or> length nonce \<noteq> nonceSize
        \<or> length ciphertextAndTag < tagSize \<or> length aad > INT_MAX
        \<or> length ciphertextAndTag > INT_MAX then None
      else let ctLen = length ciphertextAndTag - tagSize in
        evp_open E (aeadAlgo a) (aeadKey a) nonce aad (take ctLen ciphertextAndTag)
          (drop ctLen ciphertextAndTag))"

text \<open>The empty string is the failure value of the helpers that return a string.\<close>

definition aesEcbEncryptBlock :: "evp \<Rightarrow> bytes \<Rightarrow> bytes \<Rightarrow> bytes" where
  "aesEcbEncryptBlock E key block =
     (if (length key \<noteq> 16 \<and> length key \<noteq> 32) \<or> length block \<noteq> 16 then []
      else case evp_ecb E key block of None \<Rightarrow> [] | Some c \<Rightarrow> c)"

section \<open>Key derivation\<close>

definition hkdfExtract :: "evp \<Rightarrow> MdAlgorithm \<Rightarrow> bytes \<Rightarrow> bytes \<Rightarrow> bytes" where
  "hkdfExtract E md salt ikm =
     (case evp_md E md of None \<Rightarrow> []
      | Some hlen \<Rightarrow>
        if length salt > INT_MAX then []
        else case evp_hmac E md (if salt = [] then replicate hlen 0 else salt) ikm of
            None \<Rightarrow> [] | Some prk \<Rightarrow> prk)"

text \<open>
  The expansion loop; \<open>counter\<close> is an unsigned char and wraps.  \<open>None\<close> would be a loop
  that does not end, \<open>Some []\<close> the failure of \<open>HMAC\<close>.
\<close>

partial_function (option) hkdfLoop :: "evp \<Rightarrow> MdAlgorithm \<Rightarrow> bytes \<Rightarrow> bytes \<Rightarrow> nat \<Rightarrow> byte \<Rightarrow> bytes \<Rightarrow>
    bytes \<Rightarrow> bytes option" where
  "hkdfLoop E md prk info outLen counter t out =
     (if length out < outLen then
        (case evp_hmac E md prk (t @ info @ [counter]) of
           None \<Rightarrow> Some []
         | Some t' \<Rightarrow> hkdfLoop E md prk info outLen (counter + 1) t' (out @ t'))
      else Some (take outLen out))"

definition hkdfExpand :: "evp \<Rightarrow> MdAlgorithm \<Rightarrow> bytes \<Rightarrow> bytes \<Rightarrow> nat \<Rightarrow> bytes option" where
  "hkdfExpand E md prk info outLen =
     (if evp_md E md = None \<or> prk = [] \<or> length prk > INT_MAX \<or> outLen = 0 then Some []
      else hkdfLoop E md prk info outLen 1 [] [])"

definition hkdf :: "evp \<Rightarrow> MdAlgorithm \<Rightarrow> bytes \<Rightarrow> bytes \<Rightarrow> bytes \<Rightarrow> nat \<Rightarrow> bytes option" where
  "hkdf E md ikm salt info outLen = hkdfExpand E md (hkdfExtract E md salt ikm) info outLen"

definition hkdfExpandLabel :: "evp \<Rightarrow> MdAlgorithm \<Rightarrow> bytes \<Rightarrow> bytes \<Rightarrow> bytes \<Rightarrow> nat \<Rightarrow> bytes option" where
  "hkdfExpandLabel E md secret label ctx outLen =
     (let fullLabel = asciiBytes ''tls13 '' @ label in
      if length fullLabel < 7 \<or> length fullLabel > 255 \<or> length ctx > 255 \<or> outLen > 65535 then Some []
      else hkdfExpand E md secret
        ([of_nat (outLen div 256), of_nat outLen, of_nat (length fullLabel)] @ fullLabel
           @ [of_nat (length ctx)] @ ctx) outLen)"

section \<open>Keys, nonces and the integrity tag\<close>

record QuicTrafficKeys =
  tk_key :: bytes
  tk_iv :: bytes
  tk_hp :: bytes

definition keysValid :: "QuicTrafficKeys \<Rightarrow> bool" where
  "keysValid k \<longleftrightarrow> length (tk_key k) = 16 \<and> length (tk_iv k) = 12 \<and> length (tk_hp k) = 16"

definition quicInitialSalt :: bytes where
  "quicInitialSalt = [0x38, 0x76, 0x2c, 0xf7, 0xf5, 0x59, 0x34, 0xb3, 0x4d, 0x17,
     0x9a, 0xe6, 0xa4, 0xc8, 0x0c, 0xad, 0xcc, 0xbb, 0x7f, 0x0a]"

definition quicDeriveInitialSecret :: "evp \<Rightarrow> bytes \<Rightarrow> bool \<Rightarrow> bytes option" where
  "quicDeriveInitialSecret E dc isClient =
     hkdfExpandLabel E Sha256 (hkdfExtract E Sha256 quicInitialSalt dc)
       (asciiBytes (if isClient then ''client in'' else ''server in'')) [] 32"

definition quicDeriveTrafficKeys :: "evp \<Rightarrow> bytes \<Rightarrow> QuicTrafficKeys option" where
  "quicDeriveTrafficKeys E secret = do {
     key \<leftarrow> hkdfExpandLabel E Sha256 secret (asciiBytes ''quic key'') [] 16;
     iv \<leftarrow> hkdfExpandLabel E Sha256 secret (asciiBytes ''quic iv'') [] 12;
     hp \<leftarrow> hkdfExpandLabel E Sha256 secret (asciiBytes ''quic hp'') [] 16;
     Some \<lparr> tk_key = key, tk_iv = iv, tk_hp = hp \<rparr> }"

text \<open>The loop xors byte \<open>i\<close> of the packet number into position \<open>11 - i\<close>.\<close>

definition quicNonceFromIv :: "bytes \<Rightarrow> u64 \<Rightarrow> bytes" where
  "quicNonceFromIv iv pn =
     (if length iv \<noteq> 12 then []
      else foldl (\<lambda>nonce i. nonce[11 - i := nonce ! (11 - i) XOR ucast (drop_bit (8 * i) pn AND 0xff)])
             iv [0..<8])"

definition quicRetryIntegrityTag :: "evp \<Rightarrow> bytes \<Rightarrow> bytes \<Rightarrow> bytes option" where
  "quicRetryIntegrityTag E odcid pseudo = do {
     let secret = hkdfExtract E Sha256 [] odcid;
     key \<leftarrow> hkdfExpandLabel E Sha256 secret (asciiBytes ''quic key'') [] 16;
     iv \<leftarrow> hkdfExpandLabel E Sha256 secret (asciiBytes ''quic iv'') [] 12;
     Some (case aeadSetKey E (newAead Aes128Gcm) key of None \<Rightarrow> []
       | Some aead \<Rightarrow> (case aeadSeal E aead iv [] pseudo of None \<Rightarrow> []
         | Some sealed \<Rightarrow> if length sealed < 16 then [] else drop (length sealed - 16) sealed)) }"

section \<open>Retry packets\<close>

definition pseudoPacket :: "bytes \<Rightarrow> bytes \<Rightarrow> bytes" where
  "pseudoPacket odcid body = of_nat (length odcid) # odcid @ body"

text \<open>The outer option is the run of the key derivation, the empty string the failure to build.\<close>

definition quicBuildRetryPacket :: "evp \<Rightarrow> u32 \<Rightarrow> bytes \<Rightarrow> bytes \<Rightarrow> bytes \<Rightarrow> bytes \<Rightarrow> bytes option" where
  "quicBuildRetryPacket E ver dc sc tok odcid = do {
     let out = 0xf0 # versionBytes ver @ snd (encodeConnId dc) @ snd (encodeConnId sc) @ tok;
     tag \<leftarrow> quicRetryIntegrityTag E odcid (pseudoPacket odcid out);
     Some (if length tag \<noteq> 16 then [] else out @ tag) }"

definition quicParseRetryPacket :: "evp \<Rightarrow> bytes \<Rightarrow> bytes \<Rightarrow> (u32 \<times> bytes \<times> bytes \<times> bytes) option option" where
  "quicParseRetryPacket E data odcid =
     (if length data < 5 then Some None
      else let first = data ! 0 in
        if first AND 0x80 = 0 \<or> drop_bit 4 first AND 0x3 \<noteq> 3 \<or> first AND 0x40 = 0 then Some None
        else case decodeConnId (drop 5 data) of None \<Rightarrow> Some None
        | Some (dc, rest) \<Rightarrow> (case decodeConnId rest of None \<Rightarrow> Some None
          | Some (sc, rest) \<Rightarrow>
              if 16 > length rest then Some None
              else do {
                let tokenLen = length rest - 16;
                tag \<leftarrow> quicRetryIntegrityTag E odcid (pseudoPacket odcid (take (length data - 16) data));
                Some (if length tag = 16 \<and> tag = drop tokenLen rest
                      then Some (versionOf data, dc, sc, take tokenLen rest) else None) }))"

section \<open>Packet protection\<close>

definition applyHeaderProtection :: "evp \<Rightarrow> bytes \<Rightarrow> bytes \<Rightarrow> bytes \<Rightarrow> nat \<Rightarrow> nat \<Rightarrow> bytes" where
  "applyHeaderProtection E hpKey sample header off n =
     (if length sample < 16 \<or> length hpKey \<noteq> 16 \<or> off \<ge> length header then []
      else
        let mask = aesEcbEncryptBlock E hpKey (take 16 sample) in
        if length mask \<noteq> 16 then []
        else
          let first = header ! 0;
              first = (if first AND 0x80 \<noteq> 0 then first XOR (mask ! 0 AND 0x0f)
                       else first XOR (mask ! 0 AND 0x1f))
          in if off + n > length header then []
             else foldl (\<lambda>h i. h[off + i := h ! (off + i) XOR mask ! (1 + i)]) (header[0 := first]) [0..<n])"

definition removeHeaderProtection :: "evp \<Rightarrow> QuicTrafficKeys \<Rightarrow> bytes \<Rightarrow> QuicPacketHeader \<Rightarrow> u64 \<Rightarrow>
    (QuicPacketHeader \<times> bytes) option" where
  "removeHeaderProtection E keys data h expectedPn =
     (if length data < pnOffset h + 4 + 16 then None
      else
        let sample = take 16 (drop (pnOffset h + 4) data);
            hdr = take (pnOffset h + 4) data;
            unprotected = applyHeaderProtection E (tk_hp keys) sample hdr (pnOffset h) 4
        in if unprotected = [] then None
           else
             let first = unprotected ! 0;
                 pnl = uint (first AND 0x03) + 1;
                 truncated = foldl (\<lambda>t b. push_bit 8 t OR ucast b) 0
                   (take (nat pnl) (drop (pnOffset h) unprotected));
                 h = h\<lparr> pnLength := pnl, keyPhase := first AND 0x04 \<noteq> 0,
                        packetNumber := quicDecodePacketNumber expectedPn truncated pnl,
                        headerLength := pnOffset h + nat pnl \<rparr>;
                 h = (if isLong h then h\<lparr> longType := longTypeOf (drop_bit 4 first AND 0x3) \<rparr> else h)
             in Some (h, take (headerLength h) unprotected))"

definition openPacketPayload :: "evp \<Rightarrow> QuicTrafficKeys \<Rightarrow> bytes \<Rightarrow> bytes \<Rightarrow> u64 \<Rightarrow> bytes option" where
  "openPacketPayload E keys aad ct pn = do {
     let nonce = quicNonceFromIv (tk_iv keys) pn;
     aead \<leftarrow> aeadSetKey E (newAead Aes128Gcm) (tk_key keys);
     aeadOpen E aead nonce aad ct }"

section \<open>Protecting and unprotecting packets\<close>

definition quicProtectPacket :: "evp \<Rightarrow> QuicTrafficKeys \<Rightarrow> bytes \<Rightarrow> bytes \<Rightarrow> u64 \<Rightarrow> int \<Rightarrow> bytes option" where
  "quicProtectPacket E keys header payload pn len =
     (if \<not> keysValid keys \<or> len < 1 \<or> len > 4 then None
      else do {
        let nonce = quicNonceFromIv (tk_iv keys) pn;
        aead \<leftarrow> aeadSetKey E (newAead Aes128Gcm) (tk_key keys);
        sealed \<leftarrow> aeadSeal E aead nonce header payload;
        let off = length header - nat len;
        let packet = header @ sealed;
        if length packet < off + 4 + 16 then None
        else
          let sample = take 16 (drop (off + 4) packet);
              protectedHeader = applyHeaderProtection E (tk_hp keys) sample header off (nat len)
          in if protectedHeader = [] then None else Some (protectedHeader @ sealed) })"

text \<open>
  The caller of the short-header path supplies the length of the destination connection
  identifier in the header it passes in (\<open>dcidLen\<close>).  The result is the header, the
  payload and the number of bytes consumed.
\<close>

definition quicUnprotectPacket :: "evp \<Rightarrow> QuicTrafficKeys \<Rightarrow> bytes \<Rightarrow> nat \<Rightarrow> u64 \<Rightarrow>
    (QuicPacketHeader \<times> bytes \<times> nat) option" where
  "quicUnprotectPacket E keys data dcidLen expectedPn =
     (if \<not> keysValid keys \<or> length data < 20 then None
      else do {
        h \<leftarrow> quicParsePacketHeader data True;
        if \<not> isLong h then
          (if length data < 1 + dcidLen + 1 then None
           else do {
             let h = h\<lparr> dcid := take dcidLen (drop 1 data), pnOffset := 1 + dcidLen \<rparr>;
             (h, aad) \<leftarrow> removeHeaderProtection E keys data h expectedPn;
             plain \<leftarrow> openPacketPayload E keys aad (drop (headerLength h) data) (packetNumber h);
             Some (h, plain, length data) })
        else if length data < pnOffset h + payloadLength h \<or> payloadLength h < 20 then None
        else do {
          let packetLen = pnOffset h + payloadLength h;
          (h, aad) \<leftarrow> removeHeaderProtection E keys data h expectedPn;
          if payloadLength h < nat (pnLength h) + 16 then None
          else
            let ctLen = payloadLength h - nat (pnLength h) in
            if headerLength h + ctLen > packetLen then None
            else do {
              plain \<leftarrow> openPacketPayload E keys aad (take ctLen (drop (headerLength h) data)) (packetNumber h);
              Some (h, plain, packetLen) } } })"

section \<open>Stateless reset\<close>

text \<open>\<open>rnd\<close> is what \<open>randomBytes(21)\<close> returned.\<close>

definition quicBuildStatelessReset :: "bytes \<Rightarrow> bytes \<Rightarrow> bytes" where
  "quicBuildStatelessReset rnd tok =
     (if length tok \<noteq> 16 then []
      else (0x40 OR (rnd ! 0 AND 0x3f)) # take 4 (drop 1 rnd) @ take 16 (drop 5 rnd) @ tok)"

definition quicIsStatelessReset :: "bytes \<Rightarrow> bytes list \<Rightarrow> bool" where
  "quicIsStatelessReset data tokens \<longleftrightarrow>
     length data \<ge> 21 \<and> (\<exists>t \<in> set tokens. length t = 16 \<and> drop (length data - 16) data = t)"

section \<open>Key derivation always ends\<close>

definition hmacWorks :: "evp \<Rightarrow> MdAlgorithm \<Rightarrow> bool" where
  "hmacWorks E md \<longleftrightarrow> (\<forall>k m. evp_hmac E md k m \<noteq> None)"

lemma hkdfLoop_total:
  assumes "evpHmac E" "evp_md E md = Some n"
  shows "\<exists>r. hkdfLoop E md prk info outLen counter t out = Some r
    \<and> (length r = outLen \<or> length r = 0 \<and> \<not> hmacWorks E md)"
proof (induction "outLen - length out" arbitrary: counter t out rule: less_induct)
  case less
  note unfold = hkdfLoop.simps [of E md prk info outLen counter]
  show ?case
  proof (cases "length out < outLen")
    case True
    show ?thesis
    proof (cases "evp_hmac E md prk (t @ info @ [counter])")
      case None
      then show ?thesis using True by (auto simp: unfold hmacWorks_def)
    next
      case (Some t')
      then have "0 < length t'" using assms by (auto simp: evpHmac_def)
      then have "outLen - length (out @ t') < outLen - length out"
        using True by (simp only: length_append)
      then show ?thesis using less [of "out @ t'" "counter + 1" t'] True Some by (simp add: unfold)
    qed
  next
    case False
    then show ?thesis by (simp add: unfold)
  qed
qed

lemma hkdfExpandLabel_cases:
  "hkdfExpandLabel E md secret label ctx outLen = Some []
    \<or> (\<exists>n info. evp_md E md = Some n \<and> hkdfExpandLabel E md secret label ctx outLen = hkdfLoop E md secret info outLen 1 [] [])"
  unfolding hkdfExpandLabel_def hkdfExpand_def Let_def by simp blast

lemma hkdfExpandLabel_total:
  assumes "evpHmac E"
  shows "\<exists>r. hkdfExpandLabel E md secret label ctx outLen = Some r \<and> length r \<in> {0, outLen}"
  using hkdfExpandLabel_cases [of E md secret label ctx outLen]
proof (elim disjE exE conjE)
  fix n info
  assume "evp_md E md = Some n" and eq: "hkdfExpandLabel E md secret label ctx outLen = hkdfLoop E md secret info outLen 1 [] []"
  then show ?thesis using hkdfLoop_total [OF assms, of md n secret info outLen 1 "[]" "[]"] unfolding eq by blast
qed simp

lemma hkdfExpandLabel_length:
  assumes "evpHmac E" "evp_md E md = Some n" "hmacWorks E md" "secret \<noteq> []" "length secret \<le> INT_MAX"
    and "label \<noteq> []" "length label \<le> 249" "length ctx \<le> 255" "0 < outLen" "outLen \<le> 65535"
    and "hkdfExpandLabel E md secret label ctx outLen = Some r"
  shows "length r = outLen"
proof -
  have "0 < length label" using assms(6) by simp
  then obtain info where "hkdfLoop E md secret info outLen 1 [] [] = Some r"
    using assms(2,4-11) by (auto simp: hkdfExpandLabel_def hkdfExpand_def asciiBytes_def Let_def split: if_splits)
  then show ?thesis using hkdfLoop_total [OF assms(1,2), of secret info outLen 1 "[]" "[]"] assms(3) by auto
qed

lemma hkdfExtract_length:
  assumes "evpHmac E" "evp_md E md = Some n" "hmacWorks E md" "length salt \<le> INT_MAX"
  shows "length (hkdfExtract E md salt ikm) = n"
proof -
  obtain t where "evp_hmac E md (if salt = [] then replicate n 0 else salt) ikm = Some t"
    using assms(3) by (auto simp: hmacWorks_def)
  then show ?thesis using assms by (simp add: hkdfExtract_def evpHmac_def)
qed

lemma quicRetryIntegrityTag_total:
  assumes "evpHmac E"
  shows "\<exists>tag. quicRetryIntegrityTag E odcid pseudo = Some tag"
proof -
  have "\<exists>r. hkdfExpandLabel E Sha256 s l [] n = Some r" for s l n using hkdfExpandLabel_total [OF assms] by blast
  then show ?thesis unfolding quicRetryIntegrityTag_def by (metis bind.bind_lunit)
qed

section \<open>Header protection is an involution\<close>

lemma foldl_xor_nth:
  assumes "off + n \<le> length h"
  shows "length (foldl (\<lambda>h i. h[off + i := h ! (off + i) XOR m ! (1 + i)]) h [0..<n]) = length h"
    and "j < length h \<Longrightarrow> foldl (\<lambda>h i. h[off + i := h ! (off + i) XOR m ! (1 + i)]) h [0..<n] ! j
      = (if off \<le> j \<and> j < off + n then h ! j XOR m ! (1 + j - off) else h ! j)"
  using assms
proof (induction n arbitrary: j)
  case 0
  { case 1 then show ?case by simp }
  { case 2 then show ?case by auto }
next
  case (Suc n)
  { case 1 then show ?case using Suc by simp }
  { case 2 then show ?case using Suc by (auto simp: nth_list_update) }
qed

text \<open>What the mask does to the first byte: bit 7 selects how much of it is covered.\<close>

definition hpFirst :: "byte \<Rightarrow> byte \<Rightarrow> byte" where
  "hpFirst m b = (if b AND 0x80 \<noteq> 0 then b XOR (m AND 0x0f) else b XOR (m AND 0x1f))"

lemma hpFirst_high: "hpFirst m b AND 0x80 \<noteq> 0 \<longleftrightarrow> b AND 0x80 \<noteq> 0"
  unfolding high_bit by (auto simp: hpFirst_def bit_simps)

lemma hpFirst_twice [simp]: "hpFirst m (hpFirst m b) = b"
proof (cases "b AND 0x80 = 0")
  case True
  then show ?thesis using hpFirst_high [of m b] unfolding hpFirst_def by (simp add: xor.assoc)
next
  case False
  then show ?thesis using hpFirst_high [of m b] unfolding hpFirst_def by (simp add: xor.assoc)
qed

lemma hpFirst_type:
  assumes "b AND 0x80 \<noteq> 0"
  shows "drop_bit 4 (hpFirst m b) AND 0x3 = drop_bit 4 b AND 0x3"
proof (rule bit_eqI)
  fix n
  show "bit (drop_bit 4 (hpFirst m b) AND 0x3) n = bit (drop_bit 4 b AND 0x3) n"
    using assms by (auto simp: hpFirst_def bit_simps)
qed

text \<open>The effect of a successful \<open>applyHeaderProtection\<close> with the packet number behind the first byte.\<close>

definition hpApply :: "bytes \<Rightarrow> nat \<Rightarrow> nat \<Rightarrow> bytes \<Rightarrow> bytes" where
  "hpApply m off n h = map (\<lambda>j. if j = 0 then hpFirst (m ! 0) (h ! 0)
     else if off \<le> j \<and> j < off + n then h ! j XOR m ! (1 + j - off) else h ! j) [0..<length h]"

lemma length_hpApply [simp]: "length (hpApply m off n h) = length h"
  by (simp add: hpApply_def)

lemma applyHeaderProtection_form:
  assumes "0 < off" "off < length h" "off + n \<le> length h" "16 \<le> length sample" "length hk = 16"
    and "length (aesEcbEncryptBlock E hk (take 16 sample)) = 16"
  shows "applyHeaderProtection E hk sample h off n
    = hpApply (aesEcbEncryptBlock E hk (take 16 sample)) off n h"
proof -
  define m where "m = aesEcbEncryptBlock E hk (take 16 sample)"
  have "applyHeaderProtection E hk sample h off n
    = foldl (\<lambda>h i. h[off + i := h ! (off + i) XOR m ! (1 + i)]) (h[0 := hpFirst (m ! 0) (h ! 0)]) [0..<n]"
    using assms by (simp add: applyHeaderProtection_def Let_def m_def hpFirst_def not_le)
  also have "\<dots> = hpApply m off n h"
    using assms(1-3)
    by (intro nth_equalityI) (auto simp: foldl_xor_nth hpApply_def nth_list_update simp del: One_nat_def)
  finally show ?thesis by (simp only: m_def)
qed

lemma applyHeaderProtection_fails:
  assumes "applyHeaderProtection E hk sample h off n \<noteq> []"
  shows "off < length h" "off + n \<le> length h" "16 \<le> length sample" "length hk = 16"
    "length (aesEcbEncryptBlock E hk (take 16 sample)) = 16"
  using assms by (auto simp: applyHeaderProtection_def Let_def split: if_splits)

text \<open>
  The receiver masks four bytes from the packet number on, whatever its length; the bytes it
  needs are those of the header before protection.
\<close>

lemma hpApply_undo:
  assumes "0 < off" "length h = off + n" "n \<le> 4" "length x = 4 - n"
  shows "take (off + n) (hpApply m off 4 (hpApply m off n h @ x)) = h"
  using assms by (intro nth_equalityI) (auto simp: hpApply_def nth_append xor.assoc)

lemma hpApply_first:
  "h \<noteq> [] \<Longrightarrow> hpApply m off n h ! 0 = hpFirst (m ! 0) (h ! 0)"
  by (simp add: hpApply_def nth_append)

lemma removeHeaderProtection_apply:
  assumes off: "0 < off" "length h = off + n" and n: "1 \<le> n" "n \<le> 4" "uint (h ! 0 AND 0x03) + 1 = int n"
    and tail: "4 + 16 \<le> n + length tail" and hp: "length (tk_hp keys) = 16"
    and m: "m = aesEcbEncryptBlock E (tk_hp keys) (take 16 (drop (4 - n) tail))" "length m = 16"
    and hdr: "pnOffset ph = off"
  shows "removeHeaderProtection E keys (hpApply m off n h @ tail) ph expectedPn
    = Some (let ph = ph\<lparr> pnLength := int n, keyPhase := h ! 0 AND 0x04 \<noteq> 0,
          packetNumber := quicDecodePacketNumber expectedPn (be_val (drop off h)) (int n),
          headerLength := off + n \<rparr>
        in (if isLong ph then ph\<lparr> longType := longTypeOf (drop_bit 4 (h ! 0) AND 0x3) \<rparr> else ph), h)"
proof -
  define P where "P = hpApply m off n h"
  define U where "U = hpApply m off 4 (P @ take (4 - n) tail)"
  have lenP: "length P = off + n" using off by (simp add: P_def)
  have take_hdr: "take (off + 4) (P @ tail) = P @ take (4 - n) tail"
    using n by (simp add: lenP)
  have sample: "take 16 (drop (off + 4) (P @ tail)) = take 16 (drop (4 - n) tail)"
    using n by (simp add: lenP)
  have x: "length (take (4 - n) tail) = 4 - n" using tail n by simp
  have "applyHeaderProtection E (tk_hp keys) (take 16 (drop (4 - n) tail)) (P @ take (4 - n) tail) off 4 = U"
    unfolding U_def m(1) using off n tail hp m x lenP
    by (subst applyHeaderProtection_form) simp_all
  moreover have U: "take (off + n) U = h" "length U = off + 4"
    using off n x hpApply_undo [of off h n "take (4 - n) tail" m] lenP by (simp_all add: U_def P_def)
  moreover have "U \<noteq> []" using U by auto
  moreover have "U ! 0 = h ! 0" using U off by (metis add_gr_0 nth_take)
  moreover have "take n (drop off U) = drop off h" using U by (metis add.commute take_drop)
  ultimately show ?thesis
    using n tail lenP
    by (simp add: removeHeaderProtection_def Let_def hdr take_hdr sample P_def [symmetric] be_val_def)
qed

lemma hpApply_split:
  assumes "0 < off" "length h = off + n"
  shows "\<exists>y. hpApply m off n h = hpFirst (m ! 0) (h ! 0) # drop 1 (take off h) @ y"
proof -
  have "take off (hpApply m off n h) = hpFirst (m ! 0) (h ! 0) # drop 1 (take off h)"
    using assms by (intro nth_equalityI) (auto simp: hpApply_def nth_Cons split: nat.splits)
  then show ?thesis by (metis append_Cons append_take_drop_id)
qed

section \<open>What protecting a packet yields\<close>

lemma keysValid_nonce: "keysValid keys \<Longrightarrow> length (quicNonceFromIv (tk_iv keys) pn) = 12"
  by (simp add: keysValid_def quicNonceFromIv_def upt_rec)

lemma quicProtectPacket_form:
  assumes pkt: "quicProtectPacket E keys header payload pn len = Some pkt"
    and E: "evpAead E" and small: "length payload + 16 \<le> INT_MAX" and len: "nat len < length header"
  obtains sealed m where
    "pkt = hpApply m (length header - nat len) (nat len) header @ sealed"
    "length sealed = length payload + 16" "keysValid keys" "1 \<le> len" "len \<le> 4"
    "m = aesEcbEncryptBlock E (tk_hp keys) (take 16 (drop (4 - nat len) sealed))" "length m = 16"
    "4 + 16 \<le> nat len + length sealed" "openPacketPayload E keys header sealed pn = Some payload"
proof -
  define off where "off = length header - nat len"
  define nonce where "nonce = quicNonceFromIv (tk_iv keys) pn"
  have keys: "keysValid keys" and l: "1 \<le> len" "len \<le> 4"
    using pkt by (auto simp: quicProtectPacket_def split: if_splits)
  obtain aead sealed where aead: "aeadSetKey E (newAead Aes128Gcm) (tk_key keys) = Some aead"
    and sealed: "aeadSeal E aead nonce header payload = Some sealed"
    and long: "off + 4 + 16 \<le> length (header @ sealed)"
    and ne: "applyHeaderProtection E (tk_hp keys) (take 16 (drop (off + 4) (header @ sealed))) header off (nat len) \<noteq> []"
    and out: "pkt = applyHeaderProtection E (tk_hp keys) (take 16 (drop (off + 4) (header @ sealed))) header off (nat len) @ sealed"
    using pkt keys l
    by (auto simp: quicProtectPacket_def Let_def off_def nonce_def bind_eq_Some_conv split: if_splits)
  obtain c t where ct: "evp_seal E (aeadAlgo aead) (aeadKey aead) nonce header payload = Some (c, t)"
    and st: "sealed = c @ t" "evp_cipher E (aeadAlgo aead)" "aeadKey aead \<noteq> []" "length nonce = nonceSize"
      "length header \<le> INT_MAX"
    using sealed by (auto simp: aeadSeal_def split: if_splits)
  have lens: "length c = length payload" "length t = 16"
    and opened: "evp_open E (aeadAlgo aead) (aeadKey aead) nonce header c t = Some payload"
    using E ct unfolding evpAead_def by blast+
  define m where "m = aesEcbEncryptBlock E (tk_hp keys) (take 16 (drop (4 - nat len) sealed))"
  have sample: "drop (off + 4) (header @ sealed) = drop (4 - nat len) sealed"
    using len l by (simp add: off_def)
  note facts = applyHeaderProtection_fails [OF ne, unfolded sample]
  have "pkt = hpApply m off (nat len) header @ sealed"
    unfolding out sample m_def using facts len
    by (subst applyHeaderProtection_form) (auto simp: off_def)
  moreover have "openPacketPayload E keys header sealed pn = Some payload"
    using aead st lens opened small
    by (simp add: openPacketPayload_def aeadOpen_def tagSize_def nonce_def Let_def)
  moreover have "4 + 16 \<le> nat len + length sealed" using long len by (simp add: off_def)
  moreover have "length m = 16" using facts by (simp add: m_def)
  ultimately show thesis using that [of m sealed] keys l lens st by (simp add: off_def m_def)
qed

section \<open>Parsing a protected long header\<close>

lemma quicParsePacketHeader_skip:
  assumes len: "1 \<le> len" "len \<le> 4" and cids: "length dc \<le> 20" "length sc \<le> 20"
    and tok: "length tok < 2 ^ 62" and size: "n + nat len < 2 ^ 62"
    and hdr: "hdr = quicBuildLongHeader ty ver dc sc tok pn len (of_nat n)"
    and first: "b AND 0x80 \<noteq> 0" "longTypeOf (drop_bit 4 b AND 0x3) = ty"
  shows "quicParsePacketHeader (b # drop 1 (take (length hdr - nat len) hdr) @ rest) True
    = Some \<lparr> isLong = True, longType = ty, version = ver,
      dcid = dc, scid = sc, token = (if ty = QuicLongInitial then tok else []),
      packetNumber = 0, pnLength = uint (b AND 0x03) + 1, headerLength = length hdr - nat len,
      pnOffset = length hdr - nat len, payloadLength = n + nat len, keyPhase = False \<rparr>"
proof -
  define lenField where "lenField = snd (quicEncodeVarint (of_nat n + of_int len))"
  define tokField where "tokField = (if ty = QuicLongInitial then snd (put_size (length tok)) @ tok else [])"
  define body where "body = versionBytes ver @ snd (encodeConnId dc) @ snd (encodeConnId sc) @ tokField @ lenField"
  have "(of_nat n + of_int len :: u64) = of_nat (n + nat len)" using len by simp
  moreover have "unat (of_nat (n + nat len) :: u64) = n + nat len"
    using size by (intro unat_of_nat_u64) simp
  ultimately have lenOk: "fst (quicEncodeVarint (of_nat n + of_int len))"
    and lenVal: "unat (of_nat n + of_int len :: u64) = n + nat len"
    using size by (simp_all add: quicEncodeVarint_ok)
  have getLen: "get_varint (lenField @ rest) = Some (of_nat n + of_int len, rest)"
    using lenOk by (simp add: lenField_def codec_simps)
  have getTok: "(if ty = QuicLongInitial then get_blob (tokField @ lenField @ rest) else Some ([], tokField @ lenField @ rest))
    = Some (if ty = QuicLongInitial then tok else [], lenField @ rest)"
    using tok get_blob_append [of tok "lenField @ rest"]
    by (simp add: tokField_def put_size_def quicEncodeVarint_ok)
  obtain c where hb: "hdr = c # body @ writePn pn len"
    unfolding hdr by (simp add: quicBuildLongHeader_def Let_def body_def tokField_def lenField_def)
  have off: "length hdr - nat len = Suc (length body)" "drop 1 (take (length hdr - nat len) hdr) = body"
    by (simp_all add: hb writePn_be_bytes)
  have data: "b # body @ rest = b # versionBytes ver @ snd (encodeConnId dc) @ snd (encodeConnId sc) @ tokField @ lenField @ rest"
    by (simp add: body_def)
  have bl: "length body = 4 + length (snd (encodeConnId dc)) + length (snd (encodeConnId sc)) + length tokField + length lenField"
    by (simp add: body_def)
  show ?thesis
    unfolding off(2) unfolding off(1) data quicParsePacketHeader_def Let_def
    using cids getLen getTok lenVal first
    by (cases "ty = QuicLongInitial") (simp_all add: codec_simps versionOf_bytes emptyHeader_def bl)
qed

lemma long_header_parts:
  assumes "1 \<le> len" "len \<le> 4" "hdr = quicBuildLongHeader ty ver dc sc tok pn len n"
  shows "hdr ! 0 AND 0x80 \<noteq> 0" "longTypeOf (drop_bit 4 (hdr ! 0) AND 0x3) = ty"
    "uint (hdr ! 0 AND 0x03) + 1 = len" "nat len < length hdr"
    "be_val (drop (length hdr - nat len) hdr) = take_bit (8 * nat len) pn"
    "hdr ! 0 AND 0x04 = 0"
proof -
  define first where "first = 0xc0 OR push_bit 4 (longTypeCode ty AND 0x3) OR pnBits len"
  obtain body where hb: "hdr = first # body @ writePn pn len"
    unfolding assms(3) by (simp add: quicBuildLongHeader_def Let_def first_def)
  show "hdr ! 0 AND 0x80 \<noteq> 0" "longTypeOf (drop_bit 4 (hdr ! 0) AND 0x3) = ty"
    "uint (hdr ! 0 AND 0x03) + 1 = len"
    using long_first_byte [OF assms(1,2), of ty] by (simp_all add: hb first_def Let_def)
  show "nat len < length hdr" by (simp add: hb writePn_be_bytes)
  show "be_val (drop (length hdr - nat len) hdr) = take_bit (8 * nat len) pn"
    by (simp add: hb writePn_be_bytes be_val_be_bytes)
  show "hdr ! 0 AND 0x04 = 0"
    using pn_lengths [OF assms(1,2)] by (cases ty) (auto simp: hb first_def pnBits_def)
qed

lemma short_header_parts:
  assumes "1 \<le> len" "len \<le> 4" "hdr = quicBuildShortHeader dc pn len kp"
  shows "hdr ! 0 AND 0x80 = 0" "hdr ! 0 AND 0x04 \<noteq> 0 \<longleftrightarrow> kp"
    "uint (hdr ! 0 AND 0x03) + 1 = len" "length hdr = 1 + length dc + nat len"
    "be_val (drop (1 + length dc) hdr) = take_bit (8 * nat len) pn"
    "drop 1 (take (1 + length dc) hdr) = dc"
proof -
  define first where "first = (0x40 :: byte) OR (if kp then 0x04 else 0) OR pnBits len"
  have hb: "hdr = first # dc @ writePn pn len"
    unfolding assms(3) by (simp add: quicBuildShortHeader_def Let_def first_def)
  show "hdr ! 0 AND 0x80 = 0" "hdr ! 0 AND 0x04 \<noteq> 0 \<longleftrightarrow> kp" "uint (hdr ! 0 AND 0x03) + 1 = len"
    using pn_lengths [OF assms(1,2)] by (cases kp; auto simp: hb first_def pnBits_def)+
  show "length hdr = 1 + length dc + nat len" by (simp add: hb writePn_be_bytes)
  show "be_val (drop (1 + length dc) hdr) = take_bit (8 * nat len) pn"
    by (simp add: hb writePn_be_bytes be_val_be_bytes)
  show "drop 1 (take (1 + length dc) hdr) = dc" by (simp add: hb)
qed

text \<open>A library that satisfies the promises above, used to exercise the properties.\<close>

definition sampleEvp :: evp where
  "sampleEvp = \<lparr> evp_cipher = (\<lambda>_. True),
     evp_seal = (\<lambda>_ k n a p. Some (map (\<lambda>b. b XOR 0x55) p, replicate 16 7)),
     evp_open = (\<lambda>_ k n a c t. if t = replicate 16 7 then Some (map (\<lambda>b. b XOR 0x55) c) else None),
     evp_ecb = (\<lambda>k b. Some (take 16 (b @ replicate 16 0))),
     evp_md = (\<lambda>_. Some 32),
     evp_hmac = (\<lambda>_ k m. Some (replicate 32 (foldl (+) 1 (k @ m)))) \<rparr>"

lemma sampleEvp_aead: "evpAead sampleEvp"
  by (simp add: evpAead_def sampleEvp_def comp_def xor.assoc)

lemma sampleEvp_hmac: "evpHmac sampleEvp"
  by (simp add: evpHmac_def sampleEvp_def)

lemma sampleEvp_works: "evp_md sampleEvp Sha256 = Some 32" "hmacWorks sampleEvp Sha256"
  by (simp_all add: sampleEvp_def hmacWorks_def)

definition sampleKeys :: QuicTrafficKeys where
  "sampleKeys = \<lparr> tk_key = replicate 16 3, tk_iv = replicate 12 4, tk_hp = replicate 16 5 \<rparr>"

lemmas sample_defs = sampleKeys_def quicProtectPacket_def keysValid_def aeadSetKey_def newAead_def
  aeadSeal_def sampleEvp_def nonceSize_def INT_MAX_def quicNonceFromIv_def applyHeaderProtection_def
  aesEcbEncryptBlock_def

lemma sampleEvp_expand:
  assumes "secret \<noteq> []" "length secret \<le> INT_MAX" "label \<noteq> []" "length label \<le> 249" "0 < n" "n \<le> 32"
  shows "\<exists>r. hkdfExpandLabel sampleEvp Sha256 secret label [] n = Some r \<and> length r = n"
  using hkdfExpandLabel_total [OF sampleEvp_hmac] hkdfExpandLabel_length [OF sampleEvp_hmac sampleEvp_works assms(1-4), of "[]" n] assms(5,6)
  by fastforce

lemma sampleEvp_retryTag:
  assumes "length p \<le> INT_MAX"
  shows "quicRetryIntegrityTag sampleEvp odcid p = Some (replicate 16 7)"
proof -
  have len: "length (hkdfExtract sampleEvp Sha256 [] odcid) = 32"
    by (rule hkdfExtract_length [OF sampleEvp_hmac sampleEvp_works]) simp
  then have "hkdfExtract sampleEvp Sha256 [] odcid \<noteq> []" "length (hkdfExtract sampleEvp Sha256 [] odcid) \<le> INT_MAX"
    by (auto simp: INT_MAX_def)
  note expand = sampleEvp_expand [OF this]
  obtain key where key: "hkdfExpandLabel sampleEvp Sha256 (hkdfExtract sampleEvp Sha256 [] odcid) (asciiBytes ''quic key'') [] 16 = Some key" "length key = 16"
    using expand [of "asciiBytes ''quic key''" 16] by (auto simp: asciiBytes_def)
  obtain iv where iv: "hkdfExpandLabel sampleEvp Sha256 (hkdfExtract sampleEvp Sha256 [] odcid) (asciiBytes ''quic iv'') [] 12 = Some iv" "length iv = 12"
    using expand [of "asciiBytes ''quic iv''" 12] by (auto simp: asciiBytes_def)
  have "evp_seal sampleEvp Aes128Gcm key iv [] p = Some (map (\<lambda>b. b XOR 0x55) p, replicate 16 7)" "evp_cipher sampleEvp Aes128Gcm"
    by (simp_all add: sampleEvp_def)
  moreover have "key \<noteq> []" using key(2) by auto
  ultimately show ?thesis
    using assms by (simp add: quicRetryIntegrityTag_def key iv aeadSetKey_def aeadSeal_def newAead_def nonceSize_def)
qed

text \<open>A short-header packet is taken apart into what it was built from.\<close>

lemma quicUnprotect_protect_short:
  assumes E: "evpAead E" and small: "length payload + 16 \<le> INT_MAX"
    and hdr: "hdr = quicBuildShortHeader dc pn len kp"
    and pkt: "quicProtectPacket E keys hdr payload pn len = Some pkt"
    and win: "unat largestPn + 1 < 2 ^ 62" "unat pn < 2 ^ 62"
      "unat largestPn + 1 < unat pn + 2 ^ (8 * nat len - 1)"
      "unat pn \<le> unat largestPn + 1 + 2 ^ (8 * nat len - 1)"
  shows "quicUnprotectPacket E keys pkt (length dc) largestPn = Some (
    emptyHeader\<lparr> dcid := dc, packetNumber := pn, pnLength := len, headerLength := length hdr,
      pnOffset := 1 + length dc, keyPhase := kp \<rparr>, payload, length pkt)"
proof -
  define off where "off = 1 + length dc"
  have len: "1 \<le> len" "len \<le> 4" using pkt by (auto simp: quicProtectPacket_def split: if_splits)
  note parts = short_header_parts [OF len hdr, folded off_def]
  have l: "nat len < length hdr" and o: "length hdr - nat len = off"
    using parts(4) by (simp_all add: off_def)
  obtain sealed m where
    p: "pkt = hpApply m off (nat len) hdr @ sealed" "length sealed = length payload + 16" "keysValid keys"
    and m: "m = aesEcbEncryptBlock E (tk_hp keys) (take 16 (drop (4 - nat len) sealed))" "length m = 16"
    and long: "4 + 16 \<le> nat len + length sealed"
    and opened: "openPacketPayload E keys hdr sealed pn = Some payload"
    using quicProtectPacket_form [OF pkt E small l, unfolded o] by metis
  have off: "0 < off" "length hdr = off + nat len" using parts(4) by (simp_all add: off_def)
  obtain y where "hpApply m off (nat len) hdr = hpFirst (m ! 0) (hdr ! 0) # drop 1 (take off hdr) @ y"
    using hpApply_split [OF off] by blast
  then have pk: "pkt = hpFirst (m ! 0) (hdr ! 0) # dc @ y @ sealed" using parts(6) by (simp add: p(1))
  have b: "hpFirst (m ! 0) (hdr ! 0) AND 0x80 = 0" using parts(1) hpFirst_high by blast
  obtain pnl where parsed: "quicParsePacketHeader pkt True = Some (emptyHeader\<lparr> pnLength := pnl, pnOffset := 1, headerLength := 1 \<rparr>)"
    using b by (simp add: pk quicParsePacketHeader_def Let_def)
  have dc: "take (length dc) (drop 1 pkt) = dc" by (simp add: pk)
  have pl: "uint (hdr ! 0 AND 0x03) + 1 = int (nat len)" "1 \<le> nat len" "nat len \<le> 4"
    using len parts(3) by simp_all
  have hp: "length (tk_hp keys) = 16" using p(3) by (simp add: keysValid_def)
  note removed = removeHeaderProtection_apply [OF off pl(2,3,1) long hp m, folded p(1)]
  have lp: "length pkt = off + nat len + (length payload + 16)" using off p by (simp add: p(1))
  have ct: "drop (off + nat len) pkt = sealed" using off by (simp add: p(1))
  have sd: "Suc (length dc) = off" "length dc < off" by (simp_all add: off_def)
  show ?thesis
    using p(2,3) long off len parts parsed opened lp removed dc ct
      quicDecodePacketNumber_window [OF len win]
    by (simp add: quicUnprotectPacket_def Let_def sd emptyHeader_def)
qed

section \<open>Properties\<close>

text \<open>
  C1.  Protection of a long-header packet is undone by \<open>quicUnprotectPacket\<close>: when
  \<open>quicProtectPacket\<close> returns a packet for a header of \<open>quicBuildLongHeader\<close>, unprotecting
  any datagram that starts with it, at a receiver whose largest packet number is within half a
  window, returns the payload, every header field that was sent, the full packet number,
  and consumes exactly that packet.  The library's authenticated decryption is assumed to
  invert its encryption.
\<close>

theorem protect_long_roundtrip:
  assumes E: "evpAead E" and cids: "length dc \<le> 20" "length sc \<le> 20" "length tok < 2 ^ 62"
    and small: "length payload + 16 \<le> INT_MAX"
    and hdr: "hdr = quicBuildLongHeader ty ver dc sc tok pn len (of_nat (length payload + 16))"
    and pkt: "quicProtectPacket E keys hdr payload pn len = Some pkt"
    and win: "unat largestPn + 1 < 2 ^ 62" "unat pn < 2 ^ 62"
      "unat largestPn + 1 < unat pn + 2 ^ (8 * nat len - 1)"
      "unat pn \<le> unat largestPn + 1 + 2 ^ (8 * nat len - 1)"
  shows "quicUnprotectPacket E keys (pkt @ rest) dcidLen largestPn = Some (
    \<lparr> isLong = True, longType = ty, version = ver, dcid = dc, scid = sc,
      token = (if ty = QuicLongInitial then tok else []), packetNumber = pn, pnLength = len,
      headerLength = length hdr, pnOffset = length hdr - nat len,
      payloadLength = length payload + 16 + nat len, keyPhase = False \<rparr>, payload, length pkt)"
proof -
  define off where "off = length hdr - nat len"
  have len: "1 \<le> len" "len \<le> 4" using pkt by (auto simp: quicProtectPacket_def split: if_splits)
  note parts = long_header_parts [OF len hdr]
  obtain sealed m where
    p: "pkt = hpApply m off (nat len) hdr @ sealed" "length sealed = length payload + 16" "keysValid keys"
    and m: "m = aesEcbEncryptBlock E (tk_hp keys) (take 16 (drop (4 - nat len) sealed))" "length m = 16"
    and long: "4 + 16 \<le> nat len + length sealed"
    and opened: "openPacketPayload E keys hdr sealed pn = Some payload"
    unfolding off_def by (rule quicProtectPacket_form [OF pkt E small parts(4)])
  have off: "0 < off" "length hdr = off + nat len" using parts(4) by (simp_all add: off_def)
  obtain y where y: "hpApply m off (nat len) hdr = hpFirst (m ! 0) (hdr ! 0) # drop 1 (take off hdr) @ y"
    using hpApply_split [OF off] by blast
  define b where "b = hpFirst (m ! 0) (hdr ! 0)"
  have b: "b AND 0x80 \<noteq> 0" "longTypeOf (drop_bit 4 b AND 0x3) = ty"
    using parts(1,2) hpFirst_high hpFirst_type [OF parts(1)] by (simp_all add: b_def)
  have sz: "length payload + 16 + nat len < 2 ^ 62" using small len by (simp add: INT_MAX_def)
  have pk: "pkt @ rest = b # drop 1 (take off hdr) @ y @ sealed @ rest"
    by (simp add: p(1) y b_def)
  note parsed = quicParsePacketHeader_skip [OF len cids sz hdr b, folded off_def, of "y @ sealed @ rest", folded pk]
  have t': "4 + 16 \<le> nat len + length (sealed @ rest)" using long by simp
  have m': "m = aesEcbEncryptBlock E (tk_hp keys) (take 16 (drop (4 - nat len) (sealed @ rest)))"
    using long len by (simp add: m(1))
  have pnl: "uint (hdr ! 0 AND 0x03) + 1 = int (nat len)" "1 \<le> nat len" "nat len \<le> 4"
    using len parts(3) by simp_all
  have hp: "length (tk_hp keys) = 16" using p(3) by (simp add: keysValid_def)
  have pr: "pkt @ rest = hpApply m off (nat len) hdr @ (sealed @ rest)" by (simp add: p(1))
  note removed = removeHeaderProtection_apply [OF off pnl(2,3,1) t' hp m' m(2), folded pr]
  have lp: "length pkt = off + nat len + (length payload + 16)" using off p by (simp add: p(1))
  show ?thesis
    using p(2,3) long off len parts parsed opened lp removed
      quicDecodePacketNumber_window [OF len win]
    by (simp add: quicUnprotectPacket_def Let_def keysValid_def off_def [symmetric] p(1))
qed

theorem protect_long_roundtrip_witness:
  "let hdr = quicBuildLongHeader QuicLongHandshake 1 [1, 2] [9] [] 0x1234 2 20;
       pkt = the (quicProtectPacket sampleEvp sampleKeys hdr [1, 2, 3, 4] 0x1234 2)
   in quicUnprotectPacket sampleEvp sampleKeys (pkt @ [0, 1]) 0 0x1233 = Some (
    \<lparr> isLong = True, longType = QuicLongHandshake, version = 1, dcid = [1, 2], scid = [9],
      token = [], packetNumber = 0x1234, pnLength = 2, headerLength = 13, pnOffset = 11,
      payloadLength = 22, keyPhase = False \<rparr>, [1, 2, 3, 4], 33)"
proof -
  define hdr where "hdr = quicBuildLongHeader QuicLongHandshake 1 [1, 2] [9] [] 0x1234 2 20"
  have hdr: "hdr = [0xe1, 0, 0, 0, 1, 2, 1, 2, 1, 9, 22, 0x12, 0x34]"
    by (simp add: hdr_def quicBuildLongHeader_def pnBits_def versionBytes_def encodeConnId_def
        put_bytes_def quicEncodeVarint_def put_def writePn_def upt_rec)
  obtain pkt where pkt: "quicProtectPacket sampleEvp sampleKeys hdr [1, 2, 3, 4] 0x1234 2 = Some pkt"
    "length pkt = 33"
    by (simp add: hdr sample_defs upt_rec)
  have "hdr = quicBuildLongHeader QuicLongHandshake 1 [1, 2] [9] [] 0x1234 2 (of_nat (length [1, 2, 3, 4 :: byte] + 16))"
    by (simp add: hdr_def)
  from protect_long_roundtrip [OF sampleEvp_aead _ _ _ _ this pkt(1), of "0x1233" "[0, 1]" 0]
  show ?thesis by (simp add: hdr_def [symmetric] pkt) (simp add: hdr INT_MAX_def)
qed

text \<open>
  C2.  The same for short headers, whose packet fills the rest of the datagram: a receiver
  that knows the length of its connection identifiers recovers the identifier, the key
  phase, the full packet number and the payload.
\<close>

theorem protect_short_roundtrip:
  assumes E: "evpAead E" and small: "length payload + 16 \<le> INT_MAX"
    and hdr: "hdr = quicBuildShortHeader dc pn len kp"
    and pkt: "quicProtectPacket E keys hdr payload pn len = Some pkt"
    and win: "unat largestPn + 1 < 2 ^ 62" "unat pn < 2 ^ 62"
      "unat largestPn + 1 < unat pn + 2 ^ (8 * nat len - 1)"
      "unat pn \<le> unat largestPn + 1 + 2 ^ (8 * nat len - 1)"
  shows "quicUnprotectPacket E keys pkt (length dc) largestPn = Some (
    emptyHeader\<lparr> dcid := dc, packetNumber := pn, pnLength := len, headerLength := length hdr,
      pnOffset := 1 + length dc, keyPhase := kp \<rparr>, payload, length pkt)"
  using assms by (rule quicUnprotect_protect_short)

theorem protect_short_roundtrip_witness:
  "let pkt = the (quicProtectPacket sampleEvp sampleKeys (quicBuildShortHeader [8, 8] 0x1234 1 True) [1, 2, 3, 4] 0x1234 1)
   in quicUnprotectPacket sampleEvp sampleKeys pkt 2 0x1230 = Some (
    emptyHeader\<lparr> dcid := [8, 8], packetNumber := 0x1234, pnLength := 1, headerLength := 4,
      pnOffset := 3, keyPhase := True \<rparr>, [1, 2, 3, 4], 24)"
proof -
  define hdr where "hdr = quicBuildShortHeader [8, 8] 0x1234 1 True"
  have hdr: "hdr = [0x44, 8, 8, 0x34]"
    by (simp add: hdr_def quicBuildShortHeader_def pnBits_def writePn_def upt_rec)
  obtain pkt where pkt: "quicProtectPacket sampleEvp sampleKeys hdr [1, 2, 3, 4] 0x1234 1 = Some pkt"
    "length pkt = 24"
    by (simp add: hdr sample_defs upt_rec)
  have four: "(4 :: nat) = Suc (Suc (Suc (Suc 0)))" by simp
  from protect_short_roundtrip [OF sampleEvp_aead _ hdr_def pkt(1), of "0x1230"]
  show ?thesis by (simp add: hdr_def [symmetric] pkt) (simp add: hdr INT_MAX_def numeral_2_eq_2 numeral_3_eq_3 four)
qed

text \<open>
  C21.  Key derivation from a connection identifier always ends.  Whatever the library does, each
  part of the result is either empty, the failure value, or has the size the packet protection
  asks for; and the keys are valid when the library offers SHA-256 and no \<open>HMAC\<close> call fails.
\<close>

theorem derive_keys_valid:
  assumes E: "evpHmac E"
  shows "\<exists>secret keys. quicDeriveInitialSecret E dc isClient = Some secret \<and> quicDeriveTrafficKeys E secret = Some keys
    \<and> length secret \<in> {0, 32} \<and> length (tk_key keys) \<in> {0, 16} \<and> length (tk_iv keys) \<in> {0, 12} \<and> length (tk_hp keys) \<in> {0, 16}
    \<and> (evp_md E Sha256 = Some 32 \<and> hmacWorks E Sha256 \<longrightarrow> keysValid keys)"
proof -
  let ?prk = "hkdfExtract E Sha256 quicInitialSalt dc"
  let ?who = "asciiBytes (if isClient then ''client in'' else ''server in'')"
  obtain secret where s: "hkdfExpandLabel E Sha256 ?prk ?who [] 32 = Some secret" "length secret \<in> {0, 32}"
    using hkdfExpandLabel_total [OF E] by blast
  obtain k where k: "hkdfExpandLabel E Sha256 secret (asciiBytes ''quic key'') [] 16 = Some k" "length k \<in> {0, 16}"
    using hkdfExpandLabel_total [OF E] by blast
  obtain i where i: "hkdfExpandLabel E Sha256 secret (asciiBytes ''quic iv'') [] 12 = Some i" "length i \<in> {0, 12}"
    using hkdfExpandLabel_total [OF E] by blast
  obtain h where h: "hkdfExpandLabel E Sha256 secret (asciiBytes ''quic hp'') [] 16 = Some h" "length h \<in> {0, 16}"
    using hkdfExpandLabel_total [OF E] by blast
  have "length k = 16 \<and> length i = 12 \<and> length h = 16" if md: "evp_md E Sha256 = Some 32" "hmacWorks E Sha256"
  proof -
    have "length ?prk = 32" by (rule hkdfExtract_length [OF E md]) (simp add: quicInitialSalt_def INT_MAX_def)
    then have "length secret = 32"
      by (intro hkdfExpandLabel_length [OF E md _ _ _ _ _ _ _ s(1)]) (auto simp: asciiBytes_def INT_MAX_def)
    then have "secret \<noteq> []" "length secret \<le> INT_MAX" by (auto simp: INT_MAX_def)
    note len = hkdfExpandLabel_length [OF E md this]
    have "length k = 16" by (rule len [OF _ _ _ _ _ k(1)]) (simp_all add: asciiBytes_def)
    moreover have "length i = 12" by (rule len [OF _ _ _ _ _ i(1)]) (simp_all add: asciiBytes_def)
    moreover have "length h = 16" by (rule len [OF _ _ _ _ _ h(1)]) (simp_all add: asciiBytes_def)
    ultimately show ?thesis by blast
  qed
  then have "evp_md E Sha256 = Some 32 \<and> hmacWorks E Sha256 \<longrightarrow> keysValid \<lparr>tk_key = k, tk_iv = i, tk_hp = h\<rparr>"
    by (simp add: keysValid_def)
  moreover have "quicDeriveInitialSecret E dc isClient = Some secret" by (simp only: quicDeriveInitialSecret_def s(1))
  moreover have "quicDeriveTrafficKeys E secret = Some \<lparr>tk_key = k, tk_iv = i, tk_hp = h\<rparr>"
    by (simp add: quicDeriveTrafficKeys_def k(1) i(1) h(1))
  ultimately show ?thesis using s(2) k(2) i(2) h(2) 
    by (intro exI [of _ secret] exI [of _ "\<lparr>tk_key = k, tk_iv = i, tk_hp = h\<rparr>"]) (simp only: QuicTrafficKeys.simps simp_thms)
qed

theorem derive_keys_valid_witness:
  "\<exists>secret keys. quicDeriveInitialSecret sampleEvp [1, 2, 3] True = Some secret
    \<and> quicDeriveTrafficKeys sampleEvp secret = Some keys \<and> keysValid keys"
  using derive_keys_valid [OF sampleEvp_hmac, of "[1, 2, 3]" True] sampleEvp_works by blast

text \<open>
  C23.  Building a Retry packet always ends, and unless the cryptographic library failed the
  packet is accepted by \<open>quicParseRetryPacket\<close> with the original connection identifier it was
  built for, yielding the version, identifiers and token put into it.
\<close>

theorem retry_roundtrip:
  assumes "evpHmac E" "length dc \<le> 20" "length sc \<le> 20"
  shows "\<exists>pkt. quicBuildRetryPacket E ver dc sc tok odcid = Some pkt
    \<and> (pkt = [] \<or> quicParseRetryPacket E pkt odcid = Some (Some (ver, dc, sc, tok)))"
proof -
  define body where "body = 0xf0 # versionBytes ver @ snd (encodeConnId dc) @ snd (encodeConnId sc) @ tok"
  obtain tag where tag: "quicRetryIntegrityTag E odcid (pseudoPacket odcid body) = Some tag"
    using quicRetryIntegrityTag_total [OF assms(1)] by blast
  have pkt: "quicBuildRetryPacket E ver dc sc tok odcid = Some (if length tag \<noteq> 16 then [] else body @ tag)"
    using tag by (simp add: quicBuildRetryPacket_def body_def)
  have "quicParseRetryPacket E (body @ tag) odcid = Some (Some (ver, dc, sc, tok))" if len: "length tag = 16"
  proof -
    have "quicRetryIntegrityTag E odcid (pseudoPacket odcid (take (length (body @ tag) - 16) (body @ tag))) = Some tag"
      by (simp add: len tag)
    moreover have "drop 5 (body @ tag) = snd (encodeConnId dc) @ snd (encodeConnId sc) @ tok @ tag"
      by (simp add: body_def)
    moreover have "versionOf (body @ tag) = ver" "(body @ tag) ! 0 = 0xf0" "5 \<le> length (body @ tag)"
      by (simp_all add: body_def versionOf_bytes)
    moreover have "decodeConnId (snd (encodeConnId dc) @ snd (encodeConnId sc) @ tok @ tag) = Some (dc, snd (encodeConnId sc) @ tok @ tag)"
      "decodeConnId (snd (encodeConnId sc) @ tok @ tag) = Some (sc, tok @ tag)"
      using assms(2,3) by (simp_all add: codec_simps)
    ultimately show ?thesis unfolding quicParseRetryPacket_def Let_def by (simp add: len)
  qed
  then show ?thesis unfolding pkt by (cases "length tag = 16") simp_all
qed

theorem retry_roundtrip_witness:
  "\<exists>pkt. quicBuildRetryPacket sampleEvp 1 [1, 2] [3] [4, 5, 6] [8, 9] = Some pkt \<and> pkt \<noteq> []
    \<and> quicParseRetryPacket sampleEvp pkt [8, 9] = Some (Some (1, [1, 2], [3], [4, 5, 6]))"
proof -
  have "quicBuildRetryPacket sampleEvp 1 [1, 2] [3] [4, 5, 6] [8, 9] \<noteq> Some []"
    by (simp add: quicBuildRetryPacket_def sampleEvp_retryTag pseudoPacket_def encodeConnId_def versionBytes_def INT_MAX_def)
  then show ?thesis
    using retry_roundtrip [OF sampleEvp_hmac, of "[1, 2]" "[3]" 1 "[4, 5, 6]" "[8, 9]"] by auto
qed

text \<open>
  A stateless reset built for a token is recognised by an endpoint exactly when that
  token is among those the endpoint knows, whatever the random bytes were.
\<close>

theorem stateless_reset_recognised:
  assumes "length rnd = 21" "length tok = 16"
  shows "quicIsStatelessReset (quicBuildStatelessReset rnd tok) tokens \<longleftrightarrow> tok \<in> set tokens"
  using assms by (auto simp: quicIsStatelessReset_def quicBuildStatelessReset_def)

theorem stateless_reset_recognised_witness:
  "quicIsStatelessReset (quicBuildStatelessReset (replicate 21 9) (replicate 16 1)) [replicate 16 2, replicate 16 1]"
  by (subst stateless_reset_recognised) simp_all

end
