(* ===== verification/Std_Map.thy ===== *)
theory Std_Map
  imports Qtng_Prelude
begin

text \<open>
  The ordered associative container \<open>std::map\<close> as the components use it: entries in
  strictly increasing key order, \<open>operator[]=\<close>, \<open>find\<close> (which is \<^const>\<open>map_of\<close>),
  \<open>erase\<close>, and in-order iteration as recursion over the list of entries.
\<close>

type_synonym ('k, 'v) smap = "('k \<times> 'v) list"

fun smap_put :: "'k::linorder \<Rightarrow> 'v \<Rightarrow> ('k, 'v) smap \<Rightarrow> ('k, 'v) smap" where
  "smap_put k v [] = [(k, v)]"
| "smap_put k v ((k', v') # m) =
     (if k < k' then (k, v) # (k', v') # m
      else if k = k' then (k, v) # m
      else (k', v') # smap_put k v m)"

text \<open>\<open>emplace\<close> leaves an entry that is already there.\<close>

definition smap_emplace :: "'k::linorder \<Rightarrow> 'v \<Rightarrow> ('k, 'v) smap \<Rightarrow> ('k, 'v) smap" where
  "smap_emplace k v m = (if map_of m k = None then smap_put k v m else m)"

definition smap_erase :: "'k \<Rightarrow> ('k, 'v) smap \<Rightarrow> ('k, 'v) smap" where
  "smap_erase k m = filter (\<lambda>e. fst e \<noteq> k) m"

definition smap_wf :: "('k::linorder, 'v) smap \<Rightarrow> bool" where
  "smap_wf m \<longleftrightarrow> sorted_wrt (<) (map fst m)"

lemma smap_wf_simps [simp]:
  "smap_wf []"
  "smap_wf (e # m) \<longleftrightarrow> (\<forall>e' \<in> set m. fst e < fst e') \<and> smap_wf m"
  by (auto simp: smap_wf_def)

lemma smap_wf_distinct: "smap_wf m \<Longrightarrow> distinct (map fst m)"
  by (simp add: smap_wf_def strict_sorted_iff)

lemma smap_put_keys [simp]: "fst ` set (smap_put k v m) = insert k (fst ` set m)"
  by (induction k v m rule: smap_put.induct) auto

lemma smap_put_wf [intro]: "smap_wf m \<Longrightarrow> smap_wf (smap_put k v m)"
proof (induction k v m rule: smap_put.induct)
  case (2 k v k' v' m)
  have "\<forall>e' \<in> set (smap_put k v m). k' < fst e'" if "k' < k"
  proof
    fix e' assume "e' \<in> set (smap_put k v m)"
    then have "fst e' \<in> insert k (fst ` set m)" by (metis imageI smap_put_keys)
    with 2 that show "k' < fst e'" by auto
  qed
  with 2 show ?case by (auto simp: not_less)
qed simp

lemma smap_put_last: "\<forall>e \<in> set m. fst e < k \<Longrightarrow> smap_put k v m = m @ [(k, v)]"
  by (induction k v m rule: smap_put.induct) auto

lemma map_of_smap_put [simp]:
  "smap_wf m \<Longrightarrow> map_of (smap_put k v m) = (map_of m)(k \<mapsto> v)"
proof (induction k v m rule: smap_put.induct)
  case (2 k v k' v' m)
  have "map_of m k = None" if "k < k'" "\<forall>e' \<in> set m. k' < fst e'"
    using that by (force simp: map_of_eq_None_iff)
  with 2 show ?case by (auto simp: fun_eq_iff)
qed auto

lemma smap_erase_wf [intro]: "smap_wf m \<Longrightarrow> smap_wf (smap_erase k m)"
  by (induction m) (auto simp: smap_erase_def)

lemma map_of_smap_erase [simp]: "map_of (smap_erase k m) = (map_of m)(k := None)"
  by (induction m) (auto simp: smap_erase_def fun_eq_iff)

lemma smap_erase_keys [simp]: "fst ` set (smap_erase k m) = fst ` set m - {k}"
  by (auto simp: smap_erase_def)

lemma smap_erase_absent: "map_of m k = None \<Longrightarrow> smap_erase k m = m"
  by (auto simp: smap_erase_def map_of_eq_None_iff intro!: filter_True)

lemma smap_emplace_last: "\<forall>e \<in> set m. fst e < k \<Longrightarrow> smap_emplace k v m = m @ [(k, v)]"
  by (force simp: smap_emplace_def smap_put_last map_of_eq_None_iff)

text \<open>Sums over the entries, for the counters that shadow a container.\<close>

lemma sum_smap_put:
  fixes f :: "'v \<Rightarrow> nat"
  assumes "k \<notin> fst ` set m"
  shows "(\<Sum>e\<leftarrow>smap_put k v m. f (snd e)) = f v + (\<Sum>e\<leftarrow>m. f (snd e))"
  using assms by (induction k v m rule: smap_put.induct) auto

lemma sum_smap_erase:
  fixes f :: "'v \<Rightarrow> nat"
  assumes "smap_wf m" "map_of m k = Some v"
  shows "(\<Sum>e\<leftarrow>m. f (snd e)) = f v + (\<Sum>e\<leftarrow>smap_erase k m. f (snd e))"
  using assms
proof (induction m)
  case (Cons e m)
  show ?case
  proof (cases "fst e = k")
    case True
    then have "map_of m k = None" using Cons.prems by (force simp: map_of_eq_None_iff)
    then have "smap_erase k (e # m) = m" using True smap_erase_absent [of m k] by (simp add: smap_erase_def)
    with True Cons.prems show ?thesis by (cases e) simp
  next
    case False
    then have "smap_erase k (e # m) = e # smap_erase k m" by (simp add: smap_erase_def)
    with False Cons show ?thesis by (cases e) simp
  qed
qed simp

end
