(* ===== verification/Quic_Recovery.thy ===== *)
theory Quic_Recovery
  imports Quic_Frame Std_Map
begin

unbundle bit_operations_syntax

text \<open>
  Acknowledgements and loss recovery: \<open>quicBuildAckFrame\<close> of \<open>src/quic.cpp\<close> and all of
  \<open>src/quic_recovery.cpp\<close> (\<open>QuicRttStats\<close>, \<open>QuicLossRecovery\<close>).  Packet numbers and
  times in microseconds are 64-bit words; \<open>m_bytesInFlight\<close> is the total length of
  strings the process holds and is a natural number.  The \<open>std::map\<close> of sent packets is
  the ordered association list of \<open>Std_Map\<close>, the \<open>std::set\<close> of packet numbers a set.
\<close>

section \<open>Building an ACK frame\<close>

text \<open>\<open>while (low > 0 && received.count(low - 1)) --low;\<close>\<close>

function runLow :: "u64 set \<Rightarrow> u64 \<Rightarrow> u64" where
  "runLow S low = (if low > 0 \<and> low - 1 \<in> S then runLow S (low - 1) else low)"
  by auto
termination
  by (relation "measure (\<lambda>(S, low). unat low)") (auto simp: unat_minus_one word_greater_zero_iff unat_gt_0)

text \<open>\<open>while (gapLow > 0 && !received.count(gapLow - 1)) --gapLow;\<close>\<close>

function gapLow :: "u64 set \<Rightarrow> u64 \<Rightarrow> u64" where
  "gapLow S g = (if g > 0 \<and> g - 1 \<notin> S then gapLow S (g - 1) else g)"
  by auto
termination
  by (relation "measure (\<lambda>(S, g). unat g)") (auto simp: unat_minus_one word_greater_zero_iff unat_gt_0)

declare runLow.simps [simp del] gapLow.simps [simp del]

lemma runLow_le: "runLow S low \<le> low"
proof (induction S low rule: runLow.induct)
  case (1 S low)
  then show ?case
    by (subst runLow.simps) (auto simp: word_le_nat_alt unat_minus_one word_greater_zero_iff)
qed

lemma gapLow_le: "gapLow S g \<le> g"
proof (induction S g rule: gapLow.induct)
  case (1 S g)
  then show ?case
    by (subst gapLow.simps) (auto simp: word_le_nat_alt unat_minus_one word_greater_zero_iff)
qed

text \<open>
  The outer loop; \<open>n\<close> is the number of ranges already in the frame, at 255 of which
  the loop stops.
\<close>

function ackRangesLoop :: "u64 set \<Rightarrow> u64 \<Rightarrow> nat \<Rightarrow> QuicAckRange list" where
  "ackRangesLoop S prevLow n =
     (if prevLow > 0 then
        if prevLow - 1 \<in> S then []
        else let g = gapLow S (prevLow - 1) in
          if g = 0 then []
          else
            let rangeHigh = g - 1;
                rangeLow = runLow S rangeHigh;
                r = \<lparr> gap = prevLow - 1 - rangeHigh - 1, ackRangeLength = rangeHigh - rangeLow \<rparr>
            in if n + 1 \<ge> 255 then [r] else r # ackRangesLoop S rangeLow (n + 1)
      else [])"
  by auto
termination
proof (relation "measure (\<lambda>(S, p, n). unat p)", goal_cases)
  case (2 S p n g h l r)
  have "unat l \<le> unat h" using runLow_le [of S h] 2 by (simp add: word_le_nat_alt)
  moreover have "unat h < unat g" using 2 by (simp add: unat_minus_one unat_gt_0)
  moreover have "unat g \<le> unat (p - 1)" using gapLow_le [of S "p - 1"] 2 by (simp add: word_le_nat_alt)
  moreover have "unat (p - 1) < unat p" using 2 by (simp add: unat_minus_one word_greater_zero_iff unat_gt_0)
  ultimately show ?case by simp
qed simp

declare ackRangesLoop.simps [simp del]

definition quicBuildAckFrame :: "u64 set \<Rightarrow> QuicFrame \<Rightarrow> QuicFrame" where
  "quicBuildAckFrame received ack =
     (if received = {} then ack
      else
        let largest = Max received;
            low = runLow received largest
        in ack\<lparr> fr_type := Ack, largestAcknowledged := largest, ackDelay := 0,
                firstAckRange := largest - low,
                ackRanges := ackRanges ack @ ackRangesLoop received low (length (ackRanges ack)) \<rparr>)"

section \<open>Round-trip time\<close>

record QuicRttStats =
  latestRttUs :: u64
  minRttUs :: u64
  smoothedRttUs :: u64
  rttvarUs :: u64
  maxAckDelayUs :: u64

definition initRtt :: QuicRttStats where
  "initRtt = \<lparr> latestRttUs = 0, minRttUs = 0, smoothedRttUs = 0, rttvarUs = 0, maxAckDelayUs = 25000 \<rparr>"

definition onAckSample :: "QuicRttStats \<Rightarrow> u64 \<Rightarrow> u64 \<Rightarrow> u64 \<Rightarrow> QuicRttStats" where
  "onAckSample r timeSent ackDelayUs nowUs =
     (if timeSent = 0 \<or> nowUs < timeSent then r
      else
        let latest = nowUs - timeSent;
            latest = (if ackDelayUs < latest then latest - min ackDelayUs (maxAckDelayUs r) else latest);
            r = r\<lparr> latestRttUs := latest \<rparr>;
            r = (if minRttUs r = 0 \<or> latest < minRttUs r then r\<lparr> minRttUs := latest \<rparr> else r)
        in if smoothedRttUs r = 0 then r\<lparr> smoothedRttUs := latest, rttvarUs := latest div 2 \<rparr>
           else
             let delta = (if smoothedRttUs r > latest then smoothedRttUs r - latest
                          else latest - smoothedRttUs r)
             in r\<lparr> rttvarUs := 3 * rttvarUs r div 4 + delta div 4,
                   smoothedRttUs := 7 * smoothedRttUs r div 8 + latest div 8 \<rparr>)"

definition ptoUs :: "QuicRttStats \<Rightarrow> u64" where
  "ptoUs r =
     (let base = 4 * rttvarUs r;
          base = (if base < 1000 then 1000 else base)
      in smoothedRttUs r + base + maxAckDelayUs r)"

section \<open>Sent packets and loss detection\<close>

datatype QuicPacketNumberSpace = QuicPnInitial | QuicPnHandshake | QuicPnApplication

record QuicSentPacket =
  sp_pn :: u64
  sp_space :: QuicPacketNumberSpace
  sp_raw :: bytes
  ackEliciting :: bool
  inFlight :: bool
  timeSentUs :: u64

type_synonym sent = "(u64, QuicSentPacket) smap"

record QuicLossRecovery =
  m_sent :: "QuicPacketNumberSpace \<Rightarrow> sent"
  m_largestAcked :: "QuicPacketNumberSpace \<Rightarrow> u64"
  m_largestSent :: "QuicPacketNumberSpace \<Rightarrow> u64"
  m_lastSentTimeUs :: "QuicPacketNumberSpace \<Rightarrow> u64"
  m_ptoCount :: "QuicPacketNumberSpace \<Rightarrow> u64"
  m_earliestLostTimeUs :: "QuicPacketNumberSpace \<Rightarrow> u64"
  m_bytesInFlight :: nat
  m_rtt :: QuicRttStats

definition initRecovery :: QuicLossRecovery where
  "initRecovery = \<lparr> m_sent = (\<lambda>_. []), m_largestAcked = (\<lambda>_. 0), m_largestSent = (\<lambda>_. 0),
     m_lastSentTimeUs = (\<lambda>_. 0), m_ptoCount = (\<lambda>_. 0), m_earliestLostTimeUs = (\<lambda>_. 0),
     m_bytesInFlight = 0, m_rtt = initRtt \<rparr>"

definition kPacketThreshold :: u64 where "kPacketThreshold = 3"

definition kTimeThresholdDenominator :: u64 where "kTimeThresholdDenominator = 8"

definition onPacketSent :: "QuicLossRecovery \<Rightarrow> QuicSentPacket \<Rightarrow> QuicLossRecovery" where
  "onPacketSent s pkt =
     (let sp = sp_space pkt;
          s = s\<lparr> m_sent := (m_sent s)(sp := smap_put (sp_pn pkt) pkt (m_sent s sp)) \<rparr>;
          s = (if sp_pn pkt > m_largestSent s sp
               then s\<lparr> m_largestSent := (m_largestSent s)(sp := sp_pn pkt) \<rparr> else s);
          s = (if timeSentUs pkt > m_lastSentTimeUs s sp
               then s\<lparr> m_lastSentTimeUs := (m_lastSentTimeUs s)(sp := timeSentUs pkt) \<rparr> else s)
      in if inFlight pkt then s\<lparr> m_bytesInFlight := m_bytesInFlight s + length (sp_raw pkt) \<rparr> else s)"

text \<open>The newest packet in flight: its number and send time, or zeros.\<close>

definition newestInFlight :: "sent \<Rightarrow> u64 \<times> u64" where
  "newestInFlight m = foldl (\<lambda>(pn, t) (k, p).
     if inFlight p \<and> k > pn then (k, timeSentUs p) else (pn, t)) (0, 0) m"

definition lossDelay :: "QuicRttStats \<Rightarrow> u64" where
  "lossDelay r =
     (if smoothedRttUs r > 0 then
        let d = 9 * max (latestRttUs r) (smoothedRttUs r) div kTimeThresholdDenominator
        in if d < 1000 then 1000 else d
      else 0)"

definition isLost :: "u64 \<Rightarrow> u64 \<Rightarrow> u64 \<Rightarrow> u64 \<Rightarrow> u64 \<Rightarrow> u64 \<Rightarrow> bool" where
  "isLost acked newestPn newestTime delay nowUs k \<longleftrightarrow>
     (acked \<ge> kPacketThreshold \<and> k \<le> acked - kPacketThreshold)
     \<or> (delay > 0 \<and> newestTime > 0 \<and> nowUs \<ge> newestTime + delay \<and> k < newestPn)"

text \<open>The loop over the map: bytes in flight, the next alarm and the lost packets so far.\<close>

fun detectLoop :: "u64 \<Rightarrow> u64 \<Rightarrow> u64 \<Rightarrow> u64 \<Rightarrow> u64 \<Rightarrow> sent \<Rightarrow> nat \<Rightarrow> u64 \<Rightarrow>
    sent \<times> nat \<times> u64 \<times> QuicSentPacket list" where
  "detectLoop acked newestPn newestTime delay nowUs [] b earliest = ([], b, earliest, [])"
| "detectLoop acked newestPn newestTime delay nowUs ((k, p) # m) b earliest =
     (if \<not> inFlight p then
        let (m', b', e', lost) = detectLoop acked newestPn newestTime delay nowUs m b earliest
        in ((k, p) # m', b', e', lost)
      else if isLost acked newestPn newestTime delay nowUs k then
        let p' = p\<lparr> inFlight := False \<rparr>;
            (m', b', e', lost) = detectLoop acked newestPn newestTime delay nowUs m
              (b - min b (length (sp_raw p))) earliest
        in ((k, p') # m', b', e', p' # lost)
      else
        let lossTime = newestTime + delay;
            earliest = (if delay > 0 \<and> newestTime > 0 \<and> newestPn > 0
              \<and> lossTime > nowUs \<and> (earliest = 0 \<or> lossTime < earliest) then lossTime else earliest);
            (m', b', e', lost) = detectLoop acked newestPn newestTime delay nowUs m b earliest
        in ((k, p) # m', b', e', lost))"

definition detectLostPackets :: "QuicLossRecovery \<Rightarrow> QuicPacketNumberSpace \<Rightarrow> u64 \<Rightarrow>
    QuicLossRecovery \<times> QuicSentPacket list" where
  "detectLostPackets s sp nowUs =
     (let (newestPn, newestTime) = newestInFlight (m_sent s sp);
          (m, b, e, lost) = detectLoop (m_largestAcked s sp) newestPn newestTime (lossDelay (m_rtt s)) nowUs
            (m_sent s sp) (m_bytesInFlight s) 0
      in (s\<lparr> m_sent := (m_sent s)(sp := m), m_bytesInFlight := b,
             m_earliestLostTimeUs := (m_earliestLostTimeUs s)(sp := e) \<rparr>, lost))"

section \<open>Processing an ACK\<close>

text \<open>\<open>for (i = 0; i <= len; ++i) acked.insert(high - i);\<close>\<close>

definition ackSpan :: "u64 \<Rightarrow> u64 \<Rightarrow> u64 set" where
  "ackSpan high len = (\<lambda>i. high - of_nat i) ` {0..unat len}"

fun expandRanges :: "u64 \<Rightarrow> QuicAckRange list \<Rightarrow> u64 set" where
  "expandRanges cursor [] = {}"
| "expandRanges cursor (r # rs) =
     (if gap r + 2 > cursor then {}
      else
        let cursor = cursor - (gap r + 2);
            rangeLen = min (ackRangeLength r) cursor;
            next = cursor - rangeLen
        in ackSpan cursor rangeLen \<union> (if next = 0 then {} else expandRanges next rs))"

definition ackedNumbers :: "u64 \<Rightarrow> QuicFrame \<Rightarrow> u64 set" where
  "ackedNumbers largest ack =
     (let firstRange = min (firstAckRange ack) largest
      in ackSpan largest firstRange \<union> expandRanges (largest - firstRange) (ackRanges ack))"

text \<open>The loop over the acknowledged numbers, in increasing order.\<close>

fun ackPackets :: "u64 list \<Rightarrow> sent \<Rightarrow> nat \<Rightarrow> sent \<times> nat \<times> QuicSentPacket list" where
  "ackPackets [] m b = (m, b, [])"
| "ackPackets (n # ns) m b =
     (case map_of m n of
        None \<Rightarrow> ackPackets ns m b
      | Some p \<Rightarrow>
          let b' = (if inFlight p then b - min b (length (sp_raw p)) else b);
              (m', b'', ps) = ackPackets ns (smap_erase n m) b'
          in (m', b'', p\<lparr> inFlight := False \<rparr> # ps))"

definition sampleRtt :: "QuicLossRecovery \<Rightarrow> QuicPacketNumberSpace \<Rightarrow> u64 \<Rightarrow> u64 \<Rightarrow> u64 \<Rightarrow> QuicLossRecovery" where
  "sampleRtt s sp largest delay nowUs =
     (if largest > m_largestAcked s sp then
        (case map_of (m_sent s sp) largest of None \<Rightarrow> s
         | Some p \<Rightarrow> s\<lparr> m_rtt := onAckSample (m_rtt s) (timeSentUs p) delay nowUs,
                        m_ptoCount := (m_ptoCount s)(sp := 0) \<rparr>)
      else s)"

text \<open>Both output vectors are requested; what the source appends to them is returned.\<close>

definition onAckReceived :: "QuicLossRecovery \<Rightarrow> QuicPacketNumberSpace \<Rightarrow> QuicFrame \<Rightarrow> u64 \<Rightarrow>
    QuicLossRecovery \<times> QuicSentPacket list \<times> bytes list" where
  "onAckReceived s sp ack nowUs =
     (let largest = min (largestAcknowledged ack) (m_largestSent s sp);
          s = sampleRtt s sp largest (ackDelay ack) nowUs;
          (m, b, newly) = ackPackets (sorted_list_of_set (ackedNumbers largest ack)) (m_sent s sp) (m_bytesInFlight s);
          s = s\<lparr> m_sent := (m_sent s)(sp := m), m_bytesInFlight := b \<rparr>;
          s = (if largest > m_largestAcked s sp
               then s\<lparr> m_largestAcked := (m_largestAcked s)(sp := largest) \<rparr> else s);
          (s, lost) = detectLostPackets s sp nowUs
      in (s, sort_key sp_pn newly, map sp_raw lost))"

section \<open>Queries and timers\<close>

definition packetsToRetransmitOnPto :: "QuicLossRecovery \<Rightarrow> QuicPacketNumberSpace \<Rightarrow> bytes list" where
  "packetsToRetransmitOnPto s sp =
     map (sp_raw \<circ> snd) (filter (\<lambda>e. inFlight (snd e) \<and> ackEliciting (snd e)) (m_sent s sp))"

definition bytesInFlight :: "QuicLossRecovery \<Rightarrow> QuicPacketNumberSpace \<Rightarrow> nat" where
  "bytesInFlight s sp = (\<Sum>e\<leftarrow>m_sent s sp. if inFlight (snd e) then length (sp_raw (snd e)) else 0)"

definition hasInFlight :: "QuicLossRecovery \<Rightarrow> QuicPacketNumberSpace \<Rightarrow> bool" where
  "hasInFlight s sp \<longleftrightarrow> (\<exists>e \<in> set (m_sent s sp). inFlight (snd e))"

definition detectLostOnAlarm :: "QuicLossRecovery \<Rightarrow> QuicPacketNumberSpace \<Rightarrow> u64 \<Rightarrow>
    QuicLossRecovery \<times> QuicSentPacket list" where
  "detectLostOnAlarm s sp nowUs =
     (let (s, lost) = detectLostPackets s sp nowUs
      in (s\<lparr> m_earliestLostTimeUs := (m_earliestLostTimeUs s)(sp := 0) \<rparr>, lost))"

definition ptoTimeoutUs :: "QuicLossRecovery \<Rightarrow> QuicPacketNumberSpace \<Rightarrow> u64" where
  "ptoTimeoutUs s sp =
     (let base = (if smoothedRttUs (m_rtt s) > 0 then ptoUs (m_rtt s) else 1000 * 1000);
          backoff = push_bit (unat (min (m_ptoCount s sp) 8)) 1
      in base * backoff)"

definition onPtoExpired :: "QuicLossRecovery \<Rightarrow> QuicPacketNumberSpace \<Rightarrow> QuicLossRecovery" where
  "onPtoExpired s sp = s\<lparr> m_ptoCount := (m_ptoCount s)(sp := m_ptoCount s sp + 1) \<rparr>"

definition resetPtoCounters :: "QuicLossRecovery \<Rightarrow> QuicLossRecovery" where
  "resetPtoCounters s = s\<lparr> m_ptoCount := (\<lambda>_. 0) \<rparr>"

section \<open>What an ACK frame stands for\<close>

lemma word_pred_less: "0 < w \<Longrightarrow> x < w \<longleftrightarrow> x \<le> w - 1" for w x :: u64
proof -
  assume w: "0 < w"
  then have "unat (w - 1) = unat w - 1" "0 < unat w"
    by (auto simp: unat_minus_one word_greater_zero_iff unat_gt_0)
  then show ?thesis by (auto simp: word_less_nat_alt word_le_nat_alt)
qed

lemma ackSpan_interval: "len \<le> high \<Longrightarrow> ackSpan high len = {high - len..high}"
proof (intro set_eqI iffI)
  fix x assume le: "len \<le> high" and x: "x \<in> ackSpan high len"
  then obtain i where i: "i \<le> unat len" "x = high - of_nat i" by (auto simp: ackSpan_def)
  have "unat len < 2 ^ LENGTH(64)" by (rule unsigned_less)
  then have u: "unat (of_nat i :: u64) = i" using i(1) by (intro unat_of_nat_u64) simp
  then have "(of_nat i :: u64) \<le> len" using i by (simp add: word_le_nat_alt)
  with le have "unat x = unat high - i" by (simp add: i(2) unat_sub u)
  then show "x \<in> {high - len..high}"
    using le i(1) by (auto simp: word_le_nat_alt unat_sub)
next
  fix x assume le: "len \<le> high" and x: "x \<in> {high - len..high}"
  then have "unat high - unat x \<le> unat len" "unat x \<le> unat high"
    by (auto simp: word_le_nat_alt unat_sub)
  moreover from this have "x = high - of_nat (unat high - unat x)"
    by (simp add: word_unat_eq_iff of_nat_diff)
  ultimately show "x \<in> ackSpan high len" unfolding ackSpan_def by fastforce
qed

lemma runLow_spec:
  "{runLow S low..<low} \<subseteq> S \<and> (runLow S low = 0 \<or> runLow S low - 1 \<notin> S)"
proof (induction S low rule: runLow.induct)
  case (1 S low)
  show ?case
  proof (cases "low > 0 \<and> low - 1 \<in> S")
    case True
    then have "runLow S low = runLow S (low - 1)" by (subst runLow.simps) simp
    moreover have "x \<in> S" if "x < low" "runLow S (low - 1) \<le> x" for x
      using 1 True that word_pred_less [of low x] by (cases "x = low - 1") auto
    ultimately show ?thesis using 1 True by auto
  next
    case False
    then have "runLow S low = low" by (subst runLow.simps) auto
    then show ?thesis using False by (auto simp: word_greater_zero_iff)
  qed
qed

lemma gapLow_spec:
  "{gapLow S g..<g} \<inter> S = {} \<and> (gapLow S g = 0 \<or> gapLow S g - 1 \<in> S)"
proof (induction S g rule: gapLow.induct)
  case (1 S g)
  show ?case
  proof (cases "g > 0 \<and> g - 1 \<notin> S")
    case True
    then have "gapLow S g = gapLow S (g - 1)" by (subst gapLow.simps) simp
    moreover have "x \<notin> S" if "x < g" "gapLow S (g - 1) \<le> x" for x
      using 1 True that word_pred_less [of g x] by (cases "x = g - 1") (auto simp: disjoint_iff)
    ultimately show ?thesis using 1 True by (auto simp: disjoint_iff)
  next
    case False
    then have "gapLow S g = g" by (subst gapLow.simps) auto
    then show ?thesis using False by (auto simp: word_greater_zero_iff)
  qed
qed

lemma below_zero: "{..<0 :: u64} = {}"
  by (auto simp: word_less_nat_alt)

lemma word_succ_pred: "0 < w \<Longrightarrow> w - 1 < w" for w :: u64
  using word_pred_less by blast

text \<open>One step of the outer loop, and the receiver's step that undoes it.\<close>

lemma ackRangesLoop_step:
  assumes p: "0 < p" "p - 1 \<notin> S" and g: "g = gapLow S (p - 1)" "0 < g" and l: "l = runLow S (g - 1)"
  shows "{l..g - 1} \<subseteq> S" "S \<inter> {..<p} = {l..g - 1} \<union> S \<inter> {..<l}" "l = 0 \<or> l - 1 \<notin> S"
    and "expandRanges p (\<lparr> gap = p - 1 - (g - 1) - 1, ackRangeLength = g - 1 - l \<rparr> # rs)
      = {l..g - 1} \<union> (if l = 0 then {} else expandRanges l rs)"
proof -
  have top: "g - 1 \<in> S" using gapLow_spec [of S "p - 1", folded g(1)] g(2) by auto
  have le: "l \<le> g - 1" using runLow_le l by blast
  have gp: "g \<le> p - 1" using gapLow_le g by blast
  have below: "{l..<g - 1} \<subseteq> S" using runLow_spec [of S "g - 1", folded l] by blast
  have "x \<in> S" if "l \<le> x" "x \<le> g - 1" for x
    using that below top by (cases "x = g - 1") auto
  then show sub: "{l..g - 1} \<subseteq> S" by auto
  show low: "l = 0 \<or> l - 1 \<notin> S" using runLow_spec [of S "g - 1"] l by blast
  have g1: "g - 1 < g" and p1: "p - 1 < p" using word_succ_pred g(2) p(1) by blast+
  have "x \<le> g - 1" if x: "x \<in> S" "x < p" for x
  proof -
    have "x \<noteq> p - 1" "x \<le> p - 1" using x p word_pred_less [of p x] by auto
    then have "x < p - 1" by (rule le_neq_trans [rotated])
    then have "\<not> g \<le> x" using gapLow_spec [of S "p - 1", folded g(1)] x by (auto simp: disjoint_iff)
    then show ?thesis using word_pred_less [of g x] g(2) by (simp add: not_le)
  qed
  moreover have hp: "g - 1 < p" by (rule less_trans [OF less_le_trans [OF g1 gp] p1])
  ultimately show "S \<inter> {..<p} = {l..g - 1} \<union> S \<inter> {..<l}"
    using sub le by (auto simp: not_less intro: le_less_trans)
  define h where "h = g - 1"
  have gap: "p - 1 - h - 1 + 2 = p - h" by simp
  have d1: "p - h \<le> p" and d2: "h - l \<le> h"
    using hp le by (simp_all add: h_def word_sub_le order_less_imp_le)
  have c: "p - (p - h) = h" "h - (h - l) = l" by simp_all
  have span: "ackSpan h (h - l) = {l..h}" using ackSpan_interval [OF d2] by (simp only: c)
  show "expandRanges p (\<lparr> gap = p - 1 - (g - 1) - 1, ackRangeLength = g - 1 - l \<rparr> # rs)
      = {l..g - 1} \<union> (if l = 0 then {} else expandRanges l rs)"
    unfolding h_def [symmetric] expandRanges.simps QuicAckRange.simps gap Let_def c min_absorb1 [OF d2] span
    using d1 by (simp only: not_less [symmetric] if_False)
qed

lemma expandRanges_loop:
  "expandRanges p (ackRangesLoop S p n) \<subseteq> S \<inter> {..<p} \<and>
   (p = 0 \<or> p - 1 \<notin> S \<longrightarrow> n + length (ackRangesLoop S p n) < 255 \<longrightarrow>
     expandRanges p (ackRangesLoop S p n) = S \<inter> {..<p})"
proof (induction S p n rule: ackRangesLoop.induct)
  case (1 S p n)
  define g where "g = gapLow S (p - 1)"
  define l where "l = runLow S (g - 1)"
  define r where "r = \<lparr> gap = p - 1 - (g - 1) - 1, ackRangeLength = g - 1 - l \<rparr>"
  consider "p = 0" | "0 < p" "p - 1 \<in> S" | "0 < p" "p - 1 \<notin> S" "g = 0" | "0 < p" "p - 1 \<notin> S" "0 < g"
    by (auto simp: word_greater_zero_iff)
  then show ?case
  proof cases
    case 3
    have "S \<inter> {..<p} = {}"
    proof -
      have "x \<notin> S" if "x < p" for x
      proof (cases "x = p - 1")
        case False
        then have "x < p - 1" using that 3 word_pred_less [of p x] by (simp add: order_le_less)
        then show ?thesis using 3 gapLow_spec [of S "p - 1"] by (auto simp: g_def disjoint_iff)
      qed (use 3 in simp)
      then show ?thesis by auto
    qed
    with 3 show ?thesis by (subst (1 2 3) ackRangesLoop.simps) (simp add: g_def)
  next
    case 4
    note step = ackRangesLoop_step [OF 4(1,2) g_def 4(3) l_def, folded r_def]
    have unf: "ackRangesLoop S p n = (if n + 1 \<ge> 255 then [r] else r # ackRangesLoop S l (n + 1))"
      using 4 by (subst ackRangesLoop.simps) (simp add: g_def l_def r_def Let_def)
    show ?thesis
    proof (cases "n + 1 \<ge> 255")
      case True
      then have "expandRanges p (ackRangesLoop S p n) = {l..g - 1}"
        by (simp only: unf step(4) if_True expandRanges.simps(1) if_cancel Un_empty_right)
      moreover have "\<not> n + length (ackRangesLoop S p n) < 255" using True by (simp add: unf)
      ultimately show ?thesis using step(2) by blast
    next
      case False
      have g0: "g \<noteq> 0" using 4(3) by (simp add: word_greater_zero_iff)
      have IH: "expandRanges l (ackRangesLoop S l (n + 1)) \<subseteq> S \<inter> {..<l}"
        "n + 1 + length (ackRangesLoop S l (n + 1)) < 255 \<Longrightarrow>
          expandRanges l (ackRangesLoop S l (n + 1)) = S \<inter> {..<l}"
        using 1 [OF 4(1,2) g_def g0 refl l_def r_def False] step(3) by blast+
      define X where "X = (if l = 0 then {} else expandRanges l (ackRangesLoop S l (n + 1)))"
      have ex: "expandRanges p (ackRangesLoop S p n) = {l..g - 1} \<union> X"
        using False by (simp only: unf step(4) X_def if_False)
      have "X \<subseteq> S \<inter> {..<l}" using IH(1) by (simp add: X_def)
      then have sub: "{l..g - 1} \<union> X \<subseteq> S \<inter> {..<p}" unfolding step(2) by (rule Un_mono [OF order_refl])
      have "X = S \<inter> {..<l}" if "n + length (ackRangesLoop S p n) < 255"
        using IH(2) that False by (cases "l = 0") (simp_all add: X_def unf below_zero)
      then have "{l..g - 1} \<union> X = S \<inter> {..<p}" if "n + length (ackRangesLoop S p n) < 255"
        using that by (simp only: step(2))
      with sub show ?thesis unfolding ex by iprover
    qed
  qed (simp_all add: ackRangesLoop.simps below_zero)
qed

lemma ackedNumbers_build:
  assumes fin: "S \<noteq> {}" and empty: "ackRanges f = []" and L: "Max S \<le> sent"
    and fr: "fr = quicBuildAckFrame S f"
  shows "largestAcknowledged fr = Max S" "ackedNumbers (min (largestAcknowledged fr) sent) fr \<subseteq> S"
    and "length (ackRanges fr) < 255 \<Longrightarrow> ackedNumbers (min (largestAcknowledged fr) sent) fr = S"
proof -
  have finS: "finite S" by simp
  define M where "M = Max S"
  define l where "l = runLow S M"
  have M: "M \<in> S" "\<And>x. x \<in> S \<Longrightarrow> x \<le> M" using finS fin by (simp_all add: M_def)
  have le: "l \<le> M" using runLow_le by (simp add: l_def)
  have below: "{l..<M} \<subseteq> S" and bot: "l = 0 \<or> l - 1 \<notin> S"
    using runLow_spec [of S M, folded l_def] by blast+
  have "x \<in> S" if "l \<le> x" "x \<le> M" for x
    using that below M(1) by (cases "x = M") auto
  then have sub: "{l..M} \<subseteq> S" by auto
  have S: "S = {l..M} \<union> S \<inter> {..<l}"
  proof (rule equalityI)
    show "S \<subseteq> {l..M} \<union> S \<inter> {..<l}" using M(2) by (auto simp: not_less)
    show "{l..M} \<union> S \<inter> {..<l} \<subseteq> S" using sub by blast
  qed
  have frf: "largestAcknowledged fr = M" "firstAckRange fr = M - l" "ackRanges fr = ackRangesLoop S l 0"
    using fin empty by (simp_all add: fr quicBuildAckFrame_def Let_def M_def l_def)
  then show "largestAcknowledged fr = Max S" by (simp add: M_def)
  have d: "M - l \<le> M" using le by (rule word_sub_le)
  have mn: "min (M - l) M = M - l" by (rule min_absorb1 [OF d])
  have "M - (M - l) = l" by simp
  then have "ackSpan M (M - l) = {l..M}" using ackSpan_interval [OF d] by (simp only:)
  then have eq: "ackedNumbers (min (largestAcknowledged fr) sent) fr = {l..M} \<union> expandRanges l (ackRangesLoop S l 0)"
    using L by (simp add: ackedNumbers_def frf mn Let_def M_def [symmetric] min_absorb1)
  show "ackedNumbers (min (largestAcknowledged fr) sent) fr \<subseteq> S"
    unfolding eq using expandRanges_loop [of l S 0] sub by blast
  show "ackedNumbers (min (largestAcknowledged fr) sent) fr = S" if "length (ackRanges fr) < 255"
  proof -
    have "expandRanges l (ackRangesLoop S l 0) = S \<inter> {..<l}"
      using expandRanges_loop [of l S 0] bot that by (simp add: frf)
    then show ?thesis unfolding eq by (simp only: S [symmetric])
  qed
qed

section \<open>Closed forms of the loops\<close>

abbreviation flightSize :: "QuicSentPacket \<Rightarrow> nat" where
  "flightSize p \<equiv> (if inFlight p then length (sp_raw p) else 0)"

definition flight :: "sent \<Rightarrow> nat" where
  "flight m = (\<Sum>e\<leftarrow>m. flightSize (snd e))"

lemma flight_simps [simp]:
  "flight [] = 0"
  "flight (e # m) = flightSize (snd e) + flight m"
  by (simp_all add: flight_def)

definition markLost :: "(u64 \<Rightarrow> bool) \<Rightarrow> sent \<Rightarrow> sent" where
  "markLost lost m = map (\<lambda>e. if inFlight (snd e) \<and> lost (fst e)
     then (fst e, (snd e)\<lparr> inFlight := False \<rparr>) else e) m"

definition lostOf :: "(u64 \<Rightarrow> bool) \<Rightarrow> sent \<Rightarrow> QuicSentPacket list" where
  "lostOf lost m = map (\<lambda>e. (snd e)\<lparr> inFlight := False \<rparr>)
     (filter (\<lambda>e. inFlight (snd e) \<and> lost (fst e)) m)"

lemma min_diff: "b - (min b x + y) = b - (x + y)" "b - min b x = b - x" for b x y :: nat
  by (simp_all add: min_def)

lemma detectLoop_form:
  fixes acked newestPn newestTime delay nowUs :: u64
  defines "lost \<equiv> isLost acked newestPn newestTime delay nowUs"
  shows "\<exists>e'. detectLoop acked newestPn newestTime delay nowUs m b e
     = (markLost lost m, b - (\<Sum>p\<leftarrow>lostOf lost m. length (sp_raw p)), e', lostOf lost m)"
proof (induction m arbitrary: b e)
  case Nil
  then show ?case by (simp add: markLost_def lostOf_def)
next
  case (Cons kp m)
  obtain k p where kp: "kp = (k, p)" by force
  consider "\<not> inFlight p" | "inFlight p" "lost k" | "inFlight p" "\<not> lost k" by blast
  then show ?case
  proof cases
    case 1
    obtain e' where "detectLoop acked newestPn newestTime delay nowUs m b e
      = (markLost lost m, b - (\<Sum>p\<leftarrow>lostOf lost m. length (sp_raw p)), e', lostOf lost m)"
      using Cons by blast
    then show ?thesis using 1 by (simp add: kp markLost_def lostOf_def)
  next
    case 2
    obtain e' where "detectLoop acked newestPn newestTime delay nowUs m (b - min b (length (sp_raw p))) e
      = (markLost lost m, b - min b (length (sp_raw p)) - (\<Sum>p\<leftarrow>lostOf lost m. length (sp_raw p)), e', lostOf lost m)"
      using Cons by blast
    then show ?thesis using 2 by (simp add: kp markLost_def lostOf_def lost_def min_diff Let_def)
  next
    case 3
    define e2 where "e2 = (if delay > 0 \<and> newestTime > 0 \<and> newestPn > 0
      \<and> newestTime + delay > nowUs \<and> (e = 0 \<or> newestTime + delay < e) then newestTime + delay else e)"
    obtain e' where "detectLoop acked newestPn newestTime delay nowUs m b e2
      = (markLost lost m, b - (\<Sum>p\<leftarrow>lostOf lost m. length (sp_raw p)), e', lostOf lost m)"
      using Cons by blast
    then show ?thesis
      using 3 unfolding kp detectLoop.simps Let_def e2_def [symmetric]
      by (simp add: markLost_def lostOf_def lost_def)
  qed
qed

lemma flight_markLost:
  "flight m = flight (markLost lost m) + (\<Sum>p\<leftarrow>lostOf lost m. length (sp_raw p))"
  by (induction m) (auto simp: markLost_def lostOf_def)

lemma markLost_keys [simp]: "map fst (markLost lost m) = map fst m"
  by (simp add: markLost_def)

lemma markLost_wf [simp]: "smap_wf (markLost lost m) = smap_wf m"
  by (simp add: smap_wf_def)

lemma ackPackets_form:
  assumes "smap_wf m" "distinct ns"
  shows "ackPackets ns m b = (filter (\<lambda>e. fst e \<notin> set ns) m,
    b - (\<Sum>n\<leftarrow>ns. case map_of m n of None \<Rightarrow> 0 | Some p \<Rightarrow> flightSize p),
    map (\<lambda>p. p\<lparr> inFlight := False \<rparr>) (List.map_filter (map_of m) ns))"
  using assms
proof (induction ns arbitrary: m b)
  case Nil
  then show ?case by (simp add: List.map_filter_simps)
next
  case (Cons n ns)
  show ?case
  proof (cases "map_of m n")
    case None
    then have "filter (\<lambda>e. fst e \<notin> set (n # ns)) m = filter (\<lambda>e. fst e \<notin> set ns) m"
      by (auto simp: map_of_eq_None_iff intro!: filter_cong)
    then show ?thesis using Cons None by (simp add: List.map_filter_simps)
  next
    case (Some p)
    have same: "map_of (smap_erase n m) n' = map_of m n'" if "n' \<in> set ns" for n'
      using that Cons.prems by auto
    have "(\<Sum>n'\<leftarrow>ns. case map_of (smap_erase n m) n' of None \<Rightarrow> 0 | Some p \<Rightarrow> flightSize p)
      = (\<Sum>n'\<leftarrow>ns. case map_of m n' of None \<Rightarrow> 0 | Some p \<Rightarrow> flightSize p)"
      using same by (intro arg_cong [where f = sum_list] map_cong) auto
    moreover have "List.map_filter (map_of (smap_erase n m)) ns = List.map_filter (map_of m) ns"
      unfolding List.map_filter_def using same by (intro map_cong filter_cong arg_cong2 [where f = map]) auto
    moreover have "filter (\<lambda>e. fst e \<notin> set ns) (smap_erase n m) = filter (\<lambda>e. fst e \<notin> set (n # ns)) m"
      by (auto simp: smap_erase_def intro!: filter_cong)
    ultimately show ?thesis
      using Cons Some by (simp add: List.map_filter_simps smap_erase_wf min_diff)
  qed
qed

lemma flight_ack:
  assumes "smap_wf m" "distinct ns"
  shows "flight m = flight (filter (\<lambda>e. fst e \<notin> set ns) m)
    + (\<Sum>n\<leftarrow>ns. case map_of m n of None \<Rightarrow> 0 | Some p \<Rightarrow> flightSize p)"
  using assms
proof (induction ns arbitrary: m)
  case (Cons n ns)
  have f: "filter (\<lambda>e. fst e \<notin> set ns) (smap_erase n m) = filter (\<lambda>e. fst e \<notin> set (n # ns)) m"
    by (auto simp: smap_erase_def intro!: filter_cong)
  have "(\<Sum>n'\<leftarrow>ns. case map_of (smap_erase n m) n' of None \<Rightarrow> 0 | Some p \<Rightarrow> flightSize p)
    = (\<Sum>n'\<leftarrow>ns. case map_of m n' of None \<Rightarrow> 0 | Some p \<Rightarrow> flightSize p)"
    using Cons.prems by (intro arg_cong [where f = sum_list] map_cong) auto
  then have "flight (smap_erase n m) = flight (filter (\<lambda>e. fst e \<notin> set (n # ns)) m)
    + (\<Sum>n'\<leftarrow>ns. case map_of m n' of None \<Rightarrow> 0 | Some p \<Rightarrow> flightSize p)"
    using Cons.IH [of "smap_erase n m"] Cons.prems f by (simp add: smap_erase_wf)
  moreover have "flight m = (case map_of m n of None \<Rightarrow> 0 | Some p \<Rightarrow> flightSize p) + flight (smap_erase n m)"
    using Cons.prems sum_smap_erase [of m n _ flightSize]
    by (cases "map_of m n") (auto simp: flight_def smap_erase_absent)
  ultimately show ?case by simp
qed simp

section \<open>The bookkeeping invariant\<close>

abbreviation totalFlight :: "(QuicPacketNumberSpace \<Rightarrow> sent) \<Rightarrow> nat" where
  "totalFlight m \<equiv> flight (m QuicPnInitial) + flight (m QuicPnHandshake) + flight (m QuicPnApplication)"

definition recoveryInv :: "QuicLossRecovery \<Rightarrow> bool" where
  "recoveryInv s \<longleftrightarrow>
     m_bytesInFlight s = totalFlight (m_sent s)
     \<and> (\<forall>sp. smap_wf (m_sent s sp))
     \<and> (\<forall>sp. \<forall>e \<in> set (m_sent s sp). sp_pn (snd e) = fst e \<and> sp_space (snd e) = sp
           \<and> fst e \<le> m_largestSent s sp)
     \<and> (\<forall>sp. m_largestAcked s sp \<le> m_largestSent s sp)"

lemma bytesInFlight_flight: "bytesInFlight s sp = flight (m_sent s sp)"
  by (simp add: bytesInFlight_def flight_def)

lemma totalFlight_upd:
  "totalFlight (m(sp := x)) + flight (m sp) = totalFlight m + flight x"
  by (cases sp) simp_all

lemma flight_le_total: "flight (m sp) \<le> totalFlight m"
  by (cases sp) simp_all

lemma recoveryInv_init: "recoveryInv initRecovery"
  by (simp add: recoveryInv_def initRecovery_def)

lemma onPacketSent_fields:
  "m_sent (onPacketSent s pkt) = (m_sent s)(sp_space pkt := smap_put (sp_pn pkt) pkt (m_sent s (sp_space pkt)))"
  "m_largestSent (onPacketSent s pkt)
    = (m_largestSent s)(sp_space pkt := max (m_largestSent s (sp_space pkt)) (sp_pn pkt))"
  "m_largestAcked (onPacketSent s pkt) = m_largestAcked s"
  "m_bytesInFlight (onPacketSent s pkt) = m_bytesInFlight s + flightSize pkt"
  by (auto simp: onPacketSent_def Let_def max_def fun_eq_iff)

lemma recoveryInv_sent:
  assumes "recoveryInv s" "sp_pn pkt \<notin> fst ` set (m_sent s (sp_space pkt))"
  shows "recoveryInv (onPacketSent s pkt)"
proof -
  define sp where "sp = sp_space pkt"
  define m where "m = smap_put (sp_pn pkt) pkt (m_sent s sp)"
  have wf: "smap_wf (m_sent s sp)" using assms by (simp add: recoveryInv_def)
  have "flight m = flightSize pkt + flight (m_sent s sp)"
    unfolding flight_def m_def using assms(2) by (intro sum_smap_put) (simp add: sp_def)
  then have "totalFlight ((m_sent s)(sp := m)) = flightSize pkt + totalFlight (m_sent s)"
    using totalFlight_upd [of "m_sent s" sp m] by linarith
  then have bytes: "m_bytesInFlight (onPacketSent s pkt) = totalFlight (m_sent (onPacketSent s pkt))"
    using assms(1) by (simp add: onPacketSent_fields recoveryInv_def sp_def m_def)
  have new: "e = (sp_pn pkt, pkt) \<or> e \<in> set (m_sent s sp)" if "e \<in> set m" for e
  proof -
    have "map_of m (fst e) = Some (snd e)"
      using that smap_put_wf [OF wf] by (simp add: m_def smap_wf_distinct)
    then show ?thesis using wf by (cases e) (auto simp: m_def split: if_splits dest: map_of_SomeD)
  qed
  have old: "sp_pn (snd e) = fst e" "sp_space (snd e) = sp'" "fst e \<le> m_largestSent s sp'"
    if "e \<in> set (m_sent s sp')" for e sp'
    using assms(1) that unfolding recoveryInv_def by blast+
  have "smap_wf m" using wf by (auto simp: m_def)
  then have wfs: "\<forall>sp'. smap_wf (m_sent (onPacketSent s pkt) sp')"
    using assms(1) by (simp add: onPacketSent_fields recoveryInv_def sp_def [symmetric] m_def)
  have entries: "\<forall>e \<in> set (m_sent (onPacketSent s pkt) sp'). sp_pn (snd e) = fst e \<and> sp_space (snd e) = sp'
      \<and> fst e \<le> m_largestSent (onPacketSent s pkt) sp'" for sp'
  proof
    fix e assume "e \<in> set (m_sent (onPacketSent s pkt) sp')"
    then consider "sp' = sp" "e = (sp_pn pkt, pkt)" | "e \<in> set (m_sent s sp')"
      using new [of e] by (cases "sp' = sp") (auto simp: onPacketSent_fields m_def sp_def)
    then show "sp_pn (snd e) = fst e \<and> sp_space (snd e) = sp' \<and> fst e \<le> m_largestSent (onPacketSent s pkt) sp'"
      by cases (use old [of e sp'] in \<open>auto simp: onPacketSent_fields sp_def max_def intro: order_trans\<close>)
  qed
  have "\<forall>sp'. m_largestAcked (onPacketSent s pkt) sp' \<le> m_largestSent (onPacketSent s pkt) sp'"
    using assms(1) by (auto simp: onPacketSent_fields recoveryInv_def max_def intro: order_trans)
  then show ?thesis using bytes wfs entries unfolding recoveryInv_def by blast
qed

text \<open>The loss test of one run of the detector.\<close>

definition lossTest :: "QuicLossRecovery \<Rightarrow> QuicPacketNumberSpace \<Rightarrow> u64 \<Rightarrow> u64 \<Rightarrow> bool" where
  "lossTest s sp nowUs = isLost (m_largestAcked s sp) (fst (newestInFlight (m_sent s sp)))
     (snd (newestInFlight (m_sent s sp))) (lossDelay (m_rtt s)) nowUs"

lemma detectLostPackets_form:
  "\<exists>e. detectLostPackets s sp nowUs
    = (s\<lparr> m_sent := (m_sent s)(sp := markLost (lossTest s sp nowUs) (m_sent s sp)),
         m_bytesInFlight := m_bytesInFlight s
           - (\<Sum>p\<leftarrow>lostOf (lossTest s sp nowUs) (m_sent s sp). length (sp_raw p)),
         m_earliestLostTimeUs := (m_earliestLostTimeUs s)(sp := e) \<rparr>,
       lostOf (lossTest s sp nowUs) (m_sent s sp))"
proof -
  obtain n t where nt: "newestInFlight (m_sent s sp) = (n, t)" by force
  obtain e where "detectLoop (m_largestAcked s sp) n t (lossDelay (m_rtt s)) nowUs (m_sent s sp) (m_bytesInFlight s) 0
    = (markLost (lossTest s sp nowUs) (m_sent s sp),
       m_bytesInFlight s - (\<Sum>p\<leftarrow>lostOf (lossTest s sp nowUs) (m_sent s sp). length (sp_raw p)), e,
       lostOf (lossTest s sp nowUs) (m_sent s sp))"
    using detectLoop_form unfolding lossTest_def nt fst_conv snd_conv by blast
  then show ?thesis by (auto simp: detectLostPackets_def nt)
qed

lemma recoveryInv_replace:
  assumes inv: "recoveryInv s"
    and m: "smap_wf m" "\<forall>e \<in> set m. \<exists>e' \<in> set (m_sent s sp). fst e' = fst e
      \<and> sp_pn (snd e') = sp_pn (snd e) \<and> sp_space (snd e') = sp_space (snd e)"
    and out: "flight (m_sent s sp) = flight m + gone"
    and s': "m_sent s' = (m_sent s)(sp := m)" "m_bytesInFlight s' = m_bytesInFlight s - gone"
      "m_largestSent s' = m_largestSent s" "\<forall>sp. m_largestAcked s' sp \<le> m_largestSent s sp"
  shows "recoveryInv s'"
proof -
  have "totalFlight ((m_sent s)(sp := m)) + flight (m_sent s sp) = totalFlight (m_sent s) + flight m"
    by (rule totalFlight_upd)
  then have "m_bytesInFlight s' = totalFlight (m_sent s')"
    using inv out unfolding recoveryInv_def s' by linarith
  moreover have "\<forall>sp'. smap_wf (m_sent s' sp')" using inv m by (simp add: recoveryInv_def s')
  moreover have "sp_pn (snd e) = fst e \<and> sp_space (snd e) = sp' \<and> fst e \<le> m_largestSent s' sp'"
    if e: "e \<in> set (m_sent s' sp')" for e sp'
  proof -
    obtain e' where e': "e' \<in> set (m_sent s sp')" "fst e' = fst e" "sp_pn (snd e') = sp_pn (snd e)"
      "sp_space (snd e') = sp_space (snd e)"
      using e m by (cases "sp' = sp") (auto simp: s')
    then have "sp_pn (snd e') = fst e'" "sp_space (snd e') = sp'" "fst e' \<le> m_largestSent s sp'"
      using inv unfolding recoveryInv_def by blast+
    with e' show ?thesis by (simp add: s')
  qed
  ultimately show ?thesis using s' unfolding recoveryInv_def by auto
qed

lemma recoveryInv_detect:
  assumes "recoveryInv s" shows "recoveryInv (fst (detectLostPackets s sp nowUs))"
proof -
  obtain e where form: "fst (detectLostPackets s sp nowUs)
    = s\<lparr> m_sent := (m_sent s)(sp := markLost (lossTest s sp nowUs) (m_sent s sp)),
         m_bytesInFlight := m_bytesInFlight s
           - (\<Sum>p\<leftarrow>lostOf (lossTest s sp nowUs) (m_sent s sp). length (sp_raw p)),
         m_earliestLostTimeUs := (m_earliestLostTimeUs s)(sp := e) \<rparr>"
    using detectLostPackets_form by (metis fst_conv)
  show ?thesis
  proof (rule recoveryInv_replace [OF assms])
    show "flight (m_sent s sp) = flight (markLost (lossTest s sp nowUs) (m_sent s sp))
      + (\<Sum>p\<leftarrow>lostOf (lossTest s sp nowUs) (m_sent s sp). length (sp_raw p))"
      by (rule flight_markLost)
    show "\<forall>e \<in> set (markLost (lossTest s sp nowUs) (m_sent s sp)). \<exists>e' \<in> set (m_sent s sp). fst e' = fst e
      \<and> sp_pn (snd e') = sp_pn (snd e) \<and> sp_space (snd e') = sp_space (snd e)"
      by (force simp: markLost_def)
  qed (use assms in \<open>simp_all add: form recoveryInv_def\<close>)
qed

section \<open>Processing an ACK keeps the books\<close>

lemma map_filter_sorted:
  assumes "smap_wf m" "finite A"
  shows "List.map_filter (map_of m) (sorted_list_of_set A) = map snd (filter (\<lambda>e. fst e \<in> A) m)"
proof -
  define K where "K = filter (\<lambda>n. map_of m n \<noteq> None) (sorted_list_of_set A)"
  define F where "F = filter (\<lambda>e. fst e \<in> A) m"
  have F: "sorted_wrt (<) (map fst F)"
    using assms(1) unfolding smap_wf_def F_def by (simp add: sorted_wrt_map sorted_wrt_filter)
  have "K = map fst F"
  proof (rule sorted_distinct_set_unique)
    show "sorted K" "distinct K" by (simp_all add: K_def sorted_wrt_filter)
    show "sorted (map fst F)" "distinct (map fst F)" using F by (simp_all add: strict_sorted_iff)
    show "set K = set (map fst F)"
      using assms by (auto simp: K_def F_def map_of_eq_None_iff image_iff)
  qed
  moreover have "List.map_filter (map_of m) (sorted_list_of_set A) = map (\<lambda>n. the (map_of m n)) K"
    by (simp add: List.map_filter_def K_def comp_def)
  moreover have "the (map_of m (fst e)) = snd e" if "e \<in> set F" for e
  proof -
    have "(fst e, snd e) \<in> set m" using that by (simp add: F_def)
    then have "map_of m (fst e) = Some (snd e)"
      using smap_wf_distinct [OF assms(1)] by (intro map_of_is_SomeI)
    then show ?thesis by simp
  qed
  ultimately show ?thesis by (auto simp: F_def [symmetric])
qed

text \<open>The state in which the detector runs.\<close>

definition ackedState :: "QuicLossRecovery \<Rightarrow> QuicPacketNumberSpace \<Rightarrow> QuicFrame \<Rightarrow> u64 \<Rightarrow> QuicLossRecovery" where
  "ackedState s sp ack nowUs =
     (let largest = min (largestAcknowledged ack) (m_largestSent s sp);
          A = ackedNumbers largest ack
      in (sampleRtt s sp largest (ackDelay ack) nowUs)
        \<lparr> m_sent := (m_sent s)(sp := filter (\<lambda>e. fst e \<notin> A) (m_sent s sp)),
          m_bytesInFlight := m_bytesInFlight s - flight (filter (\<lambda>e. fst e \<in> A) (m_sent s sp)),
          m_largestAcked := (m_largestAcked s)(sp := max (m_largestAcked s sp) largest) \<rparr>)"

lemma sampleRtt_fields [simp]:
  "m_sent (sampleRtt s sp l d t) = m_sent s" "m_bytesInFlight (sampleRtt s sp l d t) = m_bytesInFlight s"
  "m_largestAcked (sampleRtt s sp l d t) = m_largestAcked s" "m_largestSent (sampleRtt s sp l d t) = m_largestSent s"
  by (simp_all add: sampleRtt_def split: option.splits)

lemma flight_partition: "flight m = flight (filter (\<lambda>e. \<not> P e) m) + flight (filter P m)"
  by (induction m) auto

lemma onAckReceived_form:
  assumes inv: "recoveryInv s"
    and L: "L = min (largestAcknowledged ack) (m_largestSent s sp)" and A: "A = ackedNumbers L ack"
  shows "onAckReceived s sp ack nowUs =
    (fst (detectLostPackets (ackedState s sp ack nowUs) sp nowUs),
     map (\<lambda>e. (snd e)\<lparr> inFlight := False \<rparr>) (filter (\<lambda>e. fst e \<in> A) (m_sent s sp)),
     map sp_raw (snd (detectLostPackets (ackedState s sp ack nowUs) sp nowUs)))"
proof -
  define m where "m = m_sent s sp"
  define s1 where "s1 = sampleRtt s sp L (ackDelay ack) nowUs"
  have wf: "smap_wf m" and pn: "\<And>e. e \<in> set m \<Longrightarrow> sp_pn (snd e) = fst e"
    using inv by (simp_all add: recoveryInv_def m_def)
  have fin: "finite A" by simp
  define ns where "ns = sorted_list_of_set A"
  have ns: "distinct ns" "set ns = A" using fin by (simp_all add: ns_def)
  have gone: "(\<Sum>n\<leftarrow>ns. case map_of m n of None \<Rightarrow> 0 | Some p \<Rightarrow> flightSize p) = flight (filter (\<lambda>e. fst e \<in> A) m)"
    using flight_ack [OF wf ns(1)] flight_partition [of m "\<lambda>e. fst e \<in> A"] by (simp add: ns(2))
  define newly where "newly = map (\<lambda>e. (snd e)\<lparr> inFlight := False \<rparr>) (filter (\<lambda>e. fst e \<in> A) m)"
  have loop: "ackPackets ns m (m_bytesInFlight s) = (filter (\<lambda>e. fst e \<notin> A) m,
      m_bytesInFlight s - flight (filter (\<lambda>e. fst e \<in> A) m), newly)"
    using ackPackets_form [OF wf ns(1)] gone map_filter_sorted [OF wf fin]
    by (simp add: ns(2) newly_def ns_def [symmetric])
  have "map sp_pn newly = map fst (filter (\<lambda>e. fst e \<in> A) m)"
    using pn by (auto simp: newly_def)
  moreover have "sorted (map fst (filter (\<lambda>e. fst e \<in> A) m))"
    using wf unfolding smap_wf_def by (simp add: strict_sorted_iff sorted_filter)
  ultimately have srt: "sort_key sp_pn newly = newly" by (simp add: sort_key_id_if_sorted)
  have st: "(let s2 = s1\<lparr> m_sent := (m_sent s1)(sp := filter (\<lambda>e. fst e \<notin> A) m),
        m_bytesInFlight := m_bytesInFlight s - flight (filter (\<lambda>e. fst e \<in> A) m) \<rparr>
      in if L > m_largestAcked s2 sp then s2\<lparr> m_largestAcked := (m_largestAcked s2)(sp := L) \<rparr> else s2)
    = ackedState s sp ack nowUs"
    by (auto simp: ackedState_def Let_def L [symmetric] A [symmetric] s1_def m_def max_def
        intro!: QuicLossRecovery.equality)
  have s1: "m_sent s1 = m_sent s" "m_bytesInFlight s1 = m_bytesInFlight s" by (simp_all add: s1_def)
  show ?thesis
    unfolding onAckReceived_def L [symmetric] A [symmetric] Let_def s1_def [symmetric] ns_def [symmetric]
      s1 m_def [symmetric] loop prod.case st [unfolded Let_def s1] srt newly_def [symmetric]
    by (simp only: case_prod_beta)
qed

lemma ackedNumbers_le: "x \<in> ackedNumbers L ack \<Longrightarrow> x \<le> L"
proof -
  have span: "x \<in> ackSpan h l \<Longrightarrow> l \<le> h \<Longrightarrow> x \<le> h" for x h l
    by (simp add: ackSpan_interval)
  have "x \<in> expandRanges c rs \<Longrightarrow> x \<le> c" for x c rs
  proof (induction c rs rule: expandRanges.induct)
    case (2 c r rs)
    show ?case
    proof (cases "gap r + 2 > c")
      case False
      define d where "d = c - (gap r + 2)"
      define l where "l = min (ackRangeLength r) d"
      have dc: "d \<le> c" using False by (simp add: d_def word_sub_le)
      have ld: "l \<le> d" by (simp add: l_def)
      have nd: "d - l \<le> d" using ld by (rule word_sub_le)
      have "x \<in> ackSpan d l \<or> (d - l \<noteq> 0 \<and> x \<in> expandRanges (d - l) rs)"
        using 2(2) False by (auto simp: d_def l_def Let_def split: if_splits)
      then have "x \<le> d" using 2(1) [OF False d_def l_def refl] span ld nd by (blast intro: order_trans)
      then show ?thesis using dc by (rule order_trans)
    qed (use 2 in simp)
  qed simp
  moreover have "min (firstAckRange ack) L \<le> L" by simp
  ultimately show "x \<in> ackedNumbers L ack \<Longrightarrow> x \<le> L"
    using span [of x L "min (firstAckRange ack) L"] word_sub_le [of "min (firstAckRange ack) L" L]
    unfolding ackedNumbers_def Let_def by (blast intro: order_trans)
qed

lemma recoveryInv_acked:
  assumes "recoveryInv s" shows "recoveryInv (ackedState s sp ack nowUs)"
proof (rule recoveryInv_replace [OF assms])
  define A where "A = ackedNumbers (min (largestAcknowledged ack) (m_largestSent s sp)) ack"
  have "smap_wf (m_sent s sp)" using assms by (simp add: recoveryInv_def)
  then show "smap_wf (filter (\<lambda>e. fst e \<notin> A) (m_sent s sp))"
    unfolding smap_wf_def by (simp add: sorted_wrt_map sorted_wrt_filter)
  show "flight (m_sent s sp) = flight (filter (\<lambda>e. fst e \<notin> A) (m_sent s sp))
    + flight (filter (\<lambda>e. fst e \<in> A) (m_sent s sp))"
    by (rule flight_partition)
  show "m_sent (ackedState s sp ack nowUs) = (m_sent s)(sp := filter (\<lambda>e. fst e \<notin> A) (m_sent s sp))"
    "m_bytesInFlight (ackedState s sp ack nowUs) = m_bytesInFlight s - flight (filter (\<lambda>e. fst e \<in> A) (m_sent s sp))"
    "m_largestSent (ackedState s sp ack nowUs) = m_largestSent s"
    by (simp_all add: ackedState_def Let_def A_def)
  show "\<forall>sp'. m_largestAcked (ackedState s sp ack nowUs) sp' \<le> m_largestSent s sp'"
    using assms by (simp add: ackedState_def Let_def recoveryInv_def)
qed force

lemma recoveryInv_other:
  assumes "recoveryInv s" "m_sent s' = m_sent s" "m_bytesInFlight s' = m_bytesInFlight s"
    "m_largestSent s' = m_largestSent s" "m_largestAcked s' = m_largestAcked s"
  shows "recoveryInv s'"
  using assms by (simp add: recoveryInv_def)

text \<open>
  Every history of a recovery object: packets sent under fresh numbers, ACKs, alarms and
  timer operations in any order.
\<close>

inductive recovery :: "QuicLossRecovery \<Rightarrow> bool" where
  recovery_init: "recovery initRecovery"
| recovery_sent: "recovery s \<Longrightarrow> sp_pn pkt \<notin> fst ` set (m_sent s (sp_space pkt)) \<Longrightarrow>
    recovery (onPacketSent s pkt)"
| recovery_ack: "recovery s \<Longrightarrow> recovery (fst (onAckReceived s sp ack nowUs))"
| recovery_alarm: "recovery s \<Longrightarrow> recovery (fst (detectLostOnAlarm s sp nowUs))"
| recovery_pto: "recovery s \<Longrightarrow> recovery (onPtoExpired s sp)"
| recovery_reset: "recovery s \<Longrightarrow> recovery (resetPtoCounters s)"

lemma recovery_inv: "recovery s \<Longrightarrow> recoveryInv s"
proof (induction rule: recovery.induct)
  case (recovery_ack s sp ack nowUs)
  then show ?case
    using onAckReceived_form [OF recovery_ack(2) refl refl] recoveryInv_acked recoveryInv_detect by simp
next
  case (recovery_alarm s sp nowUs)
  show ?case
    by (rule recoveryInv_other [OF recoveryInv_detect [OF recovery_alarm(2), of sp nowUs]])
      (simp_all add: detectLostOnAlarm_def case_prod_beta)
qed (auto simp: recoveryInv_init recoveryInv_sent onPtoExpired_def resetPtoCounters_def
    intro: recoveryInv_other)

lemma ack_detect_keys:
  "m_sent (fst (detectLostPackets s sp nowUs)) sp = markLost (lossTest s sp nowUs) (m_sent s sp)"
  "sp' \<noteq> sp \<Longrightarrow> m_sent (fst (detectLostPackets s sp nowUs)) sp' = m_sent s sp'"
  "m_largestAcked (fst (detectLostPackets s sp nowUs)) = m_largestAcked s"
  "snd (detectLostPackets s sp nowUs) = lostOf (lossTest s sp nowUs) (m_sent s sp)"
  using detectLostPackets_form [of s sp nowUs] by auto

section \<open>Round-trip time arithmetic\<close>

lemma unat_mult_small: "unat a * unat b < 2 ^ 64 \<Longrightarrow> unat (a * b) = unat a * unat b" for a b :: u64
  by (simp add: unat_word_ariths)

lemma smoothed_mean:
  assumes "unat s < 2 ^ 60" "unat l < 2 ^ 60"
  shows "8 * unat (7 * s div 8 + l div 8 :: u64) \<le> 7 * unat s + unat l"
    and "7 * unat s + unat l < 8 * unat (7 * s div 8 + l div 8 :: u64) + 16"
proof -
  have "unat (7 * s) = 7 * unat s" using assms by (subst unat_mult_small) simp_all
  then have "unat (7 * s div 8) = 7 * unat s div 8" by (simp add: unat_div)
  moreover have "unat (l div 8) = unat l div 8" by (simp add: unat_div)
  ultimately have "unat (7 * s div 8 + l div 8) = 7 * unat s div 8 + unat l div 8"
    using assms by (subst unat_add_u64) simp_all
  then show "8 * unat (7 * s div 8 + l div 8 :: u64) \<le> 7 * unat s + unat l"
    "7 * unat s + unat l < 8 * unat (7 * s div 8 + l div 8 :: u64) + 16"
    by presburger+
qed

text \<open>Five packets of 10 bytes, and an ACK of the last.\<close>

definition samplePacket :: "u64 \<Rightarrow> QuicSentPacket" where
  "samplePacket n = \<lparr> sp_pn = n, sp_space = QuicPnApplication, sp_raw = replicate 10 0, ackEliciting = True,
     inFlight = True, timeSentUs = 1000 * n \<rparr>"

definition sampleRecovery :: QuicLossRecovery where
  "sampleRecovery = foldl onPacketSent initRecovery (map samplePacket [1, 2, 3, 4, 5])"

definition sampleAck :: QuicFrame where
  "sampleAck = emptyFrame\<lparr> fr_type := Ack, largestAcknowledged := 5 \<rparr>"

lemma sampleRecovery_sent:
  "m_sent sampleRecovery QuicPnApplication = map (\<lambda>n. (n, samplePacket n)) [1, 2, 3, 4, 5]"
  "m_largestSent sampleRecovery QuicPnApplication = 5"
  "m_bytesInFlight sampleRecovery = 50"
  by (simp_all add: sampleRecovery_def onPacketSent_fields initRecovery_def samplePacket_def)

lemma sampleRecovery_reachable: "recovery sampleRecovery"
  unfolding sampleRecovery_def list.map foldl.simps
  by (intro recovery.intros) (simp_all add: onPacketSent_fields initRecovery_def samplePacket_def)

section \<open>Properties\<close>

text \<open>
  C5.  An ACK frame says what was received: expanding the frame that \<open>quicBuildAckFrame\<close>
  builds from a set of packet numbers, the way \<open>onAckReceived\<close> does, acknowledges no number
  outside the set, and gives back exactly the set whenever the frame has room for all its
  ranges (fewer than 255 gaps).
\<close>

theorem ack_frame_roundtrip:
  assumes "S \<noteq> {}" "Max S \<le> largestSent" "fr = quicBuildAckFrame S emptyFrame"
  shows "ackedNumbers (min (largestAcknowledged fr) largestSent) fr \<subseteq> S
    \<and> (length (ackRanges fr) < 255 \<longrightarrow> ackedNumbers (min (largestAcknowledged fr) largestSent) fr = S)"
  using ackedNumbers_build [OF assms(1) _ assms(2,3)] by (simp add: emptyFrame_def)

theorem ack_frame_roundtrip_witness:
  "ackedNumbers 9 (quicBuildAckFrame {2, 3, 7, 9} emptyFrame) = {2, 3, 7, 9}"
proof -
  define fr where "fr = quicBuildAckFrame {2, 3, 7, 9} emptyFrame"
  have mx: "Max {2, 3, 7, 9 :: u64} = 9" by simp
  have "fr = emptyFrame\<lparr> fr_type := Ack, largestAcknowledged := 9, firstAckRange := 0,
    ackRanges := [\<lparr> gap = 0, ackRangeLength = 0 \<rparr>, \<lparr> gap = 2, ackRangeLength = 1 \<rparr>] \<rparr>"
    by (simp add: fr_def quicBuildAckFrame_def mx runLow.simps ackRangesLoop.simps gapLow.simps emptyFrame_def Let_def)
  then show ?thesis
    using ack_frame_roundtrip [OF _ _ fr_def, of 9] by (simp add: fr_def mx)
qed

text \<open>
  C3.  Bookkeeping of the loss recovery: in every history of sends under fresh packet numbers,
  ACKs (with arbitrary, even hostile, contents), alarms and timer operations, the
  running counter \<open>m_bytesInFlight\<close> is the sum of the per-space totals recomputed from the
  sent packets, the packets are filed under their own numbers in increasing order, none
  above the largest sent, and no number above the largest sent counts as acknowledged.
\<close>

theorem recovery_books_balance:
  assumes "recovery s"
  shows "m_bytesInFlight s = bytesInFlight s QuicPnInitial + bytesInFlight s QuicPnHandshake
      + bytesInFlight s QuicPnApplication
    \<and> sorted_wrt (<) (map fst (m_sent s sp))
    \<and> (\<forall>e \<in> set (m_sent s sp). sp_pn (snd e) = fst e \<and> fst e \<le> m_largestSent s sp)
    \<and> m_largestAcked s sp \<le> m_largestSent s sp"
  using recovery_inv [OF assms] by (auto simp: recoveryInv_def bytesInFlight_flight smap_wf_def)

theorem recovery_books_balance_witness:
  "m_bytesInFlight sampleRecovery = bytesInFlight sampleRecovery QuicPnInitial
     + bytesInFlight sampleRecovery QuicPnHandshake + bytesInFlight sampleRecovery QuicPnApplication
   \<and> m_bytesInFlight sampleRecovery = 50"
  using recovery_books_balance [OF sampleRecovery_reachable] by (simp add: sampleRecovery_sent)

text \<open>
  C9.  What an ACK does, in every reachable state: the records returned as acknowledged are those
  of the sent packets the frame names, in increasing order and no longer in flight; exactly
  they leave the map; the other spaces are untouched; and no packet three or more below the
  new largest acknowledged stays in flight.
\<close>

theorem ack_effect:
  assumes "recovery s" "A = ackedNumbers (min (largestAcknowledged ack) (m_largestSent s sp)) ack"
    and "onAckReceived s sp ack nowUs = (s', acked, lost)"
  shows "acked = map (\<lambda>e. (snd e)\<lparr> inFlight := False \<rparr>) (filter (\<lambda>e. fst e \<in> A) (m_sent s sp))
    \<and> map fst (m_sent s' sp) = filter (\<lambda>n. n \<notin> A) (map fst (m_sent s sp))
    \<and> (\<forall>sp'. sp' \<noteq> sp \<longrightarrow> m_sent s' sp' = m_sent s sp')
    \<and> (\<forall>e \<in> set (m_sent s' sp). inFlight (snd e) \<and> m_largestAcked s' sp \<ge> kPacketThreshold \<longrightarrow>
          fst e > m_largestAcked s' sp - kPacketThreshold)"
proof -
  define t where "t = ackedState s sp ack nowUs"
  have s': "s' = fst (detectLostPackets t sp nowUs)"
    and acked: "acked = map (\<lambda>e. (snd e)\<lparr> inFlight := False \<rparr>) (filter (\<lambda>e. fst e \<in> A) (m_sent s sp))"
    using assms(3) onAckReceived_form [OF recovery_inv [OF assms(1)] refl assms(2), of nowUs]
    by (simp_all add: t_def)
  have t: "m_sent t = (m_sent s)(sp := filter (\<lambda>e. fst e \<notin> A) (m_sent s sp))"
    by (simp add: t_def ackedState_def Let_def assms(2))
  have keys: "map fst (m_sent s' sp) = filter (\<lambda>n. n \<notin> A) (map fst (m_sent s sp))"
    by (simp add: s' ack_detect_keys t filter_map comp_def)
  moreover have "\<forall>sp'. sp' \<noteq> sp \<longrightarrow> m_sent s' sp' = m_sent s sp'"
    by (simp add: s' ack_detect_keys t)
  moreover have "\<forall>e \<in> set (m_sent s' sp). inFlight (snd e) \<and> m_largestAcked s' sp \<ge> kPacketThreshold \<longrightarrow>
      fst e > m_largestAcked s' sp - kPacketThreshold"
    by (auto simp: s' ack_detect_keys markLost_def lossTest_def isLost_def not_le split: if_splits)
  ultimately show ?thesis using acked by blast
qed

theorem ack_effect_witness:
  "case onAckReceived sampleRecovery QuicPnApplication sampleAck 6000 of (s', acked, lost) \<Rightarrow>
     acked = [(samplePacket 5)\<lparr> inFlight := False \<rparr>]
     \<and> map fst (m_sent s' QuicPnApplication) = [1, 2, 3, 4]"
proof -
  have A: "ackedNumbers (min (largestAcknowledged sampleAck) (m_largestSent sampleRecovery QuicPnApplication)) sampleAck = {5}"
    by (simp add: sampleAck_def emptyFrame_def sampleRecovery_sent ackedNumbers_def ackSpan_def)
  obtain s' acked lost where r: "onAckReceived sampleRecovery QuicPnApplication sampleAck 6000 = (s', acked, lost)"
    using prod_cases3 by blast
  show ?thesis
    using ack_effect [OF sampleRecovery_reachable A [symmetric] r]
    by (simp add: r sampleRecovery_sent)
qed

text \<open>
  C32.  Round-trip samples: with times below \<open>2^60\<close> microseconds, a sample moves the smoothed
  value to the mean of seven parts old and one part new, up to the rounding of two integer
  divisions and without wrap-around; the sample never exceeds the time the packet was out,
  and the minimum is a lower bound of the samples.
\<close>

theorem rtt_sample:
  assumes "timeSent \<noteq> 0" "timeSent \<le> nowUs" "unat nowUs < 2 ^ 60"
    and "smoothedRttUs r \<noteq> 0" "unat (smoothedRttUs r) < 2 ^ 60" "r' = onAckSample r timeSent delay nowUs"
  shows "8 * unat (smoothedRttUs r') \<le> 7 * unat (smoothedRttUs r) + unat (latestRttUs r')
    \<and> 7 * unat (smoothedRttUs r) + unat (latestRttUs r') < 8 * unat (smoothedRttUs r') + 16
    \<and> latestRttUs r' \<le> nowUs - timeSent
    \<and> minRttUs r' \<le> latestRttUs r' \<and> (minRttUs r \<noteq> 0 \<longrightarrow> minRttUs r' \<le> minRttUs r)"
proof -
  define l0 where "l0 = nowUs - timeSent"
  define l where "l = (if delay < l0 then l0 - min delay (maxAckDelayUs r) else l0)"
  have le: "l \<le> l0"
    by (auto simp: l_def min_def intro!: word_sub_le)
  have "unat l0 \<le> unat nowUs" using assms(2) by (simp add: l0_def unat_sub word_le_nat_alt)
  then have small: "unat l < 2 ^ 60" using le assms(3) by (simp add: word_le_nat_alt)
  have r': "latestRttUs r' = l" "smoothedRttUs r' = 7 * smoothedRttUs r div 8 + l div 8"
    "minRttUs r' = (if minRttUs r = 0 \<or> l < minRttUs r then l else minRttUs r)"
    using assms(1,2,4)
    by (simp_all add: assms(6) onAckSample_def Let_def l_def l0_def not_less [symmetric])
  show ?thesis
    using smoothed_mean [OF assms(5) small] le unfolding r' l0_def [symmetric] by (auto simp: not_less)
qed

theorem rtt_sample_witness:
  "let r' = onAckSample (initRtt\<lparr> smoothedRttUs := 8000, minRttUs := 9000 \<rparr>) 1000 500 17500
   in 8 * unat (smoothedRttUs r') \<le> 72000 \<and> latestRttUs r' = 16000 \<and> minRttUs r' \<le> 9000"
  using rtt_sample [of 1000 17500 "initRtt\<lparr> smoothedRttUs := 8000, minRttUs := 9000 \<rparr>" _ 500, OF _ _ _ _ _ refl]
  by (simp add: initRtt_def onAckSample_def)

text \<open>
  C34.  The probe timeout: for round-trip values below \<open>2^50\<close> microseconds it is, without
  wrap-around, the RFC 9002 sum (or one second before the first sample) doubled for every
  expiry, at most eight times.
\<close>

theorem pto_backoff:
  assumes "unat (smoothedRttUs (m_rtt s)) < 2 ^ 50" "unat (rttvarUs (m_rtt s)) < 2 ^ 50"
    "unat (maxAckDelayUs (m_rtt s)) < 2 ^ 50"
  shows "unat (ptoTimeoutUs s sp) =
    (if smoothedRttUs (m_rtt s) = 0 then 1000000
     else unat (smoothedRttUs (m_rtt s)) + max (4 * unat (rttvarUs (m_rtt s))) 1000
       + unat (maxAckDelayUs (m_rtt s))) * 2 ^ min (unat (m_ptoCount s sp)) 8"
proof -
  define r where "r = m_rtt s"
  define k where "k = min (unat (m_ptoCount s sp)) 8"
  have v4: "unat (4 * rttvarUs r) = 4 * unat (rttvarUs r)"
    using assms(2) by (subst unat_mult_small) (simp_all add: r_def)
  define base where "base = (if 4 * rttvarUs r < 1000 then 1000 else 4 * rttvarUs r)"
  have base: "unat base = max (4 * unat (rttvarUs r)) 1000"
    by (auto simp: base_def word_less_nat_alt v4)
  have "unat (smoothedRttUs r + base) = unat (smoothedRttUs r) + unat base"
    using assms base by (intro unat_add_u64) (simp add: r_def)
  then have pto: "unat (ptoUs r) = unat (smoothedRttUs r) + max (4 * unat (rttvarUs r)) 1000 + unat (maxAckDelayUs r)"
    using assms base unfolding ptoUs_def Let_def base_def [symmetric]
    by (subst unat_add_u64) (simp_all add: r_def)
  have kk: "unat (min (m_ptoCount s sp) 8) = k"
    by (simp add: k_def min_def word_le_nat_alt)
  have k8: "k \<le> 8" by (simp add: k_def)
  have "unat (push_bit k 1 :: u64) = 2 ^ k" using k8 by (simp add: push_bit_of_1)
  moreover have "(2 :: nat) ^ k \<le> 2 ^ 8" using k8 by (intro power_increasing) simp_all
  moreover define b where "b = (if smoothedRttUs r > 0 then ptoUs r else 1000 * 1000)"
  moreover have ub: "unat b = (if smoothedRttUs r = 0 then 1000000 else unat (ptoUs r))"
    by (auto simp: b_def word_greater_zero_iff)
  moreover have "unat b < 2 ^ 53" unfolding ub pto using assms by (auto simp: r_def max_def)
  ultimately have "unat (b * push_bit k 1) = unat b * 2 ^ k"
    using mult_strict_mono [of "unat b" "2 ^ 53" "2 ^ k" "2 ^ 9"] by (subst unat_mult_small) simp_all
  then show ?thesis
    unfolding ptoTimeoutUs_def Let_def kk r_def [symmetric] b_def [symmetric] k_def [symmetric] ub pto by simp
qed

theorem pto_backoff_witness:
  "unat (ptoTimeoutUs (onPtoExpired initRecovery QuicPnInitial) QuicPnInitial) = 2000000"
  using pto_backoff [of "onPtoExpired initRecovery QuicPnInitial" QuicPnInitial]
  by (simp add: onPtoExpired_def initRecovery_def initRtt_def)

end
