(* ===== verification/Quic_Cc.thy ===== *)
theory Quic_Cc
  imports Qtng_Prelude
begin

text \<open>
  Congestion control: the interface \<open>QuicCongestionControl\<close> of \<open>include/qtng/quic.h\<close> as a
  locale, and \<open>QuicRenoCongestionControl\<close> of \<open>src/quic_cc.cpp\<close> as its instance.  Windows are
  \<open>size_t\<close>, modelled as 64-bit words whose additions wrap.
\<close>

section \<open>Reno\<close>

record Reno =
  m_mss :: u64
  m_cwnd :: u64
  m_ssthresh :: u64

definition initialCwnd :: "u64 \<Rightarrow> u64" where
  "initialCwnd mss = min (10 * mss) (max (2 * mss) 14720)"

definition newReno :: "u64 \<Rightarrow> Reno" where
  "newReno maxDatagramSize =
     (let mss = (if maxDatagramSize > 0 then maxDatagramSize else 1200)
      in \<lparr> m_mss = mss, m_cwnd = initialCwnd mss, m_ssthresh = - 1 \<rparr>)"

definition congestionWindow :: "Reno \<Rightarrow> u64" where
  "congestionWindow d = m_cwnd d"

definition canSend :: "Reno \<Rightarrow> u64 \<Rightarrow> bool" where
  "canSend d bytesInFlight \<longleftrightarrow> bytesInFlight < m_cwnd d"

definition cc_onPacketSent :: "Reno \<Rightarrow> u64 \<Rightarrow> u64 \<Rightarrow> Reno" where
  "cc_onPacketSent d bytesInFlight packetSize = d"

definition cc_onAckReceived :: "Reno \<Rightarrow> u64 \<Rightarrow> u64 \<Rightarrow> Reno" where
  "cc_onAckReceived d bytesAcked bytesInFlight =
     (if bytesAcked = 0 then d
      else if m_cwnd d < m_ssthresh d then d\<lparr> m_cwnd := m_cwnd d + bytesAcked \<rparr>
      else let increment = m_mss d * bytesAcked div m_cwnd d
           in d\<lparr> m_cwnd := m_cwnd d + max increment 1 \<rparr>)"

definition onLossDetected :: "Reno \<Rightarrow> u64 \<Rightarrow> u64 \<Rightarrow> Reno" where
  "onLossDetected d lostBytes bytesInFlight =
     (let t = max (bytesInFlight div 2) (2 * m_mss d)
      in d\<lparr> m_ssthresh := t, m_cwnd := t \<rparr>)"

definition onPersistentCongestion :: "Reno \<Rightarrow> Reno" where
  "onPersistentCongestion d = d\<lparr> m_cwnd := 2 * m_mss d, m_ssthresh := 2 * m_mss d \<rparr>"

datatype ccEvent = CcSent u64 u64 | CcAck u64 u64 | CcLoss u64 u64 | CcPersistent

fun renoStep :: "Reno \<Rightarrow> ccEvent \<Rightarrow> Reno" where
  "renoStep d (CcSent b n) = cc_onPacketSent d b n"
| "renoStep d (CcAck n b) = cc_onAckReceived d n b"
| "renoStep d (CcLoss n b) = onLossDetected d n b"
| "renoStep d CcPersistent = onPersistentCongestion d"

section \<open>The interface\<close>

text \<open>
  What a connection relies on, for any controller: bytes a controller is told of (\<open>grow\<close>)
  bound how far its window may move in one event, and the window never falls below a minimum
  chosen at construction.  From that, in every run whose bytes add up to less than \<open>2 ^ 48\<close>,
  which keeps the product \<open>m_mss * bytesAcked\<close> of 64-bit words from wrapping, a connection with
  little in flight may always send.
\<close>

fun grow :: "ccEvent \<Rightarrow> nat" where
  "grow (CcAck n b) = unat n"
| "grow (CcLoss n b) = unat b div 2"
| "grow _ = 0"

locale congestion_control =
  fixes window :: "'c \<Rightarrow> u64" and step :: "'c \<Rightarrow> ccEvent \<Rightarrow> 'c" and inv :: "nat \<Rightarrow> 'c \<Rightarrow> bool"
  assumes inv_step: "inv low c \<Longrightarrow> unat (window c) + grow e < 2 ^ 48 \<Longrightarrow>
      inv low (step c e) \<and> unat (window (step c e)) \<le> unat (window c) + grow e"
    and inv_window: "inv low c \<Longrightarrow> low \<le> unat (window c)"
begin

lemma run_inv:
  assumes "inv low c" "unat (window c) + (\<Sum>e\<leftarrow>es. grow e) < 2 ^ 48"
  shows "inv low (foldl step c es) \<and>
    unat (window (foldl step c es)) \<le> unat (window c) + (\<Sum>e\<leftarrow>es. grow e)"
  using assms
proof (induction es arbitrary: c)
  case (Cons e es)
  then have st: "inv low (step c e)" "unat (window (step c e)) \<le> unat (window c) + grow e"
    using inv_step [of low c e] by auto
  then show ?case using Cons.IH [of "step c e"] Cons.prems by auto
qed simp

lemma run_window:
  assumes "inv low c" "unat (window c) + (\<Sum>e\<leftarrow>es. grow e) < 2 ^ 48"
  shows "low \<le> unat (window (foldl step c es))"
  using run_inv [OF assms] inv_window by blast

end

definition renoInv :: "nat \<Rightarrow> Reno \<Rightarrow> bool" where
  "renoInv low d \<longleftrightarrow> low = 2 * unat (m_mss d) \<and> 0 < unat (m_mss d) \<and> unat (m_mss d) < 2 ^ 16
     \<and> low \<le> unat (m_cwnd d)"

lemma unat_min: "unat (min a b) = min (unat a) (unat b)" for a b :: u64
  by (simp add: min_def word_le_nat_alt)

lemma unat_max: "unat (max a b) = max (unat a) (unat b)" for a b :: u64
  by (simp add: max_def word_le_nat_alt)

lemma renoInv_ack:
  assumes inv: "renoInv low d" and small: "unat (m_cwnd d) + unat n < 2 ^ 48"
  shows "renoInv low (cc_onAckReceived d n b)
    \<and> unat (m_cwnd (cc_onAckReceived d n b)) \<le> unat (m_cwnd d) + unat n"
proof -
  define inc where "inc = (if m_cwnd d < m_ssthresh d then n else max (m_mss d * n div m_cwnd d) 1)"
  show ?thesis
  proof (cases "n = 0")
    case True
    then show ?thesis using inv by (simp add: cc_onAckReceived_def)
  next
    case False
    have mss: "2 * unat (m_mss d) \<le> unat (m_cwnd d)" "0 < unat (m_cwnd d)"
      using inv by (auto simp: renoInv_def)
    have "unat (m_mss d) * unat n \<le> unat (m_cwnd d) * unat n" using mss by simp
    then have "unat (m_mss d) * unat n div unat (m_cwnd d) \<le> unat (m_cwnd d) * unat n div unat (m_cwnd d)"
      by (rule div_le_mono)
    then have "unat (m_mss d) * unat n div unat (m_cwnd d) \<le> unat n" using mss by simp
    moreover have "unat (m_mss d) * unat n < 2 ^ 16 * 2 ^ 48"
      using inv small by (intro mult_strict_mono) (auto simp: renoInv_def)
    ultimately have "unat (m_mss d * n div m_cwnd d) \<le> unat n"
      by (simp add: unat_div unat_word_ariths)
    moreover have "1 \<le> unat n" using False by (simp add: Suc_le_eq unat_gt_0)
    ultimately have le: "unat inc \<le> unat n"
      by (simp add: inc_def unat_max)
    have form: "cc_onAckReceived d n b = d\<lparr> m_cwnd := m_cwnd d + inc \<rparr>"
      using False by (simp add: cc_onAckReceived_def inc_def Let_def)
    have "unat (m_cwnd d + inc) = unat (m_cwnd d) + unat inc"
      using small le by (intro unat_add_u64) simp
    then show ?thesis using le inv by (simp add: form renoInv_def)
  qed
qed

lemma renoInv_step:
  assumes inv: "renoInv low d" and small: "unat (congestionWindow d) + grow e < 2 ^ 48"
  shows "renoInv low (renoStep d e)
    \<and> unat (congestionWindow (renoStep d e)) \<le> unat (congestionWindow d) + grow e"
proof (cases e)
  case (CcAck n b)
  then show ?thesis using renoInv_ack [OF inv, of n b] small by (simp add: congestionWindow_def)
next
  case (CcLoss n b)
  have m2: "unat (2 * m_mss d) = 2 * unat (m_mss d)" using inv by (simp add: renoInv_def unat_word_ariths)
  have "unat (max (b div 2) (2 * m_mss d)) = max (unat b div 2) (2 * unat (m_mss d))"
    by (simp add: unat_max m2 unat_div)
  then show ?thesis using inv CcLoss
    by (auto simp: onLossDetected_def Let_def renoInv_def congestionWindow_def)
next
  case CcPersistent
  have "unat (2 * m_mss d) = 2 * unat (m_mss d)" using inv by (simp add: renoInv_def unat_word_ariths)
  then show ?thesis using inv CcPersistent
    by (auto simp: onPersistentCongestion_def renoInv_def congestionWindow_def)
next
  case (CcSent b n)
  then show ?thesis using inv by (simp add: cc_onPacketSent_def)
qed

interpretation reno: congestion_control congestionWindow renoStep renoInv
proof
  show "renoInv low c \<Longrightarrow> unat (congestionWindow c) + grow e < 2 ^ 48 \<Longrightarrow>
      renoInv low (renoStep c e) \<and> unat (congestionWindow (renoStep c e)) \<le> unat (congestionWindow c) + grow e"
    for low c e
    by (rule renoInv_step)
  show "renoInv low c \<Longrightarrow> low \<le> unat (congestionWindow c)" for low c
    by (simp add: renoInv_def congestionWindow_def)
qed

lemma renoInv_new:
  assumes "unat n < 2 ^ 16"
  shows "renoInv (2 * unat (m_mss (newReno n))) (newReno n)"
    "unat (congestionWindow (newReno n)) \<le> 10 * unat (m_mss (newReno n))"
proof -
  define m where "m = m_mss (newReno n)"
  have m: "0 < unat m" "unat m < 2 ^ 16" "m_cwnd (newReno n) = initialCwnd m"
    using assms by (auto simp: m_def newReno_def Let_def word_greater_zero_iff unat_gt_0)
  then have "unat (10 * m) = 10 * unat m" "unat (2 * m) = 2 * unat m" by (simp_all add: unat_word_ariths)
  then have "unat (initialCwnd m) = min (10 * unat m) (max (2 * unat m) 14720)"
    unfolding initialCwnd_def by (simp add: unat_min unat_max)
  then show "renoInv (2 * unat (m_mss (newReno n))) (newReno n)"
    "unat (congestionWindow (newReno n)) \<le> 10 * unat (m_mss (newReno n))"
    using m by (auto simp: renoInv_def congestionWindow_def simp flip: m_def)
qed

section \<open>Properties\<close>

text \<open>
  C22.  Reno never starves a connection: for a datagram size below 65536, and while the bytes
  reported to the controller add up to less than \<open>2 ^ 48\<close>, so that no 64-bit counter wraps,
  the window is at least two datagrams after any sequence of sends, acknowledgements, losses
  and persistent congestion, in any order; so a connection with fewer bytes in flight may send.
  A configured size of 0 counts as the default of 1200.
\<close>

theorem reno_never_starves:
  assumes "mss = m_mss (newReno n)" "unat n < 2 ^ 16" "10 * unat mss + (\<Sum>e\<leftarrow>es. grow e) < 2 ^ 48"
    and "unat inFlightBytes < 2 * unat mss"
  shows "canSend (foldl renoStep (newReno n) es) inFlightBytes"
proof -
  have "2 * unat mss \<le> unat (congestionWindow (foldl renoStep (newReno n) es))"
    using renoInv_new [OF assms(2)] assms(1,3) by (intro reno.run_window) auto
  then show ?thesis using assms(4) by (simp add: canSend_def congestionWindow_def word_less_nat_alt)
qed

theorem reno_never_starves_witness:
  "canSend (foldl renoStep (newReno 0) [CcAck 1200 3000, CcLoss 1200 1000, CcAck 1200 0, CcPersistent, CcLoss 5 5]) 2399"
  by (rule reno_never_starves [of 1200]) (simp_all add: newReno_def)

end
