(* ===== verification/Hpack_Huffman.thy ===== *)
theory Hpack_Huffman
  imports Qtng_Prelude
begin

unbundle bit_operations_syntax

text \<open>
  The Huffman coding of \<open>src/hpack.cpp\<close>: the code table, \<open>huffmanEncode\<close> with its 64-bit
  buffer, the array-based tree of \<open>buildHuffmanTree\<close>, and \<open>huffmanDecode\<close>.
\<close>

section \<open>The code table\<close>

text \<open>Code and length for the 256 byte values and the end-of-string symbol.\<close>

definition kHuffmanTable :: "(u32 \<times> nat) list" where
  "kHuffmanTable = [
     (0x1ff8, 13), (0x7fffd8, 23), (0xfffffe2, 28), (0xfffffe3, 28), (0xfffffe4, 28), (0xfffffe5, 28),
     (0xfffffe6, 28), (0xfffffe7, 28), (0xfffffe8, 28), (0xffffea, 24), (0x3ffffffc, 30), (0xfffffe9, 28),
     (0xfffffea, 28), (0x3ffffffd, 30), (0xfffffeb, 28), (0xfffffec, 28), (0xfffffed, 28), (0xfffffee, 28),
     (0xfffffef, 28), (0xffffff0, 28), (0xffffff1, 28), (0xffffff2, 28), (0x3ffffffe, 30), (0xffffff3, 28),
     (0xffffff4, 28), (0xffffff5, 28), (0xffffff6, 28), (0xffffff7, 28), (0xffffff8, 28), (0xffffff9, 28),
     (0xffffffa, 28), (0xffffffb, 28), (0x14, 6), (0x3f8, 10), (0x3f9, 10), (0xffa, 12),
     (0x1ff9, 13), (0x15, 6), (0xf8, 8), (0x7fa, 11), (0x3fa, 10), (0x3fb, 10),
     (0xf9, 8), (0x7fb, 11), (0xfa, 8), (0x16, 6), (0x17, 6), (0x18, 6),
     (0x0, 5), (0x1, 5), (0x2, 5), (0x19, 6), (0x1a, 6), (0x1b, 6),
     (0x1c, 6), (0x1d, 6), (0x1e, 6), (0x1f, 6), (0x5c, 7), (0xfb, 8),
     (0x7ffc, 15), (0x20, 6), (0xffb, 12), (0x3fc, 10), (0x1ffa, 13), (0x21, 6),
     (0x5d, 7), (0x5e, 7), (0x5f, 7), (0x60, 7), (0x61, 7), (0x62, 7),
     (0x63, 7), (0x64, 7), (0x65, 7), (0x66, 7), (0x67, 7), (0x68, 7),
     (0x69, 7), (0x6a, 7), (0x6b, 7), (0x6c, 7), (0x6d, 7), (0x6e, 7),
     (0x6f, 7), (0x70, 7), (0x71, 7), (0x72, 7), (0xfc, 8), (0x73, 7),
     (0xfd, 8), (0x1ffb, 13), (0x7fff0, 19), (0x1ffc, 13), (0x3ffc, 14), (0x22, 6),
     (0x7ffd, 15), (0x3, 5), (0x23, 6), (0x4, 5), (0x24, 6), (0x5, 5),
     (0x25, 6), (0x26, 6), (0x27, 6), (0x6, 5), (0x74, 7), (0x75, 7),
     (0x28, 6), (0x29, 6), (0x2a, 6), (0x7, 5), (0x2b, 6), (0x76, 7),
     (0x2c, 6), (0x8, 5), (0x9, 5), (0x2d, 6), (0x77, 7), (0x78, 7),
     (0x79, 7), (0x7a, 7), (0x7b, 7), (0x7ffe, 15), (0x7fc, 11), (0x3ffd, 14),
     (0x1ffd, 13), (0xffffffc, 28), (0xfffe6, 20), (0x3fffd2, 22), (0xfffe7, 20), (0xfffe8, 20),
     (0x3fffd3, 22), (0x3fffd4, 22), (0x3fffd5, 22), (0x7fffd9, 23), (0x3fffd6, 22), (0x7fffda, 23),
     (0x7fffdb, 23), (0x7fffdc, 23), (0x7fffdd, 23), (0x7fffde, 23), (0xffffeb, 24), (0x7fffdf, 23),
     (0xffffec, 24), (0xffffed, 24), (0x3fffd7, 22), (0x7fffe0, 23), (0xffffee, 24), (0x7fffe1, 23),
     (0x7fffe2, 23), (0x7fffe3, 23), (0x7fffe4, 23), (0x1fffdc, 21), (0x3fffd8, 22), (0x7fffe5, 23),
     (0x3fffd9, 22), (0x7fffe6, 23), (0x7fffe7, 23), (0xffffef, 24), (0x3fffda, 22), (0x1fffdd, 21),
     (0xfffe9, 20), (0x3fffdb, 22), (0x3fffdc, 22), (0x7fffe8, 23), (0x7fffe9, 23), (0x1fffde, 21),
     (0x7fffea, 23), (0x3fffdd, 22), (0x3fffde, 22), (0xfffff0, 24), (0x1fffdf, 21), (0x3fffdf, 22),
     (0x7fffeb, 23), (0x7fffec, 23), (0x1fffe0, 21), (0x1fffe1, 21), (0x3fffe0, 22), (0x1fffe2, 21),
     (0x7fffed, 23), (0x3fffe1, 22), (0x7fffee, 23), (0x7fffef, 23), (0xfffea, 20), (0x3fffe2, 22),
     (0x3fffe3, 22), (0x3fffe4, 22), (0x7ffff0, 23), (0x3fffe5, 22), (0x3fffe6, 22), (0x7ffff1, 23),
     (0x3ffffe0, 26), (0x3ffffe1, 26), (0xfffeb, 20), (0x7fff1, 19), (0x3fffe7, 22), (0x7ffff2, 23),
     (0x3fffe8, 22), (0x1ffffec, 25), (0x3ffffe2, 26), (0x3ffffe3, 26), (0x3ffffe4, 26), (0x7ffffde, 27),
     (0x7ffffdf, 27), (0x3ffffe5, 26), (0xfffff1, 24), (0x1ffffed, 25), (0x7fff2, 19), (0x1fffe3, 21),
     (0x3ffffe6, 26), (0x7ffffe0, 27), (0x7ffffe1, 27), (0x3ffffe7, 26), (0x7ffffe2, 27), (0xfffff2, 24),
     (0x1fffe4, 21), (0x1fffe5, 21), (0x3ffffe8, 26), (0x3ffffe9, 26), (0xffffffd, 28), (0x7ffffe3, 27),
     (0x7ffffe4, 27), (0x7ffffe5, 27), (0xfffec, 20), (0xfffff3, 24), (0xfffed, 20), (0x1fffe6, 21),
     (0x3fffe9, 22), (0x1fffe7, 21), (0x1fffe8, 21), (0x7ffff3, 23), (0x3fffea, 22), (0x3fffeb, 22),
     (0x1ffffee, 25), (0x1ffffef, 25), (0xfffff4, 24), (0xfffff5, 24), (0x3ffffea, 26), (0x7ffff4, 23),
     (0x3ffffeb, 26), (0x7ffffe6, 27), (0x3ffffec, 26), (0x3ffffed, 26), (0x7ffffe7, 27), (0x7ffffe8, 27),
     (0x7ffffe9, 27), (0x7ffffea, 27), (0x7ffffeb, 27), (0xffffffe, 28), (0x7ffffec, 27), (0x7ffffed, 27),
     (0x7ffffee, 27), (0x7ffffef, 27), (0x7fffff0, 27), (0x3ffffee, 26), (0x3fffffff, 30)]"

section \<open>Encoding\<close>

text \<open>\<open>while (bits >= 8) { bits -= 8; push (buffer >> bits) & 0xff; }\<close>\<close>

fun drainBits :: "u64 \<Rightarrow> nat \<Rightarrow> bytes \<times> nat" where
  "drainBits buffer bits =
     (if bits \<ge> 8 then
        let (out, rest) = drainBits buffer (bits - 8)
        in (ucast (drop_bit (bits - 8) buffer AND 0xff) # out, rest)
      else ([], bits))"

declare drainBits.simps [simp del]

definition huffmanStep :: "bytes \<times> u64 \<times> nat \<Rightarrow> byte \<Rightarrow> bytes \<times> u64 \<times> nat" where
  "huffmanStep st ch =
     (let (out, buffer, bits) = st;
          (code, n) = kHuffmanTable ! unat ch;
          buffer = push_bit n buffer OR ucast code;
          (more, bits) = drainBits buffer (bits + n)
      in (out @ more, buffer, bits))"

definition huffmanEncode :: "bytes \<Rightarrow> bytes" where
  "huffmanEncode input =
     (let (out, buffer, bits) = foldl huffmanStep ([], 0, 0) input
      in if bits > 0
         then out @ [ucast ((push_bit (8 - bits) buffer OR drop_bit bits 0xff) AND 0xff)]
         else out)"

section \<open>The decoding tree\<close>

record HuffmanNode =
  hn_symbol :: int
  hn_left :: int
  hn_right :: int

definition blankNode :: HuffmanNode where
  "blankNode = \<lparr> hn_symbol = -1, hn_left = -1, hn_right = -1 \<rparr>"

definition hn_child :: "HuffmanNode \<Rightarrow> bool \<Rightarrow> int" where
  "hn_child node b = (if b then hn_right node else hn_left node)"

definition setChild :: "HuffmanNode \<Rightarrow> bool \<Rightarrow> int \<Rightarrow> HuffmanNode" where
  "setChild node b c = (if b then node\<lparr> hn_right := c \<rparr> else node\<lparr> hn_left := c \<rparr>)"

text \<open>The bits of a code, most significant first.\<close>

definition codeBits :: "u32 \<times> nat \<Rightarrow> bool list" where
  "codeBits c = map (\<lambda>i. bit (fst c) i) (rev [0..<snd c])"

text \<open>The inner loop: follow or create the children along the code; the final index is returned.\<close>

fun insertCode :: "bool list \<Rightarrow> nat \<Rightarrow> HuffmanNode list \<Rightarrow> nat \<times> HuffmanNode list" where
  "insertCode [] idx nodes = (idx, nodes)"
| "insertCode (b # bs) idx nodes =
     (let child = hn_child (nodes ! idx) b in
      if child < 0 then
        let child = length nodes;
            nodes = nodes @ [blankNode];
            nodes = nodes[idx := setChild (nodes ! idx) b (int child)]
        in insertCode bs child nodes
      else insertCode bs (nat child) nodes)"

definition addSymbol :: "(u32 \<times> nat) list \<Rightarrow> HuffmanNode list \<Rightarrow> nat \<Rightarrow> HuffmanNode list" where
  "addSymbol table nodes symb =
     (let (idx, nodes) = insertCode (codeBits (table ! symb)) 0 nodes
      in nodes[idx := (nodes ! idx)\<lparr> hn_symbol := int symb \<rparr>])"

definition buildHuffmanTree :: "HuffmanNode list" where
  "buildHuffmanTree = foldl (addSymbol kHuffmanTable) [blankNode] [0..<257]"

section \<open>Decoding\<close>

definition byteBits :: "byte \<Rightarrow> bool list" where
  "byteBits b = map (\<lambda>i. bit b i) (rev [0..<8])"

text \<open>The two nested loops over bytes and bits, as one loop over the bits; the result is the return value and \<open>*out\<close>.\<close>

fun huffmanLoop :: "HuffmanNode list \<Rightarrow> bool list \<Rightarrow> nat \<Rightarrow> bytes \<Rightarrow> bool \<times> bytes" where
  "huffmanLoop tree [] idx out = (idx = 0 \<or> hn_symbol (tree ! idx) = 256, out)"
| "huffmanLoop tree (b # bs) idx out =
     (let idx = hn_child (tree ! idx) b in
      if idx < 0 then (False, out)
      else
        let symb = hn_symbol (tree ! nat idx) in
        if symb \<ge> 0 then
          if symb = 256 then (True, out) else huffmanLoop tree bs 0 (out @ [of_int symb])
        else huffmanLoop tree bs (nat idx) out)"

definition huffmanDecode :: "bytes \<Rightarrow> bool \<times> bytes" where
  "huffmanDecode input = huffmanLoop buildHuffmanTree (concat (map byteBits input)) 0 []"

section \<open>The tree as a map from paths to nodes\<close>

definition walk :: "HuffmanNode list \<Rightarrow> bool list \<Rightarrow> nat option" where
  "walk nodes q = foldl (\<lambda>i b. case i of None \<Rightarrow> None
     | Some i \<Rightarrow> if hn_child (nodes ! i) b < 0 then None else Some (nat (hn_child (nodes ! i) b))) (Some 0) q"

lemma walk_Nil [simp]: "walk nodes [] = Some 0"
  by (simp add: walk_def)

lemma walk_snoc: "walk nodes (q @ [b]) = (case walk nodes q of None \<Rightarrow> None
     | Some i \<Rightarrow> if hn_child (nodes ! i) b < 0 then None else Some (nat (hn_child (nodes ! i) b)))"
  by (simp add: walk_def)

definition treeOk :: "HuffmanNode list \<Rightarrow> bool" where
  "treeOk nodes \<longleftrightarrow> nodes \<noteq> [] \<and> (\<forall>i < length nodes. \<forall>b. hn_child (nodes ! i) b < int (length nodes))
     \<and> (\<forall>p q i. walk nodes p = Some i \<longrightarrow> walk nodes q = Some i \<longrightarrow> p = q)"

lemma treeOk_inj: "treeOk nodes \<Longrightarrow> walk nodes p = Some i \<Longrightarrow> walk nodes q = Some i \<Longrightarrow> p = q"
  unfolding treeOk_def by blast

lemma walk_bound: "treeOk nodes \<Longrightarrow> walk nodes q = Some i \<Longrightarrow> i < length nodes"
proof (induction q arbitrary: i rule: rev_induct)
  case Nil
  then show ?case by (simp add: treeOk_def)
next
  case (snoc b q)
  then obtain j where j: "walk nodes q = Some j" "\<not> hn_child (nodes ! j) b < 0" "i = nat (hn_child (nodes ! j) b)"
    by (auto simp: walk_snoc split: option.splits if_splits)
  then have "hn_child (nodes ! j) b < int (length nodes)" using snoc by (simp add: treeOk_def)
  then show ?case using j by simp
qed

lemma child_simps [simp]:
  "hn_child blankNode b = -1" "hn_child (setChild node b c) b' = (if b = b' then c else hn_child node b')"
  "hn_symbol (setChild node b c) = hn_symbol node" "hn_symbol blankNode = -1"
  "hn_child (node\<lparr> hn_symbol := s \<rparr>) b = hn_child node b"
  by (auto simp: hn_child_def setChild_def blankNode_def)

text \<open>Creating a child adds one path.\<close>

lemma walk_grow:
  assumes ok: "treeOk nodes" and p: "walk nodes p = Some idx" and c: "hn_child (nodes ! idx) b < 0"
    and nodes': "nodes' = (nodes @ [blankNode])[idx := setChild ((nodes @ [blankNode]) ! idx) b (int (length nodes))]"
  shows "walk nodes' q = (if q = p @ [b] then Some (length nodes) else walk nodes q)"
proof (induction q rule: rev_induct)
  case (snoc d q)
  have idx: "idx < length nodes" by (rule walk_bound [OF ok p])
  have nb: "walk nodes (p @ [b]) = None" using p c by (simp add: walk_snoc)
  show ?case
  proof (cases "q = p @ [b]")
    case True
    have "nodes' ! length nodes = blankNode" using idx by (simp add: nodes' nth_append)
    moreover have "walk nodes' q = Some (length nodes)" using snoc True by simp
    ultimately have "walk nodes' (q @ [d]) = None" by (simp add: walk_snoc [of nodes' q d])
    moreover have "walk nodes (q @ [d]) = None" using nb unfolding True [symmetric] by (simp add: walk_snoc)
    ultimately show ?thesis using True by simp
  next
    case False
    show ?thesis
    proof (cases "walk nodes q")
      case None
      then have "q \<noteq> p" using p by auto
      then show ?thesis using snoc False None by (simp add: walk_snoc)
    next
      case (Some j)
      have j: "j < length nodes" by (rule walk_bound [OF ok Some])
      show ?thesis
      proof (cases "q = p")
        case True
        then show ?thesis using snoc False Some p idx c
          by (cases "d = b") (auto simp: walk_snoc nodes' nth_append)
      next
        case neq: False
        then have "j \<noteq> idx" using treeOk_inj [OF ok Some] p by blast
        then show ?thesis using snoc False Some neq j by (simp add: walk_snoc nodes' nth_append)
      qed
    qed
  qed
qed simp

lemma treeOk_grow:
  assumes ok: "treeOk nodes" and p: "walk nodes p = Some idx" and c: "hn_child (nodes ! idx) b < 0"
    and nodes': "nodes' = (nodes @ [blankNode])[idx := setChild ((nodes @ [blankNode]) ! idx) b (int (length nodes))]"
  shows "treeOk nodes'"
proof -
  note g = walk_grow [OF ok p c nodes']
  have "hn_child (nodes' ! i) d < int (length nodes')" if "i < length nodes'" for i d
  proof -
    have old: "hn_child (nodes ! k) d < int (length nodes)" if "k < length nodes" for k
      using ok that by (simp add: treeOk_def)
    show ?thesis using that old [of i] old [of idx] walk_bound [OF ok p]
      by (auto simp: nodes' nth_list_update nth_append)
  qed
  moreover have "q = r" if "walk nodes' q = Some i" "walk nodes' r = Some i" for q r i
    using that walk_bound [OF ok, of q i] walk_bound [OF ok, of r i] treeOk_inj [OF ok, of q i r]
    by (auto simp: g split: if_splits)
  ultimately show ?thesis unfolding treeOk_def using ok by (auto simp: nodes' treeOk_def)
qed

lemma insertCode_spec:
  assumes "treeOk nodes" "walk nodes p = Some idx" "insertCode bs idx nodes = (i', nodes')"
  shows "treeOk nodes' \<and> walk nodes' (p @ bs) = Some i'
    \<and> (\<forall>q. walk nodes' q \<noteq> None \<longleftrightarrow> walk nodes q \<noteq> None \<or> (\<exists>k \<le> length bs. q = p @ take k bs))
    \<and> (\<forall>q i. walk nodes q = Some i \<longrightarrow> walk nodes' q = Some i \<and> hn_symbol (nodes' ! i) = hn_symbol (nodes ! i))
    \<and> (\<forall>q i. walk nodes' q = Some i \<longrightarrow> walk nodes q = None \<longrightarrow> hn_symbol (nodes' ! i) = -1)"
  using assms
proof (induction bs idx nodes arbitrary: p rule: insertCode.induct)
  case (1 idx nodes)
  then show ?case by auto
next
  case (2 b bs idx nodes)
  have split: "(\<exists>k \<le> length (b # bs). q = p @ take k (b # bs)) \<longleftrightarrow> q = p \<or> (\<exists>k \<le> length bs. q = (p @ [b]) @ take k bs)" for q
  proof
    assume "\<exists>k \<le> length (b # bs). q = p @ take k (b # bs)"
    then obtain k where k: "k \<le> length (b # bs)" "q = p @ take k (b # bs)" by blast
    then show "q = p \<or> (\<exists>k \<le> length bs. q = (p @ [b]) @ take k bs)" by (cases k) auto
  next
    assume "q = p \<or> (\<exists>k \<le> length bs. q = (p @ [b]) @ take k bs)"
    then consider "q = p" | k where "k \<le> length bs" "q = (p @ [b]) @ take k bs" by blast
    then show "\<exists>k \<le> length (b # bs). q = p @ take k (b # bs)"
    proof cases
      case 1
      then show ?thesis by (intro exI [of _ 0]) simp
    next
      case (2 k)
      then show ?thesis by (intro exI [of _ "Suc k"]) simp
    qed
  qed
  show ?case
  proof (cases "hn_child (nodes ! idx) b < 0")
    case False
    then have w: "walk nodes (p @ [b]) = Some (nat (hn_child (nodes ! idx) b))"
      using 2 by (simp add: walk_snoc)
    have ins: "insertCode bs (nat (hn_child (nodes ! idx) b)) nodes = (i', nodes')"
      using False 2(5) by (simp add: Let_def)
    note IH = 2(2) [OF refl False 2(3) w ins]
    have "walk nodes' (p @ b # bs) = Some i'" using IH by simp
    then show ?thesis using IH 2(4) unfolding split by (auto simp del: append_assoc)
  next
    case True
    define mid where "mid = (nodes @ [blankNode])[idx := setChild ((nodes @ [blankNode]) ! idx) b (int (length nodes))]"
    note g = walk_grow [OF 2(3,4) True mid_def]
    have nb: "walk nodes (p @ [b]) = None" using 2(4) True by (simp add: walk_snoc)
    have ins: "insertCode bs (length nodes) mid = (i', nodes')"
      using True 2(5) by (simp add: Let_def mid_def)
    have wm: "walk mid (p @ [b]) = Some (length nodes)" by (simp add: g)
    note IH = 2(1) [OF refl True refl refl, folded mid_def, OF refl treeOk_grow [OF 2(3,4) True mid_def] wm ins]
    have syms: "hn_symbol (mid ! i) = hn_symbol (nodes ! i)" if "i < length nodes" for i
      using that by (auto simp: mid_def nth_list_update nth_append)
    have fresh: "hn_symbol (mid ! length nodes) = -1"
      using walk_bound [OF 2(3,4)] by (simp add: mid_def nth_append)
    have keep: "walk mid q = Some i \<and> hn_symbol (mid ! i) = hn_symbol (nodes ! i)" if "walk nodes q = Some i" for q i
      using that nb walk_bound [OF 2(3) that] syms by (auto simp: g)
    have new: "hn_symbol (nodes' ! i) = -1" if q: "walk nodes' q = Some i" "walk nodes q = None" for q i
    proof (cases "walk mid q")
      case None
      then show ?thesis using IH q by blast
    next
      case (Some j)
      then have "j = length nodes" using q(2) by (auto simp: g split: if_splits)
      then show ?thesis using IH Some q(1) fresh by (metis option.inject)
    qed
    have dom: "walk nodes' q \<noteq> None \<longleftrightarrow> walk nodes q \<noteq> None \<or> (\<exists>k \<le> length (b # bs). q = p @ take k (b # bs))" for q
    proof -
      have "walk mid q \<noteq> None \<longleftrightarrow> walk nodes q \<noteq> None \<or> q = p @ [b]" by (auto simp: g)
      moreover have "q = p @ [b] \<Longrightarrow> \<exists>k \<le> length bs. q = (p @ [b]) @ take k bs" by (intro exI [of _ 0]) simp
      ultimately show ?thesis using IH 2(4) unfolding split by auto
    qed
    have "walk nodes' q = Some i \<and> hn_symbol (nodes' ! i) = hn_symbol (nodes ! i)" if "walk nodes q = Some i" for q i
      using keep [OF that] IH by metis
    then show ?thesis using IH dom new by simp
  qed
qed

text \<open>A tree represents a map from codes to symbols.\<close>

definition represents :: "HuffmanNode list \<Rightarrow> (bool list \<Rightarrow> nat option) \<Rightarrow> bool" where
  "represents nodes C \<longleftrightarrow> treeOk nodes
     \<and> (\<forall>q. walk nodes q \<noteq> None \<longleftrightarrow> q = [] \<or> (\<exists>c \<in> dom C. prefix q c))
     \<and> (\<forall>q i. walk nodes q = Some i \<longrightarrow> hn_symbol (nodes ! i) = (case C q of None \<Rightarrow> -1 | Some s \<Rightarrow> int s))"

lemma walk_symbol_update:
  assumes "i < length nodes"
  shows "walk (nodes[i := (nodes ! i)\<lparr> hn_symbol := s \<rparr>]) q = walk nodes q"
proof -
  have "hn_child (nodes[i := (nodes ! i)\<lparr> hn_symbol := s \<rparr>] ! j) b = hn_child (nodes ! j) b" for j b
    using assms by (cases "j = i") simp_all
  then show ?thesis by (induction q rule: rev_induct) (simp_all add: walk_snoc split: option.splits)
qed

lemma represents_root: "represents [blankNode] Map.empty"
proof -
  have w: "walk [blankNode] q = (if q = [] then Some 0 else None)" for q
    by (induction q rule: rev_induct) (auto simp: walk_snoc)
  then show ?thesis by (auto simp: represents_def treeOk_def less_Suc_eq split: if_splits)
qed

lemma represents_add:
  assumes rep: "represents nodes C"
  shows "represents (addSymbol table nodes s) (C(codeBits (table ! s) \<mapsto> s))"
proof -
  define c where "c = codeBits (table ! s)"
  obtain i mid where ins: "insertCode c 0 nodes = (i, mid)" by force
  have ok: "treeOk nodes" using rep by (simp add: represents_def)
  have "walk nodes [] = Some 0" by simp
  note spec = insertCode_spec [OF ok this ins, simplified]
  have i: "walk mid c = Some i" "treeOk mid" using spec by blast+
  have ib: "i < length mid" by (rule walk_bound [OF i(2,1)])
  define out where "out = mid[i := (mid ! i)\<lparr> hn_symbol := int s \<rparr>]"
  have out: "addSymbol table nodes s = out" by (simp add: addSymbol_def ins [unfolded c_def] out_def)
  have w: "walk out q = walk mid q" for q unfolding out_def by (rule walk_symbol_update [OF ib])
  have "treeOk out"
  proof -
    have "hn_child (out ! j) b = hn_child (mid ! j) b" for j b
      using ib by (cases "j = i") (simp_all add: out_def)
    then show ?thesis using i(2) by (simp add: treeOk_def w) (simp add: out_def)
  qed
  moreover have "walk out q \<noteq> None \<longleftrightarrow> q = [] \<or> (\<exists>d \<in> dom (C(c \<mapsto> s)). prefix q d)" for q
  proof -
    have pre: "(\<exists>k \<le> length c. q = take k c) \<longleftrightarrow> prefix q c"
      by (metis append_eq_conv_conj prefix_def take_is_prefix prefix_length_le)
    have "walk mid q \<noteq> None \<longleftrightarrow> walk nodes q \<noteq> None \<or> prefix q c"
      unfolding pre [symmetric] using spec by auto
    then show ?thesis using rep unfolding w represents_def by auto
  qed
  moreover have "hn_symbol (out ! j) = (case (C(c \<mapsto> s)) q of None \<Rightarrow> -1 | Some s \<Rightarrow> int s)"
    if q: "walk out q = Some j" for q j
  proof (cases "q = c")
    case True
    then have "j = i" using q i by (simp add: w)
    then show ?thesis using True ib by (simp add: out_def)
  next
    case False
    then have "j \<noteq> i" using q i treeOk_inj by (metis w)
    then have same: "out ! j = mid ! j" by (simp add: out_def)
    show ?thesis
    proof (cases "walk nodes q")
      case None
      then have "hn_symbol (mid ! j) = -1" using spec q by (simp add: w)
      moreover have "C q = None" using rep None unfolding represents_def by (metis domIff prefix_order.refl)
      ultimately show ?thesis using False same by simp
    next
      case (Some k)
      then have "k = j" "hn_symbol (mid ! j) = hn_symbol (nodes ! j)" using spec q by (auto simp: w)
      then show ?thesis using rep Some False same by (simp add: represents_def)
    qed
  qed
  ultimately show ?thesis unfolding out c_def [symmetric] represents_def by blast
qed

definition codeMap :: "(u32 \<times> nat) list \<Rightarrow> nat \<Rightarrow> bool list \<Rightarrow> nat option" where
  "codeMap table n = foldl (\<lambda>C s. C(codeBits (table ! s) \<mapsto> s)) Map.empty [0..<n]"

lemma codeMap_Suc: "codeMap table (Suc n) = (codeMap table n)(codeBits (table ! n) \<mapsto> n)"
  by (simp add: codeMap_def)

lemma represents_build: "represents (foldl (addSymbol table) [blankNode] [0..<n]) (codeMap table n)"
proof (induction n)
  case 0
  then show ?case using represents_root by (simp add: codeMap_def)
next
  case (Suc n)
  then show ?case using represents_add [OF Suc, of table n] by (simp add: codeMap_Suc del: fun_upd_apply)
qed

lemma codeMap_dom: "C = codeMap table n \<Longrightarrow> dom C = (\<lambda>s. codeBits (table ! s)) ` {0..<n}"
  by (induction n arbitrary: C) (auto simp: codeMap_def atLeastLessThanSuc)

lemma codeMap_code:
  assumes "\<And>i j. i < n \<Longrightarrow> j < n \<Longrightarrow> i \<noteq> j \<Longrightarrow> codeBits (table ! i) \<noteq> codeBits (table ! j)" "s < n"
  shows "codeMap table n (codeBits (table ! s)) = Some s"
  using assms
proof (induction n)
  case (Suc n)
  then show ?case by (cases "s = n") (auto simp: codeMap_Suc)
qed simp

section \<open>Decoding along codes\<close>

definition prefixFree :: "(bool list \<Rightarrow> nat option) \<Rightarrow> bool" where
  "prefixFree C \<longleftrightarrow> (\<forall>c \<in> dom C. \<forall>d \<in> dom C. prefix c d \<longrightarrow> c = d)"

lemma prefixFreeD: "prefixFree C \<Longrightarrow> c \<in> dom C \<Longrightarrow> d \<in> dom C \<Longrightarrow> prefix c d \<Longrightarrow> c = d"
  by (simp add: prefixFree_def)

lemma huffmanLoop_code:
  assumes rep: "represents tree C" and free: "prefixFree C"
    and w: "walk tree p = Some idx" and c: "C (p @ c) = Some s" "c \<noteq> []"
  shows "huffmanLoop tree (c @ rest) idx out =
    (if s = 256 then (True, out) else huffmanLoop tree rest 0 (out @ [of_nat s]))"
  using w c
proof (induction c arbitrary: p idx)
  case (Cons b c)
  have dom: "p @ b # c \<in> dom C" using Cons by blast
  have "prefix (p @ [b]) (p @ b # c)" by simp
  then have "walk tree (p @ [b]) \<noteq> None" using rep dom unfolding represents_def by blast
  then obtain i where i: "walk tree (p @ [b]) = Some i" by blast
  then have ch: "hn_child (tree ! idx) b = int i"
    using Cons by (auto simp: walk_snoc split: if_splits)
  have symb: "hn_symbol (tree ! i) = (case C (p @ [b]) of None \<Rightarrow> -1 | Some s \<Rightarrow> int s)"
    using rep i unfolding represents_def by blast
  show ?case
  proof (cases "c = []")
    case True
    then show ?thesis using Cons symb ch by simp
  next
    case False
    have "C (p @ [b]) = None"
    proof (rule ccontr)
      assume "C (p @ [b]) \<noteq> None"
      then have "p @ [b] = p @ b # c" using dom by (intro prefixFreeD [OF free]) (auto simp: dom_def)
      then show False using False by simp
    qed
    then have "huffmanLoop tree ((b # c) @ rest) idx out = huffmanLoop tree (c @ rest) i out"
      using symb ch by simp
    also have "\<dots> = (if s = 256 then (True, out) else huffmanLoop tree rest 0 (out @ [of_nat s]))"
      using Cons.prems False by (intro Cons.IH [OF i]) simp_all
    finally show ?thesis .
  qed
qed simp

lemma huffmanLoop_partial:
  assumes rep: "represents tree C" and w: "walk tree p = Some idx"
    and ext: "c \<in> dom C" "prefix (p @ pad) c" "p @ pad \<noteq> []"
    and none: "\<And>q. prefix q (p @ pad) \<Longrightarrow> C q = None"
  shows "huffmanLoop tree pad idx out = (False, out)"
  using w ext none
proof (induction pad arbitrary: p idx)
  case Nil
  then have "idx \<noteq> 0" using rep treeOk_inj [of tree p 0 "[]"] by (auto simp: represents_def)
  moreover have "hn_symbol (tree ! idx) = -1" using rep Nil by (simp add: represents_def)
  ultimately show ?case by simp
next
  case (Cons b pad)
  have "prefix (p @ [b]) c" using Cons by (metis append_Cons append_Nil append_assoc append_prefixD)
  then have "walk tree (p @ [b]) \<noteq> None" using rep Cons unfolding represents_def by blast
  then obtain i where i: "walk tree (p @ [b]) = Some i" by blast
  then have ch: "hn_child (tree ! idx) b = int i"
    using Cons by (auto simp: walk_snoc split: if_splits)
  have "C (p @ [b]) = None" using Cons by simp
  then have "hn_symbol (tree ! i) = -1" using rep i by (simp add: represents_def)
  then have "huffmanLoop tree (b # pad) idx out = huffmanLoop tree pad i out" using ch by simp
  also have "\<dots> = (False, out)" using Cons by (intro Cons.IH [OF i]) simp_all
  finally show ?case .
qed

section \<open>The table is a prefix code\<close>

datatype trie = Empty | Full | Fork trie trie

fun trieInsert :: "bool list \<Rightarrow> trie \<Rightarrow> trie option" where
  "trieInsert [] Empty = Some Full"
| "trieInsert [] _ = None"
| "trieInsert (b # bs) Full = None"
| "trieInsert (b # bs) Empty =
     (if b then map_option (\<lambda>r. Fork Empty r) (trieInsert bs Empty)
      else map_option (\<lambda>l. Fork l Empty) (trieInsert bs Empty))"
| "trieInsert (b # bs) (Fork l r) =
     (if b then map_option (\<lambda>r. Fork l r) (trieInsert bs r)
      else map_option (\<lambda>l. Fork l r) (trieInsert bs l))"

fun triePaths :: "trie \<Rightarrow> bool list set" where
  "triePaths Empty = {}"
| "triePaths Full = {[]}"
| "triePaths (Fork l r) = Cons False ` triePaths l \<union> Cons True ` triePaths r"

lemma trieInsert_spec:
  "trieInsert c t = Some t' \<Longrightarrow>
    triePaths t' = insert c (triePaths t) \<and> (\<forall>d \<in> triePaths t. \<not> prefix c d \<and> \<not> prefix d c)"
proof (induction c t arbitrary: t' rule: trieInsert.induct)
  case (4 b bs)
  then show ?case by (cases b) auto
next
  case (5 b bs l r)
  then show ?case by (cases b) (auto simp: image_iff)
qed auto

definition trieOf :: "bool list list \<Rightarrow> trie option" where
  "trieOf cs = foldr (\<lambda>c t. Option.bind t (trieInsert c)) cs (Some Empty)"

lemma trieOf_prefix_free:
  "trieOf cs = Some t \<Longrightarrow> triePaths t = set cs \<and> sorted_wrt (\<lambda>c d. \<not> prefix c d \<and> \<not> prefix d c) cs"
proof (induction cs arbitrary: t)
  case Nil
  then show ?case by (simp add: trieOf_def)
next
  case (Cons c cs)
  then obtain u where u: "trieOf cs = Some u" "trieInsert c u = Some t"
    by (auto simp: trieOf_def bind_eq_Some_conv)
  then show ?case using Cons.IH [OF u(1)] trieInsert_spec [OF u(2)] by auto
qed

lemma huffman_trie: "trieOf (map codeBits kHuffmanTable) \<noteq> None"
  by code_simp

lemma huffman_table_shape:
  "length kHuffmanTable = 257" "list_all (\<lambda>(c, n). 5 \<le> n \<and> n \<le> 30 \<and> unat c < 2 ^ n) kHuffmanTable"
  by (simp_all add: kHuffmanTable_def)

lemma huffman_eos: "codeBits (kHuffmanTable ! 256) = replicate 30 True"
  by (simp add: kHuffmanTable_def codeBits_def upt_rec) (simp add: numeral_eq_Suc)

lemma huffman_codes_free:
  assumes "i < 257" "j < 257" "i \<noteq> j"
  shows "\<not> prefix (codeBits (kHuffmanTable ! i)) (codeBits (kHuffmanTable ! j))"
proof -
  obtain t where "trieOf (map codeBits kHuffmanTable) = Some t" using huffman_trie by blast
  then have "sorted_wrt (\<lambda>c d. \<not> prefix c d \<and> \<not> prefix d c) (map codeBits kHuffmanTable)"
    by (simp add: trieOf_prefix_free)
  then show ?thesis
    using assms huffman_table_shape(1) by (cases "i < j") (auto simp: sorted_wrt_iff_nth_less not_less)
qed

lemma huffman_entry:
  assumes "i < 257" "kHuffmanTable ! i = (c, n)"
  shows "5 \<le> n" "n \<le> 30" "unat c < 2 ^ n"
  using huffman_table_shape assms by (auto simp: list_all_length)

section \<open>Encoding bit by bit\<close>

text \<open>The pending bits of the buffer.\<close>

definition pending :: "u64 \<Rightarrow> nat \<Rightarrow> bool list" where
  "pending buffer n = map (bit buffer) (rev [0..<n])"

lemma pending_split: "k \<le> n \<Longrightarrow> pending buffer n = map (bit buffer) (rev [k..<n]) @ pending buffer k"
  unfolding pending_def using upt_add_eq_append [of 0 k "n - k"] by simp

lemma ff_mask: "(0xff :: u64) = mask 8"
  by (simp add: mask_eq_exp_minus_1)

lemma byteBits_drop:
  assumes "n \<le> 56"
  shows "byteBits (ucast (drop_bit n buffer AND 0xff)) = map (bit (buffer :: u64)) (rev [n..<n + 8])"
proof -
  have "bit (ucast (drop_bit n buffer AND 0xff) :: byte) i = bit buffer (n + i)" if "i < 8" for i
    using that assms by (simp add: ff_mask bit_simps)
  then show ?thesis
    unfolding byteBits_def by (intro nth_equalityI) (simp_all add: rev_nth)
qed

lemma drainBits_spec:
  assumes "n \<le> 64" "drainBits buffer n = (out, r)"
  shows "concat (map byteBits out) @ pending buffer r = pending buffer n \<and> r < 8 \<and> n = 8 * length out + r"
  using assms
proof (induction buffer n arbitrary: out r rule: drainBits.induct)
  case (1 buffer n)
  show ?case
  proof (cases "n \<ge> 8")
    case True
    obtain o' r' where rec: "drainBits buffer (n - 8) = (o', r')" by force
    then have eq: "out = ucast (drop_bit (n - 8) buffer AND 0xff) # o'" "r = r'"
      using True 1(3) by (simp_all add: drainBits.simps [of buffer n])
    have IH: "concat (map byteBits o') @ pending buffer r' = pending buffer (n - 8)" "r' < 8" "n - 8 = 8 * length o' + r'"
      using 1(1) [OF True _ rec] 1(2) by auto
    have "byteBits (ucast (drop_bit (n - 8) buffer AND 0xff)) = map (bit buffer) (rev [n - 8..<n])"
      using byteBits_drop [of "n - 8" buffer] True 1(2) by simp
    then show ?thesis using IH True pending_split [of "n - 8" n buffer] by (simp add: eq)
  next
    case False
    then show ?thesis using 1(3) by (simp add: drainBits.simps [of buffer n])
  qed
qed

lemma codeBits_length [simp]: "length (codeBits c) = snd c"
  by (simp add: codeBits_def)

lemma pending_push:
  assumes "unat c < 2 ^ n" "k + n \<le> 64"
  shows "pending (push_bit n buffer OR ucast c) (k + n) = pending buffer k @ codeBits (c, n)"
proof -
  define b where "b = (push_bit n buffer OR ucast c :: u64)"
  have "take_bit n c = c"
    using assms(1) by (simp add: word_unat_eq_iff unsigned_take_bit_eq take_bit_nat_eq_self)
  then have hi: "\<not> bit c i" if "n \<le> i" for i using that by (metis bit_take_bit_iff not_le)
  have hib: "bit b i = bit buffer (i - n)" if "n \<le> i" "i < k + n" for i
    using that assms(2) hi [OF that(1)] by (simp add: b_def bit_simps)
  have lo: "bit b i = bit c i" if "i < n" for i
    using that assms(2) by (auto simp: b_def bit_simps dest: bit_imp_le_length)
  have "map (bit b) (rev [n..<k + n]) = pending buffer k"
    using hib unfolding pending_def by (intro nth_equalityI) (simp_all add: rev_nth)
  moreover have "pending b n = codeBits (c, n)"
    unfolding pending_def codeBits_def using lo by (auto simp: rev_map [symmetric])
  ultimately show ?thesis using pending_split [of n "k + n" b] by (simp add: b_def)
qed

definition huffmanCodes :: "bytes \<Rightarrow> bool list" where
  "huffmanCodes xs = concat (map (\<lambda>ch. codeBits (kHuffmanTable ! unat ch)) xs)"

lemma unat_byte: "unat (ch :: byte) < 256"
proof -
  have "unat ch < 2 ^ LENGTH(8)" by (rule unsigned_less)
  then show ?thesis by simp
qed

lemma huffmanSteps_spec:
  "foldl huffmanStep ([], 0, 0) xs = (out, buffer, bits) \<Longrightarrow>
    bits < 8 \<and> concat (map byteBits out) @ pending buffer bits = huffmanCodes xs"
proof (induction xs arbitrary: out buffer bits rule: rev_induct)
  case Nil
  then show ?case by (simp add: pending_def huffmanCodes_def)
next
  case (snoc ch xs)
  obtain o1 b1 k1 where st: "foldl huffmanStep ([], 0, 0) xs = (o1, b1, k1)" by (metis prod_cases3)
  note IH = snoc.IH [OF st]
  obtain c n where cn: "kHuffmanTable ! unat ch = (c, n)" by force
  have e: "5 \<le> n" "n \<le> 30" "unat c < 2 ^ n"
    using huffman_entry [OF _ cn] unat_byte [of ch] by simp_all
  define b where "b = (push_bit n b1 OR ucast c :: u64)"
  obtain more k where dr: "drainBits b (k1 + n) = (more, k)" by force
  have "huffmanStep (o1, b1, k1) ch = (o1 @ more, b, k)"
    by (simp add: huffmanStep_def cn b_def [symmetric] dr)
  then have res: "out = o1 @ more" "buffer = b" "bits = k" using snoc.prems st by simp_all
  have d: "concat (map byteBits more) @ pending b k = pending b (k1 + n)" "k < 8"
    using drainBits_spec [OF _ dr] IH e by auto
  have "pending b (k1 + n) = pending b1 k1 @ codeBits (c, n)"
    unfolding b_def using e IH by (intro pending_push) simp_all
  then show ?case using IH d by (simp add: res huffmanCodes_def cn)
qed

lemma byteBits_pad:
  assumes "0 < k" "k < 8"
  shows "byteBits (ucast ((push_bit (8 - k) buffer OR drop_bit k 0xff) AND 0xff))
    = pending buffer k @ replicate (8 - k) True"
proof -
  define w :: byte where "w = ucast ((push_bit (8 - k) buffer OR drop_bit k 0xff) AND 0xff)"
  have "bit w i = (if i < 8 - k then True else bit buffer (i - (8 - k)))" if "i < 8" for i
    using that assms by (auto simp: w_def ff_mask bit_simps)
  then show ?thesis
    unfolding byteBits_def pending_def w_def [symmetric] using assms
    by (intro nth_equalityI) (auto simp: rev_nth nth_append)
qed

lemma huffmanEncode_bits:
  "\<exists>k < 8. concat (map byteBits (huffmanEncode xs)) = huffmanCodes xs @ replicate k True
    \<and> 8 dvd length (huffmanCodes xs) + k"
proof -
  obtain out buffer bits where st: "foldl huffmanStep ([], 0, 0) xs = (out, buffer, bits)" by (metis prod_cases3)
  note spec = huffmanSteps_spec [OF st]
  have bl: "length (concat (map byteBits ys)) = 8 * length ys" for ys
    by (induction ys) (simp_all add: byteBits_def)
  have len: "length (huffmanCodes xs) = 8 * length out + bits"
    using spec bl [of out] by (metis length_append length_map length_rev length_upt minus_nat.diff_0 pending_def)
  show ?thesis
  proof (cases "bits = 0")
    case True
    then show ?thesis using spec len by (intro exI [of _ 0]) (simp add: huffmanEncode_def st pending_def)
  next
    case False
    have "concat (map byteBits (huffmanEncode xs)) = huffmanCodes xs @ replicate (8 - bits) True"
      using False spec byteBits_pad [of bits buffer] by (simp add: huffmanEncode_def st)
    moreover have "8 dvd length (huffmanCodes xs) + (8 - bits)"
    proof -
      have "length (huffmanCodes xs) + (8 - bits) = 8 * (length out + 1)" using spec len by simp
      then show ?thesis by (metis dvd_triv_left)
    qed
    ultimately show ?thesis using False spec by (intro exI [of _ "8 - bits"]) simp
  qed
qed

section \<open>Decoding what was encoded\<close>

lemma huffman_represents: "represents buildHuffmanTree (codeMap kHuffmanTable 257)"
  unfolding buildHuffmanTree_def by (rule represents_build)

lemma huffman_map_code: "i < 257 \<Longrightarrow> codeMap kHuffmanTable 257 (codeBits (kHuffmanTable ! i)) = Some i"
  using huffman_codes_free by (intro codeMap_code) (metis prefix_order.refl)+

lemma huffman_map_free: "prefixFree (codeMap kHuffmanTable 257)"
  unfolding prefixFree_def
proof (intro ballI impI)
  fix c d
  assume assms: "c \<in> dom (codeMap kHuffmanTable 257)" "d \<in> dom (codeMap kHuffmanTable 257)" "prefix c d"
  then obtain i j where "i < 257" "c = codeBits (kHuffmanTable ! i)" "j < 257" "d = codeBits (kHuffmanTable ! j)"
    using assms(1,2) unfolding codeMap_dom [OF refl] by auto
  then show "c = d" using huffman_codes_free [of i j] assms(3) by (cases "i = j") auto
qed

lemma huffmanLoop_codes:
  "huffmanLoop buildHuffmanTree (huffmanCodes xs @ rest) 0 out = huffmanLoop buildHuffmanTree rest 0 (out @ xs)"
proof (induction xs arbitrary: out)
  case (Cons ch xs)
  define c where "c = codeBits (kHuffmanTable ! unat ch)"
  have u: "unat ch < 257" "unat ch \<noteq> 256" using unat_byte [of ch] by simp_all
  have C: "codeMap kHuffmanTable 257 ([] @ c) = Some (unat ch)"
    using huffman_map_code [OF u(1)] by (simp add: c_def)
  have "0 < length c" using huffman_entry(1) [OF u(1), of "fst (kHuffmanTable ! unat ch)" "snd (kHuffmanTable ! unat ch)"]
    by (simp add: c_def)
  then have ne: "c \<noteq> []" by auto
  have "walk buildHuffmanTree [] = Some 0" by simp
  from huffmanLoop_code [OF huffman_represents huffman_map_free this C ne, of "huffmanCodes xs @ rest" out]
  have "huffmanLoop buildHuffmanTree (c @ huffmanCodes xs @ rest) 0 out
    = huffmanLoop buildHuffmanTree (huffmanCodes xs @ rest) 0 (out @ [of_nat (unat ch)])"
    by (simp only: u(2) if_False)
  also have "\<dots> = huffmanLoop buildHuffmanTree rest 0 ((out @ [of_nat (unat ch)]) @ xs)" by (rule Cons)
  finally show ?case by (simp add: huffmanCodes_def c_def [symmetric])
qed (simp add: huffmanCodes_def)

lemma huffmanLoop_pad:
  assumes "0 < k" "k < 8"
  shows "huffmanLoop buildHuffmanTree (replicate k True) 0 out = (False, out)"
proof (rule huffmanLoop_partial [OF huffman_represents, where p = "[]"])
  show dom: "replicate 30 True \<in> dom (codeMap kHuffmanTable 257)"
    using huffman_map_code [of 256] by (auto simp: huffman_eos)
  have pre: "prefix (replicate k True) (replicate 30 True)"
    using assms replicate_add [of k "30 - k" True] by simp
  then show "prefix ([] @ replicate k True) (replicate 30 True)" by simp
  show "codeMap kHuffmanTable 257 q = None" if "prefix q ([] @ replicate k True)" for q
  proof (rule ccontr)
    assume "codeMap kHuffmanTable 257 q \<noteq> None"
    then have "q = replicate 30 True"
      using that pre dom by (intro prefixFreeD [OF huffman_map_free]) (auto intro: prefix_order.trans)
    then show False using that assms prefix_length_le by fastforce
  qed
qed (use assms in auto)

lemma huffmanDecode_encode:
  "huffmanDecode (huffmanEncode xs) = (8 dvd length (huffmanCodes xs), xs)"
proof -
  obtain k where k: "k < 8" "concat (map byteBits (huffmanEncode xs)) = huffmanCodes xs @ replicate k True"
    "8 dvd length (huffmanCodes xs) + k"
    using huffmanEncode_bits by blast
  then have dec: "huffmanDecode (huffmanEncode xs) = huffmanLoop buildHuffmanTree (replicate k True) 0 xs"
    using huffmanLoop_codes [of xs "replicate k True" "[]"] by (simp add: huffmanDecode_def)
  show ?thesis
  proof (cases "k = 0")
    case True
    then show ?thesis using dec k by simp
  next
    case False
    then have "\<not> 8 dvd length (huffmanCodes xs)"
      using k(1,3) by (metis dvd_add_right_iff nat_dvd_not_less gr0I)
    then show ?thesis using dec huffmanLoop_pad [of k xs] False k(1) by simp
  qed
qed

text \<open>
  The smallest instance: the one-byte string \<open>a\<close>, whose code has five bits, is encoded by
  \<open>huffmanEncode\<close> and then rejected by \<open>huffmanDecode\<close>.
\<close>

lemma huffman_rejects_padding:
  "huffmanEncode [97] = [0x1f] \<and> huffmanDecode [0x1f] = (False, [97])"
proof -
  have t: "kHuffmanTable ! 97 = (0x3, 5)" by (simp add: kHuffmanTable_def)
  have e: "huffmanEncode [97] = [0x1f]"
    by (simp add: huffmanEncode_def huffmanStep_def t drainBits.simps)
  have "length (huffmanCodes [97]) = 5" by (simp add: huffmanCodes_def t)
  then show ?thesis using huffmanDecode_encode [of "[97]"] e by simp
qed

section \<open>Properties\<close>

text \<open>
  C11.  \<open>huffmanDecode\<close> applied to the output of \<open>huffmanEncode\<close> recovers every byte of the
  string, but reports success only when the codes fill whole bytes: as soon as the last
  byte carries padding, which RFC 7541 prescribes, the decoder is left inside the tree
  and the string is rejected.
\<close>

theorem huffman_roundtrip:
  "huffmanDecode (huffmanEncode xs) = (8 dvd length (huffmanCodes xs), xs)"
  by (rule huffmanDecode_encode)

end
