(* ===== verification/Hpack.thy ===== *)
theory Hpack
  imports Hpack_Huffman
begin

unbundle bit_operations_syntax

text \<open>
  Header compression, the rest of \<open>src/hpack.cpp\<close>: the integer and string codings, the static
  table, and \<open>HpackEncoder\<close> and \<open>HpackDecoder\<close> with their dynamic tables.  Strings are byte
  lists; sizes that the source keeps in \<open>uint32_t\<close> are 32-bit words.
\<close>

section \<open>Integers and strings\<close>

text \<open>\<open>while (value >= 128) { push (value & 0x7f) | 0x80; value >>= 7; } push value\<close>\<close>

function encodeTail :: "u32 \<Rightarrow> bytes" where
  "encodeTail value =
     (if value \<ge> 128 then ucast ((value AND 0x7f) OR 0x80) # encodeTail (drop_bit 7 value)
      else [ucast value])"
  by auto
termination
proof (relation "measure unat", goal_cases)
  case (2 val)
  then have "unat val div 2 ^ 7 < unat val" by (intro div_less_dividend) (auto simp: word_le_nat_alt)
  then show ?case by (simp add: drop_bit_eq_div unat_div)
qed simp

declare encodeTail.simps [simp del]

definition encodeInteger :: "u32 \<Rightarrow> nat \<Rightarrow> byte \<Rightarrow> bytes" where
  "encodeInteger value prefixBits firstByte =
     (let maxPrefix = push_bit prefixBits 1 - 1 in
      if value < maxPrefix then [firstByte OR ucast value]
      else (firstByte OR ucast maxPrefix) # encodeTail (value - maxPrefix))"

text \<open>The continuation loop of \<open>decodeInteger\<close>; \<open>v\<close> wraps at 32 bits as in the source.\<close>

fun decodeTail :: "bytes \<Rightarrow> u32 \<Rightarrow> nat \<Rightarrow> (u32 \<times> bytes) option" where
  "decodeTail [] v m = None"
| "decodeTail (b # bs) v m =
     (let v = v + push_bit m (ucast (b AND 0x7f)); m = m + 7
      in if b AND 0x80 = 0 then Some (v, bs)
         else if m > 28 then None
         else decodeTail bs v m)"

definition decodeInteger :: "nat \<Rightarrow> u32 parser" where
  "decodeInteger prefixBits data =
     (case data of [] \<Rightarrow> None
      | b # bs \<Rightarrow>
        let maxPrefix = push_bit prefixBits 1 - 1; v = ucast b AND maxPrefix
        in if v < maxPrefix then Some (v, bs) else decodeTail bs v 0)"

definition decodeString :: "bytes parser" where
  "decodeString data =
     (case data of [] \<Rightarrow> None
      | b # _ \<Rightarrow> do {
          (len, rest) \<leftarrow> decodeInteger 7 data;
          if unat len > length rest then None
          else
            let raw = take (unat len) rest; rest = drop (unat len) rest
            in if b AND 0x80 \<noteq> 0
               then (case huffmanDecode raw of (ok, out) \<Rightarrow> if ok then Some (out, rest) else None)
               else Some (raw, rest) })"

definition encodeString :: "bytes \<Rightarrow> bool \<Rightarrow> bytes" where
  "encodeString value useHuffman =
     (if useHuffman then
        let encoded = huffmanEncode value in encodeInteger (of_nat (length encoded)) 7 0x80 @ encoded
      else encodeInteger (of_nat (length value)) 7 0 @ value)"

section \<open>Tables\<close>

type_synonym header = "bytes \<times> bytes"

definition kStaticTable :: "header list" where
  "kStaticTable = map (\<lambda>(n, v). (asciiBytes n, asciiBytes v)) [
     ('':authority'', ''''),
     ('':method'', ''GET''),
     ('':method'', ''POST''),
     ('':path'', ''/''),
     ('':path'', ''/index.html''),
     ('':scheme'', ''http''),
     ('':scheme'', ''https''),
     ('':status'', ''200''),
     ('':status'', ''204''),
     ('':status'', ''206''),
     ('':status'', ''304''),
     ('':status'', ''400''),
     ('':status'', ''404''),
     ('':status'', ''500''),
     (''accept-charset'', ''''),
     (''accept-encoding'', ''gzip, deflate''),
     (''accept-language'', ''''),
     (''accept-ranges'', ''''),
     (''accept'', ''''),
     (''access-control-allow-origin'', ''''),
     (''age'', ''''),
     (''allow'', ''''),
     (''authorization'', ''''),
     (''cache-control'', ''''),
     (''content-disposition'', ''''),
     (''content-encoding'', ''''),
     (''content-language'', ''''),
     (''content-length'', ''''),
     (''content-location'', ''''),
     (''content-range'', ''''),
     (''content-type'', ''''),
     (''cookie'', ''''),
     (''date'', ''''),
     (''etag'', ''''),
     (''expect'', ''''),
     (''expires'', ''''),
     (''from'', ''''),
     (''host'', ''''),
     (''if-match'', ''''),
     (''if-modified-since'', ''''),
     (''if-none-match'', ''''),
     (''if-range'', ''''),
     (''if-unmodified-since'', ''''),
     (''last-modified'', ''''),
     (''link'', ''''),
     (''location'', ''''),
     (''max-forwards'', ''''),
     (''proxy-authenticate'', ''''),
     (''proxy-authorization'', ''''),
     (''range'', ''''),
     (''referer'', ''''),
     (''refresh'', ''''),
     (''retry-after'', ''''),
     (''server'', ''''),
     (''set-cookie'', ''''),
     (''strict-transport-security'', ''''),
     (''transfer-encoding'', ''''),
     (''user-agent'', ''''),
     (''vary'', ''''),
     (''via'', ''''),
     (''www-authenticate'', '''')]"

definition entrySize :: "header \<Rightarrow> u32" where
  "entrySize h = of_nat (length (fst h) + length (snd h) + 32)"

text \<open>\<open>c_str()\<close>: \<open>strcmp\<close> sees a string up to its first zero byte.\<close>

definition c_str :: "bytes \<Rightarrow> bytes" where
  "c_str s = takeWhile (\<lambda>b. b \<noteq> 0) s"

text \<open>The loop of \<open>findStaticIndex\<close> from entry \<open>i\<close> on; the result is the index and \<open>*nameOnly\<close>.\<close>

fun findFrom :: "header list \<Rightarrow> nat \<Rightarrow> nat option \<Rightarrow> header \<Rightarrow> (nat \<times> bool) option" where
  "findFrom [] i nameIndex h = map_option (\<lambda>n. (n, True)) nameIndex"
| "findFrom (e # es) i nameIndex h =
     (if fst e = c_str (fst h) then
        if snd e = c_str (snd h) then Some (i + 1, False)
        else findFrom es (i + 1) (case nameIndex of None \<Rightarrow> Some (i + 1) | Some n \<Rightarrow> Some n) h
      else findFrom es (i + 1) nameIndex h)"

definition findStaticIndex :: "header \<Rightarrow> (nat \<times> bool) option" where
  "findStaticIndex h = findFrom kStaticTable 0 None h"

record HpackTable =
  dynamicTable :: "header list"
  maxDynamicTableSize :: u32
  dynamicTableSize :: u32

definition newTable :: HpackTable where
  "newTable = \<lparr> dynamicTable = [], maxDynamicTableSize = 4096, dynamicTableSize = 0 \<rparr>"

function evict :: "HpackTable \<Rightarrow> HpackTable" where
  "evict t =
     (if dynamicTableSize t > maxDynamicTableSize t \<and> dynamicTable t \<noteq> [] then
        evict (t\<lparr> dynamicTableSize := dynamicTableSize t - entrySize (last (dynamicTable t)),
                  dynamicTable := butlast (dynamicTable t) \<rparr>)
      else t)"
  by auto
termination
  by (relation "measure (\<lambda>t. length (dynamicTable t))") auto

declare evict.simps [simp del]

definition setMaxDynamicTableSize :: "HpackTable \<Rightarrow> u32 \<Rightarrow> HpackTable" where
  "setMaxDynamicTableSize t sz = evict (t\<lparr> maxDynamicTableSize := sz \<rparr>)"

definition addToDynamicTable :: "HpackTable \<Rightarrow> header \<Rightarrow> HpackTable" where
  "addToDynamicTable t h =
     (let sz = entrySize h in
      if sz > maxDynamicTableSize t then t\<lparr> dynamicTable := [], dynamicTableSize := 0 \<rparr>
      else evict (t\<lparr> dynamicTable := h # dynamicTable t, dynamicTableSize := dynamicTableSize t + sz \<rparr>))"

definition lookup :: "HpackTable \<Rightarrow> u32 \<Rightarrow> header option" where
  "lookup t index =
     (if index = 0 then None
      else if unat index \<le> length kStaticTable then Some (kStaticTable ! (unat index - 1))
      else
        let dynIndex = index - of_nat (length kStaticTable) - 1
        in if unat dynIndex \<ge> length (dynamicTable t) then None
           else Some (dynamicTable t ! unat dynIndex))"

section \<open>Encoder and decoder\<close>

definition encodeHeader :: "HpackTable \<Rightarrow> header \<Rightarrow> bytes \<times> HpackTable" where
  "encodeHeader t h =
     (case findStaticIndex h of
        Some (i, False) \<Rightarrow> (encodeInteger (of_nat i) 7 0x80, t)
      | Some (i, True) \<Rightarrow> (encodeInteger (of_nat i) 6 0x40 @ encodeString (snd h) False, addToDynamicTable t h)
      | None \<Rightarrow> (0x40 # encodeString (fst h) False @ encodeString (snd h) False, addToDynamicTable t h))"

fun hpackEncode :: "HpackTable \<Rightarrow> header list \<Rightarrow> bytes \<times> HpackTable" where
  "hpackEncode t [] = ([], t)"
| "hpackEncode t (h # hs) =
     (let (out, t) = encodeHeader t h; (more, t) = hpackEncode t hs in (out @ more, t))"

text \<open>
  The name of a literal: a string, or the name of an indexed entry; then the value.
\<close>

definition decodeLiteral :: "HpackTable \<Rightarrow> nat \<Rightarrow> header parser" where
  "decodeLiteral t prefixBits data = do {
     (index, data) \<leftarrow> decodeInteger prefixBits data;
     (name, data) \<leftarrow> (if index = 0 then decodeString data
       else map_option (\<lambda>h. (fst h, data)) (lookup t index));
     (value, data) \<leftarrow> decodeString data;
     Some ((name, value), data) }"

text \<open>
  One iteration of \<open>HpackDecoder::decode\<close>: the table, the header produced (none for a size
  update) and the rest of the input, or the failure, with whether the headers decoded so far
  are cleared.
\<close>

datatype hpackStep = HpackFail bool | HpackNext HpackTable "header option" bytes

definition decodeStep :: "HpackTable \<Rightarrow> bytes \<Rightarrow> hpackStep" where
  "decodeStep t data =
     (let b = hd data in
      if b AND 0x80 \<noteq> 0 then
        (case decodeInteger 7 data of None \<Rightarrow> HpackFail True
         | Some (index, rest) \<Rightarrow> (case lookup t index of None \<Rightarrow> HpackFail True
           | Some h \<Rightarrow> HpackNext t (Some h) rest))
      else if b AND 0xc0 = 0x40 then
        (case decodeLiteral t 6 data of None \<Rightarrow> HpackFail False
         | Some (h, rest) \<Rightarrow> HpackNext (addToDynamicTable t h) (Some h) rest)
      else if b AND 0xe0 = 0x20 then
        (case decodeInteger 5 data of None \<Rightarrow> HpackFail False
         | Some (sz, rest) \<Rightarrow> HpackNext (setMaxDynamicTableSize t sz) None rest)
      else
        (case decodeLiteral t 4 data of None \<Rightarrow> HpackFail False
         | Some (h, rest) \<Rightarrow> HpackNext t (Some h) rest))"

section \<open>The parsers consume what they read\<close>

interpretation decodeTail_parser: prefix_parser "\<lambda>bs. decodeTail bs v m" for v m
proof
  show "decodeTail bs v m = Some (w, rest) \<Longrightarrow> \<exists>pre. pre \<noteq> [] \<and> bs = pre @ rest" for bs w rest
  proof (induction bs arbitrary: v m)
    case (Cons b bs)
    show ?case
    proof (cases "b AND 0x80 = 0")
      case True
      then show ?thesis using Cons by (intro exI [of _ "[b]"]) (simp add: Let_def)
    next
      case False
      then have "decodeTail bs (v + push_bit m (ucast (b AND 0x7f))) (m + 7) = Some (w, rest)"
        using Cons.prems by (simp add: Let_def split: if_splits)
      then obtain pre where "bs = pre @ rest" using Cons.IH by blast
      then show ?thesis by (intro exI [of _ "b # pre"]) simp
    qed
  qed simp
qed

interpretation decodeInteger_parser: prefix_parser "decodeInteger k" for k
proof
  show "\<exists>pre. pre \<noteq> [] \<and> bs = pre @ rest" if r: "decodeInteger k bs = Some (w, rest)" for bs w rest
  proof (cases bs)
    case (Cons b cs)
    then consider "rest = cs" | v where "decodeTail cs v 0 = Some (w, rest)"
      using r by (auto simp: decodeInteger_def Let_def split: if_splits)
    then have "\<exists>pre. cs = pre @ rest"
      by cases (auto dest: decodeTail_parser.reads_prefix)
    then show ?thesis using Cons by (metis append_Cons list.distinct(1))
  qed (use r in \<open>simp add: decodeInteger_def\<close>)
qed

interpretation decodeString_parser: prefix_parser decodeString
proof
  show "\<exists>pre. pre \<noteq> [] \<and> bs = pre @ rest" if r: "decodeString bs = Some (w, rest)" for bs w rest
  proof -
    obtain len mid where "decodeInteger 7 bs = Some (len, mid)" "rest = drop (unat len) mid"
      using r by (auto simp: decodeString_def bind_eq_Some_conv Let_def split: list.splits if_splits prod.splits)
    moreover from this obtain pre where "pre \<noteq> []" "bs = pre @ mid" using decodeInteger_parser.reads_prefix by blast
    ultimately show ?thesis
      by (intro exI [of _ "pre @ take (unat len) mid"]) simp
  qed
qed

interpretation decodeLiteral_parser: prefix_parser "decodeLiteral t k" for t k
proof
  show "\<exists>pre. pre \<noteq> [] \<and> bs = pre @ rest" if r: "decodeLiteral t k bs = Some (w, rest)" for bs w rest
  proof -
    obtain index b1 b2 name val where
      1: "decodeInteger k bs = Some (index, b1)"
      and 2: "(if index = 0 then decodeString b1 else map_option (\<lambda>h. (fst h, b1)) (lookup t index)) = Some (name, b2)"
      and 3: "decodeString b2 = Some (val, rest)"
      using r by (auto simp: decodeLiteral_def bind_eq_Some_conv)
    obtain p1 where p1: "p1 \<noteq> []" "bs = p1 @ b1" using 1 decodeInteger_parser.reads_prefix by blast
    obtain p2 where p2: "b1 = p2 @ b2"
      using 2 decodeString_parser.reads_prefix [of b1 name b2] by (cases "index = 0") auto
    obtain p3 where p3: "b2 = p3 @ rest" using 3 decodeString_parser.reads_prefix by blast
    show ?thesis using p1 p2 p3 by (intro exI [of _ "p1 @ p2 @ p3"]) simp
  qed
qed

lemma decodeStep_shorter:
  assumes "decodeStep t data = HpackNext t' h rest" shows "length rest < length data"
  using assms decodeInteger_parser.shorter decodeLiteral_parser.shorter
  by (auto simp: decodeStep_def Let_def split: if_splits option.splits prod.splits)

text \<open>The loop of \<open>HpackDecoder::decode\<close>: return value, \<open>*headers\<close> and table.\<close>

function decodeLoop :: "HpackTable \<Rightarrow> bytes \<Rightarrow> header list \<Rightarrow> bool \<times> header list \<times> HpackTable" where
  "decodeLoop t data headers =
     (if data = [] then (True, headers, t)
      else case decodeStep t data of
          HpackFail clear \<Rightarrow> (False, if clear then [] else headers, t)
        | HpackNext t' h rest \<Rightarrow> decodeLoop t' rest (headers @ (case h of None \<Rightarrow> [] | Some h \<Rightarrow> [h])))"
  by auto
termination
  by (relation "measure (\<lambda>(t, data, hs). length data)") (auto dest: decodeStep_shorter)

declare decodeLoop.simps [simp del]

definition hpackDecode :: "HpackTable \<Rightarrow> bytes \<Rightarrow> bool \<times> header list \<times> HpackTable" where
  "hpackDecode t data = decodeLoop t data []"

section \<open>Round trips of integers and strings\<close>

lemma tail_byte:
  fixes w :: u32
  shows "ucast ((ucast ((w AND 0x7f) OR 0x80) :: byte) AND 0x7f) = take_bit 7 w"
    and "(ucast ((w AND 0x7f) OR 0x80) :: byte) AND 0x80 \<noteq> 0"
proof -
  have m: "(0x7f :: u32) = mask 7" "(0x7f :: byte) = mask 7" by (simp_all add: mask_eq_exp_minus_1)
  show "ucast ((ucast ((w AND 0x7f) OR 0x80) :: byte) AND 0x7f) = take_bit 7 w"
    unfolding m by (rule bit_eqI) (auto simp: bit_simps bit_const)
  have "bit (ucast ((w AND 0x7f) OR 0x80) :: byte) 7" by (simp add: bit_simps bit_const)
  then show "(ucast ((w AND 0x7f) OR 0x80) :: byte) AND 0x80 \<noteq> 0" by (simp add: high_bit)
qed

lemma decodeTail_encode:
  assumes "unat w < 2 ^ (35 - m)" "7 dvd m" "m \<le> 28"
  shows "decodeTail (encodeTail w @ rest) v m = Some (v + push_bit m w, rest)"
  using assms
proof (induction w arbitrary: v m rule: encodeTail.induct)
  case (1 w)
  show ?case
  proof (cases "w \<ge> 128")
    case True
    then have u: "128 \<le> unat w" by (simp add: word_le_nat_alt)
    have m: "m \<le> 21"
    proof (rule ccontr)
      assume "\<not> m \<le> 21"
      then have "m = 28" using 1(3,4) by presburger
      then show False using 1(2) u by simp
    qed
    have "35 - m = 35 - (m + 7) + 7" using m by simp
    then have "(2 :: nat) ^ (35 - m) = 2 ^ (35 - (m + 7)) * 2 ^ 7" by (metis power_add)
    then have lt: "unat (drop_bit 7 w) < 2 ^ (35 - (m + 7))"
      using 1(2) by (simp add: drop_bit_eq_div unat_div less_mult_imp_div_less)
    have "decodeTail (encodeTail w @ rest) v m
      = decodeTail (encodeTail (drop_bit 7 w) @ rest) (v + push_bit m (take_bit 7 w)) (m + 7)"
      using True m tail_byte [of w] by (subst encodeTail.simps) simp
    also have "\<dots> = Some (v + push_bit m (take_bit 7 w) + push_bit (m + 7) (drop_bit 7 w), rest)"
      using 1 m lt True by (intro 1(1)) simp_all
    also have "push_bit m (take_bit 7 w) + push_bit (m + 7) (drop_bit 7 w) = push_bit m w"
    proof -
      have "push_bit (m + 7) (drop_bit 7 w) = push_bit m (push_bit 7 (drop_bit 7 w))" by (simp add: push_bit_push_bit)
      then have "push_bit m (take_bit 7 w) + push_bit (m + 7) (drop_bit 7 w)
        = push_bit m (push_bit 7 (drop_bit 7 w) + take_bit 7 w)"
        by (simp only: push_bit_add add.commute)
      then show ?thesis by (simp only: bits_ident)
    qed
    then have "v + push_bit m (take_bit 7 w) + push_bit (m + 7) (drop_bit 7 w) = v + push_bit m w"
      by (simp only: add.assoc)
    finally show ?thesis .
  next
    case False
    then have u: "unat w < 128" by (simp add: word_le_nat_alt not_le)
    then have t: "take_bit 7 w = w"
      by (simp add: word_unat_eq_iff unsigned_take_bit_eq take_bit_nat_eq_self)
    then have b: "bit w i \<Longrightarrow> i < 7" for i by (metis bit_take_bit_iff)
    have m7: "(0x7f :: byte) = mask 7" by (simp add: mask_eq_exp_minus_1)
    have "(ucast ((ucast w :: byte) AND 0x7f) :: u32) = w"
      unfolding m7 by (rule bit_eqI) (auto simp: bit_simps dest: b)
    moreover have "(ucast w :: byte) AND 0x80 = 0"
      using high_bit [of "ucast w"] by (auto simp: bit_simps dest: b)
    ultimately show ?thesis using False by (subst encodeTail.simps) (simp add: Let_def)
  qed
qed

text \<open>The first byte of a coded integer keeps the pattern above the prefix.\<close>

lemma prefix_byte:
  fixes fb :: byte
  assumes "k \<le> 7" "take_bit k fb = 0" "unat v < 2 ^ k"
  shows "ucast (fb OR ucast v) AND (push_bit k 1 - 1 :: u32) = v" "drop_bit k (fb OR ucast v) = drop_bit k fb"
proof -
  have m: "(push_bit k 1 - 1 :: u32) = mask k" by (simp add: mask_eq_exp_minus_1 push_bit_of_1)
  have t: "take_bit k v = v"
    using assms(3) by (simp add: word_unat_eq_iff unsigned_take_bit_eq take_bit_nat_eq_self)
  then have b: "bit v i \<Longrightarrow> i < k" for i by (metis bit_take_bit_iff)
  have z: "i < k \<Longrightarrow> \<not> bit fb i" for i using assms(2) by (metis bit_0_eq bit_take_bit_iff bot_apply bot_bool_def)
  show "ucast (fb OR ucast v) AND (push_bit k 1 - 1 :: u32) = v"
    unfolding m by (rule bit_eqI) (use assms(1) in \<open>auto simp: bit_simps dest: b z\<close>)
  show "drop_bit k (fb OR ucast v) = drop_bit k fb"
    by (rule bit_eqI) (use assms(1) in \<open>auto simp: bit_simps dest: b\<close>)
qed

lemma maxPrefix_unat:
  assumes "k \<le> 7" shows "unat (push_bit k 1 - 1 :: u32) = 2 ^ k - 1"
proof -
  have "k = 0 \<or> k = 1 \<or> k = 2 \<or> k = 3 \<or> k = 4 \<or> k = 5 \<or> k = 6 \<or> k = 7" using assms by linarith
  then show ?thesis by (elim disjE) simp_all
qed

lemma decodeInteger_encode:
  assumes "k \<le> 7" "take_bit k fb = 0"
  shows "decodeInteger k (encodeInteger v k fb @ rest) = Some (v, rest)"
proof -
  define mp :: u32 where "mp = push_bit k 1 - 1"
  have mp: "unat mp = 2 ^ k - 1" unfolding mp_def by (rule maxPrefix_unat [OF assms(1)])
  have pk: "2 ^ k - 1 < (2 :: nat) ^ k" by simp
  show ?thesis
  proof (cases "v < mp")
    case True
    then have "unat v < 2 ^ k" using mp pk by (simp add: word_less_nat_alt)
    then have "ucast (fb OR ucast v) AND mp = v" unfolding mp_def by (rule prefix_byte [OF assms])
    then show ?thesis using True unfolding encodeInteger_def decodeInteger_def Let_def mp_def [symmetric] by simp
  next
    case False
    have "unat mp < 2 ^ k" using mp pk by simp
    then have head: "ucast (fb OR ucast mp) AND mp = mp" unfolding mp_def by (rule prefix_byte [OF assms])
    have "unat (v - mp) < 2 ^ LENGTH(32)" by (rule unsigned_less)
    then have "decodeTail (encodeTail (v - mp) @ rest) mp 0 = Some (mp + push_bit 0 (v - mp), rest)"
      by (intro decodeTail_encode) simp_all
    then show ?thesis
      using False head unfolding encodeInteger_def decodeInteger_def Let_def mp_def [symmetric] by simp
  qed
qed

lemma encodeInteger_head:
  assumes "k \<le> 7" "take_bit k fb = 0"
  shows "\<exists>b bs. encodeInteger v k fb = b # bs \<and> drop_bit k b = drop_bit k fb"
proof -
  define mp :: u32 where "mp = push_bit k 1 - 1"
  have mp: "unat mp = 2 ^ k - 1" unfolding mp_def by (rule maxPrefix_unat [OF assms(1)])
  have "2 ^ k - 1 < (2 :: nat) ^ k" by simp
  then have "drop_bit k (fb OR ucast v) = drop_bit k fb" if "v < mp"
    using that mp by (intro prefix_byte [OF assms]) (simp add: word_less_nat_alt)
  moreover have "drop_bit k (fb OR ucast mp) = drop_bit k fb"
    using mp by (intro prefix_byte [OF assms]) simp
  ultimately show ?thesis unfolding encodeInteger_def Let_def mp_def [symmetric] by (cases "v < mp") auto
qed

lemma decodeString_encode:
  assumes "length s < 2 ^ 32"
  shows "decodeString (encodeString s False @ rest) = Some (s, rest)"
proof -
  have u: "unat (of_nat (length s) :: u32) = length s" using assms by (simp add: unat_of_nat)
  obtain b bs where b: "encodeInteger (of_nat (length s)) 7 0 = b # bs" "drop_bit 7 b = drop_bit 7 (0 :: byte)"
    using encodeInteger_head [of 7 0 "of_nat (length s)"] by auto
  have "\<not> bit (drop_bit 7 b) 0" using b(2) by simp
  then have hb: "b AND 0x80 = 0" using high_bit [of b] by (auto simp: bit_drop_bit_eq)
  have "decodeInteger 7 ((b # bs) @ s @ rest) = Some (of_nat (length s), s @ rest)"
    using decodeInteger_encode [of 7 0 "of_nat (length s)" "s @ rest"] by (simp add: b)
  then show ?thesis using u hb by (simp add: decodeString_def encodeString_def b Let_def)
qed

section \<open>The static table\<close>

lemma findFrom_sound:
  "findFrom es i n h = Some (j, nameOnly) \<Longrightarrow>
    (i < j \<and> j \<le> i + length es \<and> fst (es ! (j - i - 1)) = c_str (fst h)
      \<and> (\<not> nameOnly \<longrightarrow> snd (es ! (j - i - 1)) = c_str (snd h))) \<or> (n = Some j \<and> nameOnly)"
proof (induction es i n h rule: findFrom.induct)
  case (2 e es i n h)
  consider "fst e = c_str (fst h)" "snd e = c_str (snd h)" | "fst e = c_str (fst h)" "snd e \<noteq> c_str (snd h)"
    | "fst e \<noteq> c_str (fst h)" by blast
  then show ?case
  proof cases
    case 2
    then show ?thesis using "2.IH"(1) "2.prems"
      by (cases n) (auto simp: nth_Cons' Suc_diff_Suc less_Suc_eq_le numeral_2_eq_2)
  next
    case 3
    then show ?thesis using "2.IH"(2) "2.prems" by (auto simp: nth_Cons')
  qed (use "2.prems" in auto)
qed auto

lemma static_length: "length kStaticTable = 61"
  by (simp add: kStaticTable_def)

lemma findStaticIndex_sound:
  assumes "findStaticIndex h = Some (i, nameOnly)"
  shows "0 < i" "i \<le> 61" "fst (kStaticTable ! (i - 1)) = c_str (fst h)"
    "\<not> nameOnly \<Longrightarrow> snd (kStaticTable ! (i - 1)) = c_str (snd h)"
  using findFrom_sound [OF assms [unfolded findStaticIndex_def]] by (auto simp: static_length)

lemma lookup_static:
  assumes "0 < i" "i \<le> 61"
  shows "lookup t (of_nat i) = Some (kStaticTable ! (i - 1))" "(of_nat i :: u32) \<noteq> 0"
proof -
  have u: "unat (of_nat i :: u32) = i" using assms by (simp add: unat_of_nat)
  then show nz: "(of_nat i :: u32) \<noteq> 0" using assms by (metis less_not_refl unat_0)
  show "lookup t (of_nat i) = Some (kStaticTable ! (i - 1))"
    using assms nz by (simp add: lookup_def u static_length)
qed

section \<open>Header lists\<close>

text \<open>Headers without zero bytes, of lengths that fit the length fields.\<close>

definition headerOk :: "header \<Rightarrow> bool" where
  "headerOk h \<longleftrightarrow> 0 \<notin> set (fst h) \<and> 0 \<notin> set (snd h) \<and> length (fst h) < 2 ^ 32 \<and> length (snd h) < 2 ^ 32"

lemma c_str_id: "0 \<notin> set s \<Longrightarrow> c_str s = s"
  by (auto simp: c_str_def intro!: takeWhile_eq_all_conv [THEN iffD2])

lemma literal_byte:
  fixes b :: byte
  assumes "drop_bit 6 b = 1"
  shows "b AND 0x80 = 0" "b AND 0xc0 = 0x40"
proof -
  have b: "bit b (6 + n) \<longleftrightarrow> n = 0" for n
    using assms bit_drop_bit_eq [of 6 b] by (metis bit_1_iff comp_apply)
  have "bit b 6" "\<not> bit b 7" using b [of 0] b [of 1] by simp_all
  then show "b AND 0x80 = 0" "b AND 0xc0 = 0x40"
    using high_bit [of b] by (auto intro!: bit_eqI simp: bit_simps bit_const)
qed

lemma decodeLiteral_value:
  assumes "headerOk h" "decodeInteger 6 data = Some (index, mid)" "mid = encodeString (snd h) False @ rest"
    "lookup t index = Some (fst h, v)" "index \<noteq> 0"
  shows "decodeLiteral t 6 data = Some (h, rest)"
  using assms by (simp add: decodeLiteral_def decodeString_encode headerOk_def)

lemma decodeStep_encode:
  assumes ok: "headerOk h" and enc: "encodeHeader t h = (out, t')"
  shows "out \<noteq> [] \<and> decodeStep t (out @ rest) = HpackNext t' (Some h) rest"
proof (cases "findStaticIndex h")
  case None
  then have out: "out = 0x40 # encodeString (fst h) False @ encodeString (snd h) False" "t' = addToDynamicTable t h"
    using enc by (simp_all add: encodeHeader_def)
  have "decodeInteger 6 (out @ rest) = Some (0, encodeString (fst h) False @ encodeString (snd h) False @ rest)"
    by (simp add: out decodeInteger_def)
  then have "decodeLiteral t 6 (out @ rest) = Some (h, rest)"
    using ok by (simp add: decodeLiteral_def decodeString_encode headerOk_def)
  then show ?thesis by (simp add: decodeStep_def out)
next
  case (Some r)
  obtain i nameOnly where r: "r = (i, nameOnly)" by force
  note fi = findStaticIndex_sound [OF Some [unfolded r]]
  have cs: "c_str (fst h) = fst h" "c_str (snd h) = snd h" using ok by (simp_all add: headerOk_def c_str_id)
  show ?thesis
  proof (cases nameOnly)
    case False
    then have out: "out = encodeInteger (of_nat i) 7 0x80" "t' = t" using enc Some by (simp_all add: encodeHeader_def r)
    obtain b bs where b: "out = b # bs" "drop_bit 7 b = drop_bit 7 (0x80 :: byte)"
      using encodeInteger_head [of 7 "0x80" "of_nat i"] by (auto simp: out)
    have "bit (drop_bit 7 b) 0" unfolding b(2) by simp
    then have "b AND 0x80 \<noteq> 0" unfolding high_bit by (simp add: bit_drop_bit_eq)
    moreover have "decodeInteger 7 (out @ rest) = Some (of_nat i, rest)"
      unfolding out(1) by (rule decodeInteger_encode) simp_all
    moreover have "lookup t (of_nat i) = Some h"
      using lookup_static [OF fi(1,2)] fi(3,4) False cs by (metis prod.collapse)
    ultimately show ?thesis by (simp add: decodeStep_def b(1) out(2))
  next
    case True
    then have out: "out = encodeInteger (of_nat i) 6 0x40 @ encodeString (snd h) False" "t' = addToDynamicTable t h"
      using enc Some by (simp_all add: encodeHeader_def r)
    obtain b bs where b: "encodeInteger (of_nat i) 6 0x40 = b # bs" "drop_bit 6 b = drop_bit 6 (0x40 :: byte)"
      using encodeInteger_head [of 6 "0x40" "of_nat i"] by auto
    have lb: "b AND 0x80 = 0" "b AND 0xc0 = 0x40" using literal_byte [of b] b(2) by simp_all
    have "decodeInteger 6 (out @ rest) = Some (of_nat i, encodeString (snd h) False @ rest)"
      using decodeInteger_encode [of 6 "0x40" "of_nat i" "encodeString (snd h) False @ rest"] by (simp add: out)
    then have "decodeLiteral t 6 (out @ rest) = Some (h, rest)"
      using ok lookup_static [OF fi(1,2)] fi(3) cs by (intro decodeLiteral_value) (auto simp: prod_eq_iff)
    moreover have "out = b # bs @ encodeString (snd h) False" by (simp add: out(1) b(1))
    ultimately show ?thesis using lb by (simp add: decodeStep_def out(2))
  qed
qed

lemma decodeLoop_encode:
  assumes "\<forall>h \<in> set hs. headerOk h" "hpackEncode t hs = (out, t')"
  shows "decodeLoop t out acc = (True, acc @ hs, t')"
  using assms
proof (induction hs arbitrary: t out acc)
  case Nil
  then show ?case by (simp add: decodeLoop.simps)
next
  case (Cons h hs)
  obtain o1 t1 where 1: "encodeHeader t h = (o1, t1)" by force
  obtain o2 where 2: "hpackEncode t1 hs = (o2, t')" "out = o1 @ o2"
    using Cons.prems 1 by (auto split: prod.splits)
  note st = decodeStep_encode [OF _ 1, of o2]
  have "decodeLoop t out acc = decodeLoop t1 o2 (acc @ [h])"
    using st Cons.prems 2 by (subst decodeLoop.simps) simp
  also have "\<dots> = (True, (acc @ [h]) @ hs, t')" using Cons 2 by (intro Cons.IH) simp_all
  finally show ?case by simp
qed

section \<open>The size of the dynamic table\<close>

definition entryBytes :: "header \<Rightarrow> nat" where
  "entryBytes h = length (fst h) + length (snd h) + 32"

definition tableBytes :: "HpackTable \<Rightarrow> nat" where
  "tableBytes t = (\<Sum>h\<leftarrow>dynamicTable t. entryBytes h)"

definition tableInv :: "HpackTable \<Rightarrow> bool" where
  "tableInv t \<longleftrightarrow> unat (dynamicTableSize t) = tableBytes t \<and> tableBytes t \<le> unat (maxDynamicTableSize t)"

lemma entrySize_unat: "entryBytes h < 2 ^ 32 \<Longrightarrow> unat (entrySize h) = entryBytes h"
  unfolding entrySize_def entryBytes_def [symmetric] by (simp add: unat_of_nat take_bit_nat_eq_self)

lemma evict_inv:
  assumes "unat (dynamicTableSize t) = tableBytes t" "\<forall>h \<in> set (dynamicTable t). entryBytes h < 2 ^ 32"
  shows "tableInv (evict t) \<and> prefix (dynamicTable (evict t)) (dynamicTable t)
    \<and> maxDynamicTableSize (evict t) = maxDynamicTableSize t"
  using assms
proof (induction t rule: evict.induct)
  case (1 t)
  show ?case
  proof (cases "dynamicTableSize t > maxDynamicTableSize t \<and> dynamicTable t \<noteq> []")
    case True
    define t1 where "t1 = t\<lparr> dynamicTableSize := dynamicTableSize t - entrySize (last (dynamicTable t)),
      dynamicTable := butlast (dynamicTable t) \<rparr>"
    have ev: "evict t = evict t1" using True by (subst evict.simps) (simp add: t1_def)
    have split: "dynamicTable t = butlast (dynamicTable t) @ [last (dynamicTable t)]" using True by simp
    have tot: "tableBytes t = tableBytes t1 + entryBytes (last (dynamicTable t))"
      unfolding tableBytes_def t1_def by (subst split) simp
    have last: "unat (entrySize (last (dynamicTable t))) = entryBytes (last (dynamicTable t))"
      using 1(3) True by (intro entrySize_unat) simp
    have "unat (dynamicTableSize t1) = tableBytes t1"
      using tot last 1(2) by (simp add: t1_def unat_sub word_le_nat_alt)
    moreover have "\<forall>h \<in> set (dynamicTable t1). entryBytes h < 2 ^ 32"
      using 1(3) by (auto simp: t1_def dest: in_set_butlastD)
    ultimately have "tableInv (evict t1) \<and> prefix (dynamicTable (evict t1)) (dynamicTable t1)
      \<and> maxDynamicTableSize (evict t1) = maxDynamicTableSize t1"
      using 1(1) [OF True] by (simp add: t1_def)
    moreover have "prefix (dynamicTable t1) (dynamicTable t)" using split by (simp add: t1_def prefix_def) blast
    ultimately show ?thesis unfolding ev by (auto simp: t1_def intro: prefix_order.trans)
  next
    case False
    then have "evict t = t" by (subst evict.simps) auto
    moreover have "tableBytes t \<le> unat (maxDynamicTableSize t)"
      using False 1(2) by (cases "dynamicTable t = []") (auto simp: word_le_nat_alt not_less tableBytes_def)
    ultimately show ?thesis using 1 by (simp add: tableInv_def)
  qed
qed

text \<open>Everything encoder and decoder do to their tables, with limits below 2 GiB.\<close>

inductive hpackTable :: "HpackTable \<Rightarrow> bool" where
  hpackTable_new: "hpackTable newTable"
| hpackTable_add: "hpackTable t \<Longrightarrow> entryBytes h < 2 ^ 32 \<Longrightarrow> hpackTable (addToDynamicTable t h)"
| hpackTable_resize: "hpackTable t \<Longrightarrow> unat sz < 2 ^ 31 \<Longrightarrow> hpackTable (setMaxDynamicTableSize t sz)"

lemma hpackTable_inv:
  "hpackTable t \<Longrightarrow> tableInv t \<and> unat (maxDynamicTableSize t) < 2 ^ 31
    \<and> (\<forall>h \<in> set (dynamicTable t). entryBytes h < 2 ^ 32)"
proof (induction rule: hpackTable.induct)
  case hpackTable_new
  then show ?case by (simp add: newTable_def tableInv_def tableBytes_def)
next
  case (hpackTable_add t h)
  show ?case
  proof (cases "entrySize h > maxDynamicTableSize t")
    case True
    then show ?thesis using hpackTable_add by (simp add: addToDynamicTable_def Let_def tableInv_def tableBytes_def)
  next
    case False
    define t1 where "t1 = t\<lparr> dynamicTable := h # dynamicTable t, dynamicTableSize := dynamicTableSize t + entrySize h \<rparr>"
    have add: "addToDynamicTable t h = evict t1" using False by (simp add: addToDynamicTable_def t1_def Let_def)
    have sz: "unat (entrySize h) = entryBytes h" using hpackTable_add by (intro entrySize_unat) simp
    have "unat (dynamicTableSize t) \<le> unat (maxDynamicTableSize t)" "unat (entrySize h) \<le> unat (maxDynamicTableSize t)"
      using hpackTable_add False by (auto simp: tableInv_def not_less word_le_nat_alt)
    then have "unat (dynamicTableSize t + entrySize h) = unat (dynamicTableSize t) + unat (entrySize h)"
      using hpackTable_add by (simp add: unat_word_ariths)
    then have "unat (dynamicTableSize t1) = tableBytes t1"
      using hpackTable_add sz by (simp add: t1_def tableBytes_def tableInv_def)
    then have ev: "tableInv (evict t1)" "prefix (dynamicTable (evict t1)) (dynamicTable t1)"
      "maxDynamicTableSize (evict t1) = maxDynamicTableSize t"
      using evict_inv [of t1] hpackTable_add by (simp_all add: t1_def)
    have "set (dynamicTable (evict t1)) \<subseteq> insert h (set (dynamicTable t))"
      using set_mono_prefix [OF ev(2)] by (simp add: t1_def)
    then show ?thesis unfolding add using ev hpackTable_add by auto
  qed
next
  case (hpackTable_resize t sz)
  define t1 where "t1 = t\<lparr> maxDynamicTableSize := sz \<rparr>"
  have ev: "tableInv (evict t1)" "prefix (dynamicTable (evict t1)) (dynamicTable t1)"
    "maxDynamicTableSize (evict t1) = sz"
    using evict_inv [of t1] hpackTable_resize by (auto simp: t1_def tableInv_def tableBytes_def)
  have "set (dynamicTable (evict t1)) \<subseteq> set (dynamicTable t)"
    using set_mono_prefix [OF ev(2)] by (simp add: t1_def)
  then show ?case unfolding setMaxDynamicTableSize_def t1_def [symmetric] using ev hpackTable_resize by auto
qed

text \<open>The kind of a representation is decided by the bits above the prefix of its integer.\<close>

lemma encodeInteger_high_bits:
  assumes "k \<le> 7" "take_bit k fb = 0"
  obtains b bs where "encodeInteger v k fb = b # bs" "\<And>n. k \<le> n \<Longrightarrow> bit b n \<longleftrightarrow> bit fb n"
proof -
  obtain b bs where b: "encodeInteger v k fb = b # bs" "drop_bit k b = drop_bit k fb"
    using encodeInteger_head [OF assms] by blast
  have "bit b n \<longleftrightarrow> bit fb n" if "k \<le> n" for n
  proof -
    have "bit b n = bit (drop_bit k b) (n - k)" using that by (simp add: bit_drop_bit_eq)
    also have "\<dots> = bit fb n" using that by (simp add: b(2) bit_drop_bit_eq)
    finally show ?thesis .
  qed
  then show ?thesis using that b(1) by blast
qed

lemma byte_and_bits:
  fixes b :: byte
  shows "b AND 0x80 = 0 \<longleftrightarrow> \<not> bit b 7"
    and "b AND 0xc0 = 0x40 \<longleftrightarrow> bit b 6 \<and> \<not> bit b 7"
    and "b AND 0xe0 = 0x20 \<longleftrightarrow> bit b 5 \<and> \<not> bit b 6 \<and> \<not> bit b 7"
proof -
  show "b AND 0x80 = 0 \<longleftrightarrow> \<not> bit b 7" using high_bit [of b] by blast
  have "bit (b AND 0xc0) n = bit (0x40 :: byte) n \<longleftrightarrow> True" if "bit b 6" "\<not> bit b 7" for n
    using that by (auto simp: bit_simps bit_const)
  moreover have "bit (b AND 0xc0) 6 = bit b 6" "bit (b AND 0xc0) 7 = bit b 7" "bit (0x40 :: byte) 6" "\<not> bit (0x40 :: byte) 7"
    by (simp_all add: bit_simps)
  ultimately show "b AND 0xc0 = 0x40 \<longleftrightarrow> bit b 6 \<and> \<not> bit b 7" by (metis bit_eqI)
  have "bit (b AND 0xe0) n = bit (0x20 :: byte) n \<longleftrightarrow> True" if "bit b 5" "\<not> bit b 6" "\<not> bit b 7" for n
    using that by (auto simp: bit_simps bit_const)
  moreover have "bit (b AND 0xe0) 5 = bit b 5" "bit (b AND 0xe0) 6 = bit b 6" "bit (b AND 0xe0) 7 = bit b 7"
    "bit (0x20 :: byte) 5" "\<not> bit (0x20 :: byte) 6" "\<not> bit (0x20 :: byte) 7"
    by (simp_all add: bit_simps)
  ultimately show "b AND 0xe0 = 0x20 \<longleftrightarrow> bit b 5 \<and> \<not> bit b 6 \<and> \<not> bit b 7" by (metis bit_eqI)
qed

lemma decodeStep_indexed_missing:
  assumes "lookup t i = None"
  shows "decodeStep t (encodeInteger i 7 0x80 @ rest) = HpackFail True"
proof -
  obtain b bs where b: "encodeInteger i 7 0x80 = b # bs" "\<And>n. 7 \<le> n \<Longrightarrow> bit b n \<longleftrightarrow> bit (0x80 :: byte) n"
    by (rule encodeInteger_high_bits [of 7 "0x80" i]) simp_all
  have "decodeInteger 7 (encodeInteger i 7 0x80 @ rest) = Some (i, rest)" by (rule decodeInteger_encode) simp_all
  then show ?thesis using assms b(2) [of 7] by (simp add: decodeStep_def b(1) byte_and_bits)
qed

lemma decodeStep_literal_missing:
  assumes "lookup t i = None" "i \<noteq> 0" "(k, fb) \<in> {(6, 0x40), (4, 0x00), (4, 0x10)}"
  shows "decodeStep t (encodeInteger i k fb @ rest) = HpackFail False"
proof -
  have k: "k \<le> 7" "take_bit k fb = 0" using assms(3) by auto
  obtain b bs where b: "encodeInteger i k fb = b # bs" "\<And>n. k \<le> n \<Longrightarrow> bit b n \<longleftrightarrow> bit fb n"
    by (rule encodeInteger_high_bits [OF k, of i]) (rule that)
  have "decodeInteger k (encodeInteger i k fb @ rest) = Some (i, rest)" by (rule decodeInteger_encode [OF k])
  then have lit: "decodeLiteral t k (b # bs @ rest) = None" using assms(1,2) by (simp add: decodeLiteral_def b(1))
  have eq: "encodeInteger i k fb @ rest = b # bs @ rest" by (simp add: b(1))
  consider "k = 6" "fb = 0x40" | "k = 4" "fb = 0 \<or> fb = 0x10" using assms(3) by auto
  then have "decodeStep t (b # bs @ rest) = HpackFail False"
  proof cases
    case 1
    then show ?thesis using b(2) [of 6] b(2) [of 7] lit by (simp add: decodeStep_def byte_and_bits)
  next
    case 2
    then have "\<not> bit b 5" "\<not> bit b 6" "\<not> bit b 7" using b(2) [of 5] b(2) [of 6] b(2) [of 7] by auto
    then show ?thesis using 2(1) lit by (simp add: decodeStep_def byte_and_bits)
  qed
  then show ?thesis unfolding eq .
qed



section \<open>Properties\<close>

text \<open>
  C10.  Header lists survive compression: decoding what \<open>HpackEncoder::encode\<close> produced, with a
  decoder whose dynamic table is in the encoder's state, returns the headers in order
  and leaves the decoder's table in the state the encoder's has reached, so the two stay
  in step over any number of blocks.  It is proved for headers without zero bytes, which
  the comparison with the static table cuts off.
\<close>

theorem hpack_roundtrip:
  assumes "\<forall>h \<in> set hs. headerOk h" "hpackEncode t hs = (out, t')"
  shows "hpackDecode t out = (True, hs, t')"
  using decodeLoop_encode [OF assms, of "[]"] by (simp add: hpackDecode_def)

theorem hpack_roundtrip_witness:
  "let hs = [(asciiBytes '':method'', asciiBytes ''GET''), (asciiBytes ''host'', asciiBytes ''a''), (asciiBytes ''x'', asciiBytes ''1'')];
       (out, t') = hpackEncode newTable hs
   in hpackDecode newTable out = (True, hs, t')"
  using hpack_roundtrip [of "[(asciiBytes '':method'', asciiBytes ''GET''), (asciiBytes ''host'', asciiBytes ''a''), (asciiBytes ''x'', asciiBytes ''1'')]" newTable]
  by (simp add: headerOk_def asciiBytes_def Let_def split: prod.splits)

text \<open>
  C24.  The dynamic table never outgrows its limit: in every sequence of insertions and resizes
  (with limits below 2 GiB) the recorded size is the sum of the sizes of the entries and
  at most the configured maximum; eviction always ends.
\<close>

theorem hpack_table_bounded:
  assumes "hpackTable t"
  shows "unat (dynamicTableSize t) = (\<Sum>h\<leftarrow>dynamicTable t. length (fst h) + length (snd h) + 32)
    \<and> unat (dynamicTableSize t) \<le> unat (maxDynamicTableSize t)"
  using hpackTable_inv [OF assms] by (simp add: tableInv_def tableBytes_def entryBytes_def)

theorem hpack_table_bounded_witness:
  "let t = setMaxDynamicTableSize (addToDynamicTable (addToDynamicTable newTable ([1], [2, 3])) ([4], [])) 40
   in unat (dynamicTableSize t) \<le> 40"
proof -
  define t where "t = setMaxDynamicTableSize (addToDynamicTable (addToDynamicTable newTable ([1], [2, 3])) ([4], [])) 40"
  have "hpackTable t" unfolding t_def by (intro hpackTable.intros) (simp_all add: entryBytes_def)
  moreover have "maxDynamicTableSize t = 40"
    by (simp add: t_def setMaxDynamicTableSize_def addToDynamicTable_def newTable_def entrySize_def evict.simps Let_def)
  ultimately show ?thesis using hpack_table_bounded [of t] by (simp add: t_def Let_def)
qed

text \<open>
  A reference to an entry that does not exist is an error in every representation, and the
  table is left as it was.  In the indexed form the headers decoded so far in the block are
  dropped; in the three literal forms, where the name is the reference, they stay in the
  caller's list.
\<close>

theorem hpack_bad_index:
  assumes "lookup t i = None"
  shows "decodeLoop t (encodeInteger i 7 0x80 @ rest) headers = (False, [], t)
    \<and> (i \<noteq> 0 \<longrightarrow> (\<forall>(k, fb) \<in> {(6, 0x40), (4, 0x00), (4, 0x10)}.
          decodeLoop t (encodeInteger i k fb @ rest) headers = (False, headers, t)))"
proof -
  have ne: "encodeInteger i k fb @ rest \<noteq> []" if "k \<le> 7" "take_bit k fb = 0" for k fb
    using encodeInteger_head [OF that, of i] by auto
  have "decodeLoop t (encodeInteger i 7 0x80 @ rest) headers = (False, [], t)"
    using ne [of 7 "0x80"] decodeStep_indexed_missing [OF assms, of rest] by (simp add: decodeLoop.simps)
  moreover have "decodeLoop t (encodeInteger i k fb @ rest) headers = (False, headers, t)"
    if "i \<noteq> 0" "(k, fb) \<in> {(6, 0x40), (4, 0x00), (4, 0x10)}" for k fb
    using ne [of k fb] decodeStep_literal_missing [OF assms that, of rest] that(2) by (auto simp: decodeLoop.simps)
  ultimately show ?thesis by blast
qed

theorem hpack_bad_index_witness:
  "decodeLoop newTable (encodeInteger 62 7 0x80 @ [1, 2]) [([1], [2])] = (False, [], newTable)
   \<and> decodeLoop newTable (encodeInteger 62 4 0x10 @ [1, 2]) [([1], [2])] = (False, [([1], [2])], newTable)"
proof -
  have "lookup newTable 62 = None" by (simp add: lookup_def static_length newTable_def)
  from hpack_bad_index [OF this, of "[1, 2]" "[([1], [2])]"] show ?thesis by auto
qed



end
