(* ===== verification/Replay_Window.thy ===== *)
theory Replay_Window
  imports Qtng_Prelude
begin

unbundle bit_operations_syntax

text \<open>
  The anti-replay window of the Noise transport, \<open>ReplayCounter\<close> of
  \<open>include/qtng/private/noise_replay_p.h\<close>: 128 words of 64 bits used as a ring, against the
  abstract window, which is the set of all numbers ever accepted.
\<close>

section \<open>The code\<close>

definition kCounterWindowSize :: u64 where "kCounterWindowSize = 8128"

definition kRejectAfterMessages :: u64 where
  "kRejectAfterMessages = NOT 0 - kCounterWindowSize - 1"

record ReplayCounter =
  rc_counter :: u64
  backtrack :: "u64 list"

definition resetReplay :: ReplayCounter where
  "resetReplay = \<lparr> rc_counter = 0, backtrack = replicate 128 0 \<rparr>"

definition exhausted :: "ReplayCounter \<Rightarrow> bool" where
  "exhausted s \<longleftrightarrow> rc_counter s \<ge> kRejectAfterMessages + 1"

text \<open>\<open>for (i = 1; i <= top; ++i) backtrack[(i + indexCurrent) & (kCounterWords - 1)] = 0;\<close>\<close>

definition clearWords :: "u64 list \<Rightarrow> u64 \<Rightarrow> u64 \<Rightarrow> u64 list" where
  "clearWords bt indexCurrent n_top =
     foldl (\<lambda>bt i. bt[unat ((of_nat i + indexCurrent) AND 127) := 0]) bt [1..<Suc (unat n_top)]"

definition advance :: "ReplayCounter \<Rightarrow> u64 \<Rightarrow> ReplayCounter" where
  "advance s c =
     (if c > rc_counter s then
        let indexCurrent = rc_counter s div 64;
            n_top = c div 64 - indexCurrent;
            n_top = (if n_top > 128 then 128 else n_top)
        in \<lparr> rc_counter = c, backtrack = clearWords (backtrack s) indexCurrent n_top \<rparr>
      else s)"

definition validate :: "ReplayCounter \<Rightarrow> u64 \<Rightarrow> bool \<times> ReplayCounter" where
  "validate s theirCounter =
     (if exhausted s \<or> theirCounter \<ge> kRejectAfterMessages then (False, s)
      else
        let c = theirCounter + 1 in
        if kCounterWindowSize + c < rc_counter s then (False, s)
        else
          let index = c div 64;
              s = advance s c;
              word = unat (index AND 127);
              mark = push_bit (unat (c mod 64)) 1
          in if backtrack s ! word AND mark \<noteq> 0 then (False, s)
             else (True, s\<lparr> backtrack := (backtrack s)[word := backtrack s ! word OR mark] \<rparr>))"

fun validateAll :: "ReplayCounter \<Rightarrow> u64 list \<Rightarrow> bool list" where
  "validateAll s [] = []"
| "validateAll s (n # ns) = (let (ok, s) = validate s n in ok # validateAll s ns)"

section \<open>The abstract window\<close>

text \<open>
  A number is accepted when it is below the limit, was not accepted before, and is at most
  8128 behind every number accepted so far.
\<close>

definition fresh :: "u64 set \<Rightarrow> u64 \<Rightarrow> bool" where
  "fresh A n \<longleftrightarrow> n < kRejectAfterMessages \<and> n \<notin> A \<and> (\<forall>m \<in> A. unat m \<le> unat n + 8128)"

fun freshAll :: "u64 set \<Rightarrow> u64 list \<Rightarrow> bool list" where
  "freshAll A [] = []"
| "freshAll A (n # ns) = (if fresh A n then True # freshAll (insert n A) ns else False # freshAll A ns)"

section \<open>Words of the bitmap\<close>

definition marked :: "u64 list \<Rightarrow> nat \<Rightarrow> bool" where
  "marked bt c \<longleftrightarrow> bit (bt ! (c div 64 mod 128)) (c mod 64)"

lemma and_127: "unat (w AND 127) = unat w mod 128" for w :: u64
proof -
  have "w AND 127 = take_bit 7 w" by (simp add: take_bit_eq_mask mask_eq_exp_minus_1)
  then show ?thesis by (simp add: take_bit_eq_mod unat_mod)
qed

lemma clearWords_nth:
  assumes "length bt = 128" "w < 128" "unat n_top + unat ic < 2 ^ 64"
  shows "clearWords bt ic n_top ! w = (if \<exists>i \<in> {1..unat n_top}. (i + unat ic) mod 128 = w then 0 else bt ! w)
    \<and> length (clearWords bt ic n_top) = 128"
proof -
  define f where "f = (\<lambda>(bt :: u64 list) i. bt[unat ((of_nat i + ic) AND 127) := 0])"
  have "foldl f bt [1..<Suc k] ! w = (if \<exists>i \<in> {1..k}. (i + unat ic) mod 128 = w then 0 else bt ! w)
    \<and> length (foldl f bt [1..<Suc k]) = 128" if "k + unat ic < 2 ^ 64" for k
    using that
  proof (induction k)
    case 0
    then show ?case using assms by simp
  next
    case (Suc k)
    have "unat (of_nat (Suc k) :: u64) = Suc k" using Suc.prems by (intro unat_of_nat_u64) simp
    then have "unat (of_nat (Suc k) + ic) = Suc k + unat ic"
      using Suc.prems by (subst unat_add_u64) simp_all
    then have idx: "unat ((of_nat (Suc k) + ic) AND 127) = (Suc k + unat ic) mod 128" by (simp only: and_127)
    have step: "foldl f bt [1..<Suc (Suc k)] = (foldl f bt [1..<Suc k])[(Suc k + unat ic) mod 128 := 0]"
      by (simp add: f_def idx del: of_nat_Suc)
    show ?case
      unfolding step using Suc assms(2)
      by (auto simp: nth_list_update atLeastAtMostSuc_conv)
  qed
  then show ?thesis using assms(3) by (simp add: clearWords_def f_def)
qed

definition seen :: "u64 set \<Rightarrow> nat \<Rightarrow> bool" where
  "seen A c \<longleftrightarrow> (\<exists>n \<in> A. c = unat n + 1)"

definition replayInv :: "ReplayCounter \<Rightarrow> u64 set \<Rightarrow> bool" where
  "replayInv s A \<longleftrightarrow> length (backtrack s) = 128
     \<and> (\<forall>n \<in> A. unat n + 1 \<le> unat (rc_counter s) \<and> n < kRejectAfterMessages)
     \<and> (rc_counter s = 0 \<or> seen A (unat (rc_counter s)))
     \<and> (\<forall>c. c div 64 \<le> unat (rc_counter s) div 64 \<longrightarrow> unat (rc_counter s) div 64 < c div 64 + 128 \<longrightarrow>
          marked (backtrack s) c = seen A c)"

text \<open>Which words the clearing loop reaches.\<close>

lemma cleared_residues:
  fixes q old new :: nat
  assumes "new < q + 128" "q \<le> new" "old \<le> new"
  shows "(\<exists>i \<in> {1..min (new - old) 128}. (i + old) mod 128 = q mod 128) \<longleftrightarrow> old < q"
proof
  assume "\<exists>i \<in> {1..min (new - old) 128}. (i + old) mod 128 = q mod 128"
  then obtain i where i: "1 \<le> i" "i \<le> new - old" "(i + old) mod 128 = q mod 128" by auto
  show "old < q"
  proof (rule ccontr)
    assume "\<not> old < q"
    then have "0 < i + old - q" "i + old - q < 128" "q \<le> i + old" using i assms by auto
    moreover have "128 dvd i + old - q" using i(3) \<open>q \<le> i + old\<close> by (metis mod_eq_dvd_iff_nat)
    ultimately show False using nat_dvd_not_less by blast
  qed
next
  assume lt: "old < q"
  show "\<exists>i \<in> {1..min (new - old) 128}. (i + old) mod 128 = q mod 128"
  proof (cases "q - old \<le> 128")
    case True
    then show ?thesis using lt assms by (intro bexI [of _ "q - old"]) auto
  next
    case False
    define r where "r = (q - old - 1) mod 128 + 1"
    have "(r + old) mod 128 = ((q - old - 1) + 1 + old) mod 128"
      unfolding r_def by (metis mod_add_left_eq add.assoc)
    also have "(q - old - 1) + 1 + old = q" using lt by simp
    finally have "(r + old) mod 128 = q mod 128" .
    moreover have "1 \<le> r" "r \<le> 128" by (auto simp: r_def Suc_le_eq)
    ultimately show ?thesis using False assms by (intro bexI [of _ r]) auto
  qed
qed

lemma advance_marks:
  assumes inv: "replayInv s A" and c: "c > rc_counter s"
  shows "length (backtrack (advance s c)) = 128"
    and "d div 64 \<le> unat c div 64 \<Longrightarrow> unat c div 64 < d div 64 + 128 \<Longrightarrow>
      marked (backtrack (advance s c)) d = seen A d"
proof -
  define ic where "ic = rc_counter s div 64"
  define old new where "old = unat (rc_counter s) div 64" and "new = unat c div 64"
  define tp where "tp = (if c div 64 - ic > 128 then 128 else c div 64 - ic)"
  have len: "length (backtrack s) = 128" using inv by (simp add: replayInv_def)
  have bt: "backtrack (advance s c) = clearWords (backtrack s) ic tp"
    using c by (simp add: advance_def ic_def tp_def Let_def)
  have le: "old \<le> new" using c by (auto simp: old_def new_def word_less_nat_alt intro: div_le_mono)
  have uic: "unat ic = old" by (simp add: ic_def old_def unat_div)
  have "unat (c div 64 - ic) = new - old"
    using le by (subst unat_sub) (simp_all add: word_le_nat_alt unat_div new_def uic)
  then have utp: "unat tp = min (new - old) 128" by (simp add: tp_def word_less_nat_alt min_def)
  have "unat (rc_counter s) < 2 ^ LENGTH(64)" by (rule unsigned_less)
  then have small: "unat tp + unat ic < 2 ^ 64" by (simp add: utp uic old_def)
  note nth = clearWords_nth [OF len _ small]
  show "length (backtrack (advance s c)) = 128" using nth [of 0] by (simp add: bt)
  assume d: "d div 64 \<le> unat c div 64" "unat c div 64 < d div 64 + 128"
  have word: "clearWords (backtrack s) ic tp ! (d div 64 mod 128) = (if old < d div 64 then 0 else backtrack s ! (d div 64 mod 128))"
    using nth [of "d div 64 mod 128"] cleared_residues [of new "d div 64" old] d le
    by (simp add: utp uic new_def [symmetric])
  show "marked (backtrack (advance s c)) d = seen A d"
  proof (cases "old < d div 64")
    case True
    then have "unat (rc_counter s) < d" unfolding old_def by (meson div_le_mono leD leI)
    then have "\<not> seen A d" using inv by (auto simp: replayInv_def seen_def)
    then show ?thesis using True word by (simp add: bt marked_def)
  next
    case False
    then have "marked (backtrack s) d = seen A d"
      using inv d le by (simp add: replayInv_def old_def new_def)
    then show ?thesis using False word by (simp add: bt marked_def)
  qed
qed

lemma mark_bit:
  assumes "length bt = 128" "c' div 64 < c div 64 + 128" "c div 64 < c' div 64 + 128"
  shows "marked (bt[c div 64 mod 128 := bt ! (c div 64 mod 128) OR push_bit (c mod 64) 1]) c' \<longleftrightarrow> marked bt c' \<or> c' = c"
proof (cases "c' div 64 = c div 64")
  case True
  have "c' = c \<longleftrightarrow> c' mod 64 = c mod 64" using True by (metis div_mult_mod_eq)
  moreover have "c' mod 64 < 64" "c mod 64 < 64" by simp_all
  ultimately show ?thesis using True assms(1) by (auto simp: marked_def bit_simps)
next
  case False
  then have "c' div 64 mod 128 \<noteq> c div 64 mod 128" using mod_window [of "c' div 64" 128 "c div 64"] assms(2,3) by blast
  moreover have "c' \<noteq> c" using False by blast
  ultimately show ?thesis by (simp add: marked_def)
qed

lemma test_bit_mark: "w AND 2 ^ k = 0 \<longleftrightarrow> \<not> bit w k" if "k < 64" for w :: u64
proof -
  have "w AND 2 ^ k = of_bool (bit w k) * 2 ^ k"
    using that by (intro bit_eqI) (auto simp: bit_simps)
  moreover have "2 ^ k \<noteq> (0 :: u64)" using that by simp
  ultimately show ?thesis by auto
qed

lemma word_index: "unat (c div 64 AND 127) = unat c div 64 mod 128" "unat (c mod 64) = unat c mod 64" for c :: u64
  by (simp_all add: and_127 unat_div unat_mod)

lemma seen_insert: "seen (insert n A) c \<longleftrightarrow> c = unat n + 1 \<or> seen A c"
  by (auto simp: seen_def)

lemma seen_Suc: "seen A (unat n + 1) \<longleftrightarrow> n \<in> A"
  by (auto simp: seen_def word_unat_eq_iff [symmetric])

lemma kReject_unat: "unat kRejectAfterMessages = 2 ^ 64 - 8130"
  by (simp add: kRejectAfterMessages_def kCounterWindowSize_def)

lemma inv_counter: "replayInv s A \<Longrightarrow> unat (rc_counter s) \<le> 2 ^ 64 - 8130"
  by (auto simp: replayInv_def seen_def word_less_nat_alt kReject_unat Suc_le_eq)

lemma inv_not_exhausted: "replayInv s A \<Longrightarrow> \<not> exhausted s"
  using inv_counter [of s A] by (simp add: exhausted_def word_le_nat_alt kRejectAfterMessages_def kCounterWindowSize_def)

text \<open>The window test and the abstract one agree.\<close>

lemma window_test:
  assumes inv: "replayInv s A" and n: "n < kRejectAfterMessages"
  shows "unat (n + 1) = unat n + 1"
    and "kCounterWindowSize + (n + 1) < rc_counter s \<longleftrightarrow> \<not> (\<forall>m \<in> A. unat m \<le> unat n + 8128)"
proof -
  have lim: "unat n < 2 ^ 64 - 8130" using n by (simp add: word_less_nat_alt kReject_unat)
  show c: "unat (n + 1) = unat n + 1" using lim by (simp add: unat_add_u64)
  have "unat (kCounterWindowSize + (n + 1)) = unat n + 8129"
    using lim c by (simp add: unat_add_u64 kCounterWindowSize_def)
  then have "kCounterWindowSize + (n + 1) < rc_counter s \<longleftrightarrow> unat n + 8129 < unat (rc_counter s)"
    by (simp add: word_less_nat_alt)
  also have "\<dots> \<longleftrightarrow> \<not> (\<forall>m \<in> A. unat m \<le> unat n + 8128)"
    using inv by (fastforce simp: replayInv_def seen_def)
  finally show "kCounterWindowSize + (n + 1) < rc_counter s \<longleftrightarrow> \<not> (\<forall>m \<in> A. unat m \<le> unat n + 8128)" .
qed

text \<open>After the advance the bit of the new counter tells whether it was accepted before.\<close>

lemma advance_window:
  assumes inv: "replayInv s A" and c: "unat (rc_counter s) \<le> unat c + 8128"
  defines "s' \<equiv> advance s c"
  shows "length (backtrack s') = 128" "unat (rc_counter s') = max (unat (rc_counter s)) (unat c)"
    and "unat (rc_counter s') div 64 < unat c div 64 + 128" "unat c div 64 \<le> unat (rc_counter s') div 64"
    and "d div 64 \<le> unat (rc_counter s') div 64 \<Longrightarrow> unat (rc_counter s') div 64 < d div 64 + 128 \<Longrightarrow>
      marked (backtrack s') d = seen A d"
proof -
  have "length (backtrack s') = 128 \<and> unat (rc_counter s') = max (unat (rc_counter s)) (unat c)
    \<and> (d div 64 \<le> unat (rc_counter s') div 64 \<longrightarrow> unat (rc_counter s') div 64 < d div 64 + 128 \<longrightarrow>
        marked (backtrack s') d = seen A d)" for d
  proof (cases "c > rc_counter s")
    case True
    then have "rc_counter s' = c" by (simp add: s'_def advance_def Let_def)
    then show ?thesis using True advance_marks(1) [OF inv True] advance_marks(2) [OF inv True, of d] by (simp add: s'_def word_less_nat_alt)
  next
    case False
    then have "s' = s" by (simp add: s'_def advance_def)
    then show ?thesis using False inv by (simp add: replayInv_def word_less_nat_alt)
  qed
  note * = this
  show "length (backtrack s') = 128" "unat (rc_counter s') = max (unat (rc_counter s)) (unat c)"
    using * by simp_all
  show "d div 64 \<le> unat (rc_counter s') div 64 \<Longrightarrow> unat (rc_counter s') div 64 < d div 64 + 128 \<Longrightarrow>
      marked (backtrack s') d = seen A d" using * by simp
  have "max (unat (rc_counter s)) (unat c) div 64 \<le> (unat c + 8128) div 64"
    using c by (intro div_le_mono) simp
  then show "unat (rc_counter s') div 64 < unat c div 64 + 128" using * by simp
  show "unat c div 64 \<le> unat (rc_counter s') div 64" using * by (simp add: div_le_mono)
qed

lemma replayInv_accept:
  assumes inv: "replayInv s A" and n: "n < kRejectAfterMessages" "n \<notin> A"
    and c: "unat c = unat n + 1" "unat (rc_counter s) \<le> unat c + 8128"
  defines "s' \<equiv> advance s c" and "w \<equiv> unat c div 64 mod 128"
  shows "replayInv (s'\<lparr>backtrack := (backtrack s')[w := backtrack s' ! w OR push_bit (unat c mod 64) 1]\<rparr>) (insert n A)"
proof -
  note adv = advance_window [OF inv c(2), folded s'_def]
  have "marked ((backtrack s')[w := backtrack s' ! w OR push_bit (unat c mod 64) 1]) d = seen (insert n A) d"
    if "d div 64 \<le> unat (rc_counter s') div 64" "unat (rc_counter s') div 64 < d div 64 + 128" for d
    using mark_bit [OF adv(1), of d "unat c"] adv(3,4) adv(5) [of d] that c(1) by (auto simp: w_def seen_insert)
  moreover have "rc_counter s' = 0 \<or> seen (insert n A) (unat (rc_counter s'))"
    using adv(2) inv c(1) by (auto simp: seen_insert max_def replayInv_def)
  ultimately show ?thesis using adv(1,2) inv n(1) c(1) by (auto simp: replayInv_def max_def)
qed

lemma validate_refines:
  assumes inv: "replayInv s A"
  shows "fst (validate s n) = fresh A n"
    and "replayInv (snd (validate s n)) (if fresh A n then insert n A else A)"
proof -
  have "fst (validate s n) = fresh A n \<and> replayInv (snd (validate s n)) (if fresh A n then insert n A else A)"
  proof (cases "n < kRejectAfterMessages \<and> (\<forall>m \<in> A. unat m \<le> unat n + 8128)")
    case False
    then show ?thesis using inv window_test [OF inv, of n] inv_not_exhausted [OF inv]
      by (auto simp: validate_def fresh_def Let_def not_le)
  next
    case True
    then have n: "n < kRejectAfterMessages" and c: "unat (n + 1) = unat n + 1"
      and win: "\<not> kCounterWindowSize + (n + 1) < rc_counter s"
      using window_test [OF inv] by auto
    have le: "unat (rc_counter s) \<le> unat (n + 1) + 8128"
      using True inv c by (fastforce simp: replayInv_def seen_def)
    note adv = advance_window [OF inv le]
    have "fresh A n \<longleftrightarrow> n \<notin> A" using True by (auto simp: fresh_def)
    moreover have "marked (backtrack (advance s (n + 1))) (unat (n + 1)) = (n \<in> A)"
      using adv(5) [OF adv(4,3)] c by (simp add: seen_Suc [symmetric])
    moreover have "replayInv (advance s (n + 1)) A" if "n \<in> A"
    proof -
      have "\<not> n + 1 > rc_counter s" using inv that c by (auto simp: replayInv_def word_less_nat_alt)
      then show ?thesis using inv by (simp add: advance_def)
    qed
    ultimately show ?thesis
      using n win inv_not_exhausted [OF inv] replayInv_accept [OF inv n _ c le]
      by (auto simp: validate_def Let_def not_le word_index marked_def test_bit_mark)
  qed
  then show "fst (validate s n) = fresh A n"
    "replayInv (snd (validate s n)) (if fresh A n then insert n A else A)" by simp_all
qed

lemma replayInv_reset: "replayInv resetReplay {}"
  by (simp add: replayInv_def resetReplay_def seen_def marked_def)

lemma validateAll_refines: "replayInv s A \<Longrightarrow> validateAll s ns = freshAll A ns"
proof (induction ns arbitrary: s A)
  case (Cons n ns)
  obtain ok s' where v: "validate s n = (ok, s')" by fastforce
  have "ok = fresh A n" "replayInv s' (if fresh A n then insert n A else A)"
    using validate_refines [OF Cons.prems, of n] by (simp_all add: v)
  then show ?case using Cons.IH by (simp add: v)
qed simp

text \<open>
  C7. The 8192-bit ring of \<open>ReplayCounter\<close> refines the abstract window: on every sequence of
  numbers, a fresh counter accepts exactly those that are below the message limit, were not
  accepted before and are at most 8128 behind the highest accepted one.
\<close>

theorem replay_window_refines: "validateAll resetReplay ns = freshAll {} ns"
  by (rule validateAll_refines) (rule replayInv_reset)

end
