(* ===== verification/Md_Fallback.thy ===== *)
theory Md_Fallback
  imports Qtng_Prelude
begin

unbundle bit_operations_syntax

text \<open>
  The software \<open>MessageDigest\<close> of \<open>md_fallback.cpp\<close>: the MD5, SHA-1 and SHA-2 compression
  functions and the streaming object around them, against the one-shot definition of a
  Merkle-Damgard hash (pad, split in blocks of 64 bytes, compress in order).
\<close>

section \<open>Words and bytes\<close>

definition rotl32 :: "u32 \<Rightarrow> nat \<Rightarrow> u32" where
  "rotl32 x n = push_bit n x OR drop_bit (32 - n) x"

definition rotr32 :: "u32 \<Rightarrow> nat \<Rightarrow> u32" where
  "rotr32 x n = drop_bit n x OR push_bit (32 - n) x"

definition storeBe32 :: "u32 \<Rightarrow> bytes" where
  "storeBe32 v = [ucast (drop_bit 24 v AND 0xff), ucast (drop_bit 16 v AND 0xff),
     ucast (drop_bit 8 v AND 0xff), ucast (v AND 0xff)]"

text \<open>The loop fills \<open>out[7]\<close> down to \<open>out[0]\<close>.\<close>

fun storeBe64Loop :: "nat \<Rightarrow> u64 \<Rightarrow> bytes" where
  "storeBe64Loop 0 v = []"
| "storeBe64Loop (Suc i) v = storeBe64Loop i (drop_bit 8 v) @ [ucast (v AND 0xff)]"

definition storeBe64 :: "u64 \<Rightarrow> bytes" where
  "storeBe64 v = storeBe64Loop 8 v"

definition loadBe32 :: "bytes \<Rightarrow> u32" where
  "loadBe32 p = push_bit 24 (ucast (p ! 0)) OR push_bit 16 (ucast (p ! 1))
     OR push_bit 8 (ucast (p ! 2)) OR ucast (p ! 3)"

definition storeLe32 :: "u32 \<Rightarrow> bytes" where
  "storeLe32 v = [ucast (v AND 0xff), ucast (drop_bit 8 v AND 0xff),
     ucast (drop_bit 16 v AND 0xff), ucast (drop_bit 24 v AND 0xff)]"

definition loadLe32 :: "bytes \<Rightarrow> u32" where
  "loadLe32 p = ucast (p ! 0) OR push_bit 8 (ucast (p ! 1)) OR push_bit 16 (ucast (p ! 2))
     OR push_bit 24 (ucast (p ! 3))"

text \<open>\<open>state[i] += x\<close> for the leading entries of the state array.\<close>

definition addState :: "u32 list \<Rightarrow> u32 list \<Rightarrow> u32 list" where
  "addState st xs = map2 (+) (take (length xs) st) xs @ drop (length xs) st"

section \<open>MD5\<close>

definition md5K :: "u32 list" where
  "md5K =
    [0xd76aa478, 0xe8c7b756, 0x242070db, 0xc1bdceee, 0xf57c0faf, 0x4787c62a, 0xa8304613, 0xfd469501,
     0x698098d8, 0x8b44f7af, 0xffff5bb1, 0x895cd7be, 0x6b901122, 0xfd987193, 0xa679438e, 0x49b40821,
     0xf61e2562, 0xc040b340, 0x265e5a51, 0xe9b6c7aa, 0xd62f105d, 0x02441453, 0xd8a1e681, 0xe7d3fbc8,
     0x21e1cde6, 0xc33707d6, 0xf4d50d87, 0x455a14ed, 0xa9e3e905, 0xfcefa3f8, 0x676f02d9, 0x8d2a4c8a,
     0xfffa3942, 0x8771f681, 0x6d9d6122, 0xfde5380c, 0xa4beea44, 0x4bdecfa9, 0xf6bb4b60, 0xbebfbc70,
     0x289b7ec6, 0xeaa127fa, 0xd4ef3085, 0x04881d05, 0xd9d4d039, 0xe6db99e5, 0x1fa27cf8, 0xc4ac5665,
     0xf4292244, 0x432aff97, 0xab9423a7, 0xfc93a039, 0x655b59c3, 0x8f0ccc92, 0xffeff47d, 0x85845dd1,
     0x6fa87e4f, 0xfe2ce6e0, 0xa3014314, 0x4e0811a1, 0xf7537e82, 0xbd3af235, 0x2ad7d2bb, 0xeb86d391]"

definition md5S :: "nat list" where
  "md5S =
    [7, 12, 17, 22, 7, 12, 17, 22, 7, 12, 17, 22, 7, 12, 17, 22,
     5, 9, 14, 20, 5, 9, 14, 20, 5, 9, 14, 20, 5, 9, 14, 20,
     4, 11, 16, 23, 4, 11, 16, 23, 4, 11, 16, 23, 4, 11, 16, 23,
     6, 10, 15, 21, 6, 10, 15, 21, 6, 10, 15, 21, 6, 10, 15, 21]"

definition md5F :: "nat \<Rightarrow> u32 \<Rightarrow> u32 \<Rightarrow> u32 \<Rightarrow> u32 \<times> nat" where
  "md5F i b c d =
     (if i < 16 then ((b AND c) OR (NOT b AND d), i)
      else if i < 32 then ((d AND b) OR (NOT d AND c), (5 * i + 1) mod 16)
      else if i < 48 then (b XOR c XOR d, (3 * i + 5) mod 16)
      else (c XOR (b OR NOT d), (7 * i) mod 16))"

definition md5Round :: "u32 list \<Rightarrow> u32 \<times> u32 \<times> u32 \<times> u32 \<Rightarrow> nat \<Rightarrow> u32 \<times> u32 \<times> u32 \<times> u32" where
  "md5Round m = (\<lambda>(a, b, c, d) i.
     let (f, g) = md5F i b c d
     in (d, b + rotl32 (a + f + md5K ! i + m ! g) (md5S ! i), b, c))"

definition md5Transform :: "u32 list \<Rightarrow> bytes \<Rightarrow> u32 list" where
  "md5Transform state block =
     (let m = map (\<lambda>i. loadLe32 (drop (i * 4) block)) [0..<16];
          (a, b, c, d) = foldl (md5Round m) (state ! 0, state ! 1, state ! 2, state ! 3) [0..<64]
      in addState state [a, b, c, d])"

section \<open>SHA-1\<close>

definition sha1W :: "bytes \<Rightarrow> u32 list" where
  "sha1W block =
     foldl (\<lambda>w i. w @ [rotl32 (w ! (i - 3) XOR w ! (i - 8) XOR w ! (i - 14) XOR w ! (i - 16)) 1])
       (map (\<lambda>i. loadBe32 (drop (i * 4) block)) [0..<16]) [16..<80]"

definition sha1F :: "nat \<Rightarrow> u32 \<Rightarrow> u32 \<Rightarrow> u32 \<Rightarrow> u32 \<times> u32" where
  "sha1F i b c d =
     (if i < 20 then ((b AND c) OR (NOT b AND d), 0x5a827999)
      else if i < 40 then (b XOR c XOR d, 0x6ed9eba1)
      else if i < 60 then ((b AND c) OR (b AND d) OR (c AND d), 0x8f1bbcdc)
      else (b XOR c XOR d, 0xca62c1d6))"

definition sha1Round :: "u32 list \<Rightarrow> u32 \<times> u32 \<times> u32 \<times> u32 \<times> u32 \<Rightarrow> nat \<Rightarrow> u32 \<times> u32 \<times> u32 \<times> u32 \<times> u32" where
  "sha1Round w = (\<lambda>(a, b, c, d, e) i.
     let (f, k) = sha1F i b c d
     in (rotl32 a 5 + f + e + k + w ! i, a, rotl32 b 30, c, d))"

definition sha1Transform :: "u32 list \<Rightarrow> bytes \<Rightarrow> u32 list" where
  "sha1Transform state block =
     (let w = sha1W block;
          (a, b, c, d, e) =
            foldl (sha1Round w) (state ! 0, state ! 1, state ! 2, state ! 3, state ! 4) [0..<80]
      in addState state [a, b, c, d, e])"

section \<open>SHA-224 and SHA-256\<close>

text \<open>The rows of the table, eight words each, as in the source.\<close>

definition sha256K :: "u32 list" where
  "sha256K = concat
    [[0x428a2f98, 0x71374491, 0xb5c0fbcf, 0xe9b5dba5, 0x3956c25b, 0x59f111f1, 0x923f82a4, 0xab1c5ed5],
     [0xd807aa98, 0x12835b01, 0x243185be, 0x550c7dc3, 0x72be5d74, 0x80deb1fe, 0x9bdc06a7, 0xc19bf174],
     [0xe49b69c1, 0xefbe4786, 0x0fc19dc6, 0x240ca1cc, 0x2de92c6f, 0x4a7484aa, 0x5cb0a9dc, 0x76f988da],
     [0x983e5152, 0xa831c66d, 0xb00327c8, 0xbf597fc7, 0xc6e00bf3, 0xd5a79147, 0x06ca6351, 0x14292967],
     [0x27b70a85, 0x2e1b2138, 0x4d2c6dfc, 0x53380d13, 0x650a7354, 0x766a0abb, 0x81c2c92e, 0x92722c85],
     [0xa2bfe8a1, 0xa81a664b, 0xc24b8b70, 0xc76c51a3, 0xd192e819, 0xd6990624, 0xf40e3585, 0x106aa070],
     [0x19a4c116, 0x1e376c08, 0x2748774c, 0x34b0bcb5, 0x391c0cb3, 0x4ed8aa4a, 0x5b9cca4f, 0x682e6ff3],
     [0x748f82ee, 0x78a5636f, 0x84c87814, 0x8cc70208, 0x90befffa, 0xa4506ceb, 0xbef9a3f7, 0xc67178f2]]"

definition sha256W :: "bytes \<Rightarrow> u32 list" where
  "sha256W block =
     foldl (\<lambda>w i.
         let s0 = rotr32 (w ! (i - 15)) 7 XOR rotr32 (w ! (i - 15)) 18 XOR drop_bit 3 (w ! (i - 15));
             s1 = rotr32 (w ! (i - 2)) 17 XOR rotr32 (w ! (i - 2)) 19 XOR drop_bit 10 (w ! (i - 2))
         in w @ [w ! (i - 16) + s0 + w ! (i - 7) + s1])
       (map (\<lambda>i. loadBe32 (drop (i * 4) block)) [0..<16]) [16..<64]"

type_synonym sha256Regs = "u32 \<times> u32 \<times> u32 \<times> u32 \<times> u32 \<times> u32 \<times> u32 \<times> u32"

definition sha256Round :: "u32 list \<Rightarrow> sha256Regs \<Rightarrow> nat \<Rightarrow> sha256Regs" where
  "sha256Round w = (\<lambda>(a, b, c, d, e, f, g, h) i.
     let S1 = rotr32 e 6 XOR rotr32 e 11 XOR rotr32 e 25;
         ch = (e AND f) XOR (NOT e AND g);
         t1 = h + S1 + ch + sha256K ! i + w ! i;
         S0 = rotr32 a 2 XOR rotr32 a 13 XOR rotr32 a 22;
         maj = (a AND b) XOR (a AND c) XOR (b AND c);
         t2 = S0 + maj
     in (t1 + t2, a, b, c, d + t1, e, f, g))"

definition sha256Transform :: "u32 list \<Rightarrow> bytes \<Rightarrow> u32 list" where
  "sha256Transform state block =
     (let w = sha256W block;
          (a, b, c, d, e, f, g, h) =
            foldl (sha256Round w)
              (state ! 0, state ! 1, state ! 2, state ! 3, state ! 4, state ! 5, state ! 6, state ! 7) [0..<64]
      in addState state [a, b, c, d, e, f, g, h])"

section \<open>The digest object\<close>

datatype Algorithm = Md5 | Sha1 | Sha224 | Sha256 | Sha384 | Sha512 | Sha3_224 | Sha3_256
  | Sha3_384 | Sha3_512 | Ripemd160 | Sha512_224 | Sha512_256 | Blake2s_256 | Blake2b_512 | Sm3

datatype DigestKind = DigestMd5 | DigestSha1 | DigestSha224 | DigestSha256

fun algoToKind :: "Algorithm \<Rightarrow> DigestKind option" where
  "algoToKind Md5 = Some DigestMd5"
| "algoToKind Sha1 = Some DigestSha1"
| "algoToKind Sha224 = Some DigestSha224"
| "algoToKind Sha256 = Some DigestSha256"
| "algoToKind _ = None"

definition transformBlock :: "DigestKind \<Rightarrow> u32 list \<Rightarrow> bytes \<Rightarrow> u32 list" where
  "transformBlock kind state block =
     (if kind = DigestMd5 then md5Transform state block
      else if kind = DigestSha1 then sha1Transform state block
      else sha256Transform state block)"

record MessageDigest =
  md_kind :: DigestKind
  digestBytes :: nat
  md_state :: "u32 list"
  md_block :: bytes
  blockLen :: nat
  totalBytes :: u64
  finalData :: bytes
  hasError :: bool
  finished :: bool

fun initialState :: "DigestKind \<Rightarrow> u32 list \<times> nat" where
  "initialState DigestMd5 = ([0x67452301, 0xefcdab89, 0x98badcfe, 0x10325476, 0, 0, 0, 0], 16)"
| "initialState DigestSha1 = ([0x67452301, 0xefcdab89, 0x98badcfe, 0x10325476, 0xc3d2e1f0, 0, 0, 0], 20)"
| "initialState DigestSha224 =
     ([0xc1059ed8, 0x367cd507, 0x3070dd17, 0xf70e5939, 0xffc00b31, 0x68581511, 0x64f98fa7, 0xbefa4fa4], 28)"
| "initialState DigestSha256 =
     ([0x6a09e667, 0xbb67ae85, 0x3c6ef372, 0xa54ff53a, 0x510e527f, 0x9b05688c, 0x1f83d9ab, 0x5be0cd19], 32)"

definition newDigest :: "Algorithm \<Rightarrow> MessageDigest" where
  "newDigest algo =
     (let d = \<lparr> md_kind = DigestSha256, digestBytes = 32, md_state = replicate 8 0, md_block = replicate 64 0,
                blockLen = 0, totalBytes = 0, finalData = [], hasError = False, finished = False \<rparr>
      in case algoToKind algo of
           None \<Rightarrow> d\<lparr> hasError := True \<rparr>
         | Some kind \<Rightarrow>
             d\<lparr> md_kind := kind, md_state := fst (initialState kind), digestBytes := snd (initialState kind) \<rparr>)"

text \<open>\<open>memcpy(dst + off, p, n)\<close>\<close>

definition memcpyAt :: "bytes \<Rightarrow> nat \<Rightarrow> bytes \<Rightarrow> bytes" where
  "memcpyAt dst off p = take off dst @ p @ drop (off + length p) dst"

function addBlocks :: "DigestKind \<Rightarrow> u32 list \<Rightarrow> bytes \<Rightarrow> u32 list \<times> bytes" where
  "addBlocks kind state p =
     (if length p \<ge> 64 then addBlocks kind (transformBlock kind state (take 64 p)) (drop 64 p) else (state, p))"
  by auto
termination by (relation "measure (\<lambda>(_, _, p). length p)") auto

declare addBlocks.simps [simp del]

text \<open>The first half of \<open>addData\<close>: top up a partly filled block.\<close>

definition fillBlock :: "MessageDigest \<Rightarrow> bytes \<Rightarrow> MessageDigest \<times> bytes" where
  "fillBlock d p =
     (if blockLen d > 0 then
        let n = 64 - blockLen d;
            n = (if n > length p then length p else n);
            d = d\<lparr> md_block := memcpyAt (md_block d) (blockLen d) (take n p), blockLen := blockLen d + n \<rparr>;
            p = drop n p
        in if blockLen d = 64
           then (d\<lparr> md_state := transformBlock (md_kind d) (md_state d) (md_block d), blockLen := 0 \<rparr>, p)
           else (d, p)
      else (d, p))"

text \<open>\<open>buf\<close> is None for the null pointer, otherwise the memory at the pointer.\<close>

definition addData :: "MessageDigest \<Rightarrow> bytes option \<Rightarrow> nat \<Rightarrow> MessageDigest" where
  "addData d buf len =
     (if hasError d \<or> finished d \<or> len = 0 then d
      else case buf of
          None \<Rightarrow> d\<lparr> hasError := True \<rparr>
        | Some mem \<Rightarrow>
            let d = d\<lparr> totalBytes := totalBytes d + of_nat len \<rparr>;
                (d, p) = fillBlock d (take len mem);
                (state, p) = addBlocks (md_kind d) (md_state d) p;
                d = d\<lparr> md_state := state \<rparr>
            in if length p > 0 then d\<lparr> md_block := memcpyAt (md_block d) 0 p, blockLen := length p \<rparr> else d)"

definition padTo :: "nat \<Rightarrow> bytes \<Rightarrow> bytes" where
  "padTo n pad = pad @ replicate (n - length pad) 0"

definition finalState :: "MessageDigest \<Rightarrow> u32 list" where
  "finalState d =
     (let kind = md_kind d; st = md_state d;
          totalBits = totalBytes d * 8;
          pad = take (blockLen d) (md_block d) @ [0x80];
          (st, pad) = (if length pad > 56 then (transformBlock kind st (padTo 64 pad), []) else (st, pad));
          pad = padTo 56 pad
      in if kind = DigestMd5
         then transformBlock kind st (pad @ storeLe32 (ucast totalBits) @ storeLe32 (ucast (drop_bit 32 totalBits)))
         else transformBlock kind st (pad @ storeBe64 totalBits))"

definition md_result :: "MessageDigest \<Rightarrow> bytes \<times> MessageDigest" where
  "md_result d =
     (if hasError d then ([], d)
      else if finished d then (finalData d, d)
      else
        let store = (if md_kind d = DigestMd5 then storeLe32 else storeBe32);
            st = finalState d;
            out = concat (map (\<lambda>i. store (st ! i)) [0..<digestBytes d div 4])
        in (out, d\<lparr> finished := True, finalData := out \<rparr>))"

definition digest :: "bytes option \<Rightarrow> nat \<Rightarrow> Algorithm \<Rightarrow> bytes" where
  "digest dat dataSize algo = fst (md_result (addData (newDigest algo) dat dataSize))"

section \<open>The one-shot specification\<close>

definition blocks64 :: "bytes \<Rightarrow> bytes list" where
  "blocks64 p = map (\<lambda>i. take 64 (drop (64 * i) p)) [0..<length p div 64]"

text \<open>A one bit, zeros up to 56 modulo 64, and the bit length in 8 bytes.\<close>

definition mdPadding :: "DigestKind \<Rightarrow> nat \<Rightarrow> bytes" where
  "mdPadding kind n =
     (let bits = be_bytes 8 (of_nat (8 * n))
      in 0x80 # replicate ((119 - n mod 64) mod 64) 0 @ (if kind = DigestMd5 then rev bits else bits))"

definition digestSpec :: "Algorithm \<Rightarrow> bytes \<Rightarrow> bytes" where
  "digestSpec algo msg =
     (case algoToKind algo of
        None \<Rightarrow> []
      | Some kind \<Rightarrow>
          let st = foldl (transformBlock kind) (fst (initialState kind)) (blocks64 (msg @ mdPadding kind (length msg)));
              word = (\<lambda>w. if kind = DigestMd5 then rev (be_bytes 4 (ucast w)) else be_bytes 4 (ucast w))
          in concat (map (\<lambda>i. word (st ! i)) [0..<snd (initialState kind) div 4]))"

section \<open>Bytes of words\<close>

lemma storeBe64_be_bytes: "storeBe64 v = be_bytes 8 v"
proof -
  have "ucast (v AND 0xff) = (ucast v :: byte)" for v :: u64
    by (rule bit_eqI) (auto simp: bit_simps)
  then have "storeBe64Loop n v = be_bytes n v" for n
    by (induction n arbitrary: v) auto
  then show ?thesis by (simp add: storeBe64_def)
qed

lemma storeBe32_be_bytes: "storeBe32 w = be_bytes 4 (ucast w)"
proof -
  have "ucast (drop_bit k w AND 0xff) = (ucast (drop_bit k (ucast w :: u64)) :: byte)" for k
    by (rule bit_eqI) (auto simp: bit_simps dest: bit_imp_le_length)
  from this [of 0] this [of 8] this [of 16] this [of 24]
  show ?thesis by (simp add: storeBe32_def eval_nat_numeral drop_bit_drop_bit)
qed

lemma storeLe32_storeBe32: "storeLe32 w = rev (storeBe32 w)"
  by (simp add: storeLe32_def storeBe32_def)

lemma storeLe64_be_bytes: "storeLe32 (ucast v) @ storeLe32 (ucast (drop_bit 32 v)) = rev (be_bytes 8 v)"
proof -
  have "ucast (drop_bit k (ucast v :: u32) AND 0xff) = (ucast (drop_bit k v) :: byte)" if "k \<le> 24" for k
    using that by (intro bit_eqI) (auto simp: bit_simps)
  from this [of 0] this [of 8] this [of 16] this [of 24]
  have lo: "storeLe32 (ucast v) = map (\<lambda>k. ucast (drop_bit k v)) [0, 8, 16, 24]"
    by (simp add: storeLe32_def)
  have "ucast (drop_bit k (ucast (drop_bit 32 v) :: u32) AND 0xff) = (ucast (drop_bit (k + 32) v) :: byte)" for k
    by (rule bit_eqI) (auto simp: bit_simps ac_simps dest: bit_imp_le_length)
  from this [of 0] this [of 8] this [of 16] this [of 24]
  have hi: "storeLe32 (ucast (drop_bit 32 v)) = map (\<lambda>k. ucast (drop_bit k v)) [32, 40, 48, 56]"
    by (simp add: storeLe32_def)
  show ?thesis unfolding lo hi by (simp add: eval_nat_numeral drop_bit_drop_bit)
qed

section \<open>Streaming\<close>

lemma addBlocks_short: "length p < 64 \<Longrightarrow> addBlocks kind st p = (st, p)"
  by (subst addBlocks.simps) simp

lemma addBlocks_block:
  "length b = 64 \<Longrightarrow> addBlocks kind st (b @ p) = addBlocks kind (transformBlock kind st b) p"
  by (subst addBlocks.simps) simp

lemma addBlocks_append:
  "addBlocks kind st (xs @ ys) = addBlocks kind (fst (addBlocks kind st xs)) (snd (addBlocks kind st xs) @ ys)"
proof (induction kind st xs rule: addBlocks.induct)
  case (1 kind st xs)
  show ?case
  proof (cases "length xs \<ge> 64")
    case True
    have "addBlocks kind st (xs @ ys) = addBlocks kind st (take 64 xs @ (drop 64 xs @ ys))"
      by (metis append.assoc append_take_drop_id)
    also have "\<dots> = addBlocks kind (transformBlock kind st (take 64 xs)) (drop 64 xs @ ys)"
      by (rule addBlocks_block) (use True in simp)
    also have "\<dots> = addBlocks kind (fst (addBlocks kind st xs)) (snd (addBlocks kind st xs) @ ys)"
      using 1 True by (simp add: addBlocks.simps [of kind st xs])
    finally show ?thesis .
  qed (simp add: addBlocks_short)
qed

lemma addBlocks_mod: "length (snd (addBlocks kind st p)) = length p mod 64"
proof (induction kind st p rule: addBlocks.induct)
  case (1 kind st p)
  then show ?case
    by (cases "length p \<ge> 64") (simp_all add: addBlocks.simps [of kind st p] le_mod_geq addBlocks_short)
qed

lemma blocks64_block: "length b = 64 \<Longrightarrow> blocks64 (b @ p) = b # blocks64 p"
proof -
  assume b: "length b = 64"
  then have "length (b @ p) div 64 = Suc (length p div 64)" by simp
  then show ?thesis using b by (simp add: blocks64_def upt_conv_Cons map_Suc_upt [symmetric] del: upt_Suc)
qed

lemma addBlocks_blocks64: "fst (addBlocks kind st p) = foldl (transformBlock kind) st (blocks64 p)"
proof (induction kind st p rule: addBlocks.induct)
  case (1 kind st p)
  show ?case
  proof (cases "length p \<ge> 64")
    case True
    then have "blocks64 p = take 64 p # blocks64 (drop 64 p)"
      using blocks64_block [of "take 64 p" "drop 64 p"] by simp
    then show ?thesis using 1 True by (simp add: addBlocks.simps [of kind st p])
  qed (simp add: addBlocks_short blocks64_def)
qed

text \<open>What the object holds after the bytes of \<open>msg\<close>.\<close>

definition absorbed :: "DigestKind \<Rightarrow> bytes \<Rightarrow> MessageDigest \<Rightarrow> bool" where
  "absorbed kind msg d \<longleftrightarrow> \<not> hasError d \<and> \<not> finished d \<and> md_kind d = kind
     \<and> digestBytes d = snd (initialState kind) \<and> length (md_block d) = 64
     \<and> addBlocks kind (fst (initialState kind)) msg = (md_state d, take (blockLen d) (md_block d))
     \<and> blockLen d < 64 \<and> totalBytes d = of_nat (length msg)"

lemma memcpyAt_take: "off + length p \<le> length dst \<Longrightarrow> take (off + length p) (memcpyAt dst off p) = take off dst @ p"
  by (simp add: memcpyAt_def)

lemma length_memcpyAt: "off + length p \<le> length dst \<Longrightarrow> length (memcpyAt dst off p) = length dst"
  by (simp add: memcpyAt_def)

lemma fillBlock_absorbs:
  assumes "blockLen d < 64" "length (md_block d) = 64" "fillBlock d p = (d', p')"
  shows "addBlocks (md_kind d) (md_state d) (take (blockLen d) (md_block d) @ p)
           = addBlocks (md_kind d) (md_state d') (take (blockLen d') (md_block d') @ p')"
    and "blockLen d' = 0 \<or> p' = []" "blockLen d' < 64" "length (md_block d') = 64"
    and "d' = d\<lparr>md_state := md_state d', md_block := md_block d', blockLen := blockLen d'\<rparr>"
proof -
  define n where "n = min (64 - blockLen d) (length p)"
  have n: "(if 64 - blockLen d > length p then length p else 64 - blockLen d) = n" by (auto simp: n_def)
  have "n \<le> length p" "blockLen d + n \<le> 64" using assms(1) by (auto simp: n_def)
  then have cp: "take (blockLen d + n) (memcpyAt (md_block d) (blockLen d) (take n p)) = take (blockLen d) (md_block d) @ take n p"
    "length (memcpyAt (md_block d) (blockLen d) (take n p)) = 64"
    using memcpyAt_take [of "blockLen d" "take n p" "md_block d"] length_memcpyAt [of "blockLen d" "take n p" "md_block d"] assms(2)
    by (simp_all add: min_absorb2)
  have full: "addBlocks k st (take (blockLen d) (md_block d) @ p)
      = addBlocks k (transformBlock k st (memcpyAt (md_block d) (blockLen d) (take n p))) (drop n p)"
    if "blockLen d + n = 64" for k st
    using addBlocks_block [of "take (blockLen d) (md_block d) @ take n p" k st "drop n p"] cp that assms(2) by simp
  have part: "n = length p" if "blockLen d + n \<noteq> 64" using that assms(1) by (auto simp: n_def min_def split: if_splits)
  show "addBlocks (md_kind d) (md_state d) (take (blockLen d) (md_block d) @ p)
           = addBlocks (md_kind d) (md_state d') (take (blockLen d') (md_block d') @ p')"
    and "blockLen d' = 0 \<or> p' = []" "blockLen d' < 64" "length (md_block d') = 64"
    and "d' = d\<lparr>md_state := md_state d', md_block := md_block d', blockLen := blockLen d'\<rparr>"
    using assms cp full part \<open>blockLen d + n \<le> 64\<close>
    by (auto simp: fillBlock_def Let_def n split: if_splits)
qed

lemma addData_absorbs:
  assumes d: "absorbed kind msg d"
  shows "absorbed kind (msg @ c) (addData d (Some c) (length c))"
proof (cases "c = []")
  case True
  then show ?thesis using d by (simp add: addData_def)
next
  case False
  define d1 where "d1 = d\<lparr>totalBytes := totalBytes d + of_nat (length c)\<rparr>"
  obtain d' p' where f: "fillBlock d1 c = (d', p')" by fastforce
  obtain st r where a: "addBlocks kind (md_state d') p' = (st, r)" by fastforce
  have nh: "\<not> hasError d" "\<not> finished d" using d by (simp_all add: absorbed_def)
  have k: "md_kind d1 = kind" "blockLen d1 < 64" "length (md_block d1) = 64" using d by (simp_all add: d1_def absorbed_def)
  note fb = fillBlock_absorbs [OF k(2,3) f, unfolded k(1)]
  have same: "md_kind d' = kind" "digestBytes d' = digestBytes d" "\<not> hasError d'" "\<not> finished d'" "totalBytes d' = totalBytes d + of_nat (length c)"
    using d by (subst fb(5), simp add: d1_def absorbed_def)+
  have add: "addData d (Some c) (length c) = (let d = d'\<lparr>md_state := st\<rparr> in
      if length r > 0 then d\<lparr>md_block := memcpyAt (md_block d) 0 r, blockLen := length r\<rparr> else d)"
    using nh False f a same(1) by (simp add: addData_def d1_def [symmetric] Let_def)
  have len: "length r < 64" using addBlocks_mod [of kind "md_state d'" p'] a by simp
  have "addBlocks kind (fst (initialState kind)) (msg @ c)
      = addBlocks kind (md_state d') (take (blockLen d') (md_block d') @ p')"
    using d fb(1) by (subst addBlocks_append) (simp add: absorbed_def d1_def)
  also have "\<dots> = (if r = [] then (st, take (blockLen d') (md_block d')) else (st, r))"
    using fb(2,3) a by (auto simp: addBlocks_short)
  finally show ?thesis
    using d same fb(2,3,4) len a memcpyAt_take [of 0 r "md_block d'"] length_memcpyAt [of 0 r "md_block d'"]
    by (auto simp: absorbed_def add Let_def addBlocks_short)
qed

lemma newDigest_absorbed: "algoToKind algo = Some kind \<Longrightarrow> absorbed kind [] (newDigest algo)"
  by (simp add: absorbed_def newDigest_def Let_def addBlocks_short)

text \<open>The two shapes of the padded tail.\<close>

lemma finalState_spec:
  assumes "absorbed kind msg d"
  shows "finalState d = foldl (transformBlock kind) (fst (initialState kind)) (blocks64 (msg @ mdPadding kind (length msg)))"
proof -
  define r where "r = take (blockLen d) (md_block d)"
  define L where "L = (if kind = DigestMd5 then rev (be_bytes 8 (totalBytes d * 8)) else be_bytes 8 (totalBytes d * 8))"
  have d: "md_kind d = kind" "length r = blockLen d" "blockLen d < 64" "length L = 8"
    and ab: "addBlocks kind (fst (initialState kind)) msg = (md_state d, r)"
    using assms by (auto simp: absorbed_def r_def L_def)
  have mod: "length msg mod 64 = length r" using addBlocks_mod [of kind _ msg] ab by (metis snd_conv)
  have pad: "mdPadding kind (length msg) = 0x80 # replicate ((119 - length r) mod 64) 0 @ L"
    using assms mod by (simp add: mdPadding_def L_def absorbed_def mult.commute)
  have "finalState d = fst (addBlocks kind (md_state d) (r @ 0x80 # replicate ((119 - length r) mod 64) 0 @ L))"
  proof (cases "length r > 55")
    case True
    then have "(119 - length r) mod 64 = (63 - length r) + 56" using d by simp
    then have "replicate ((119 - length r) mod 64) 0 = replicate (63 - length r) (0 :: byte) @ replicate 56 0"
      by (simp only: replicate_add)
    then have split: "r @ 0x80 # replicate ((119 - length r) mod 64) 0 @ L = padTo 64 (r @ [0x80]) @ padTo 56 [] @ L"
      by (simp add: padTo_def)
    moreover have "length (padTo 64 (r @ [0x80])) = 64" "length (padTo 56 [] @ L) = 64" using d by (simp_all add: padTo_def)
    moreover have "finalState d = transformBlock kind (transformBlock kind (md_state d) (padTo 64 (r @ [0x80]))) (padTo 56 [] @ L)"
      using d True by (auto simp: finalState_def Let_def L_def r_def storeLe64_be_bytes storeBe64_be_bytes)
    ultimately show ?thesis
      unfolding split using addBlocks_block [of "padTo 56 [] @ L" kind _ "[]"] by (simp add: addBlocks_block addBlocks_short)
  next
    case False
    then have "(119 - length r) mod 64 = 55 - length r" by (simp add: mod_if)
    then have split: "r @ 0x80 # replicate ((119 - length r) mod 64) 0 @ L = padTo 56 (r @ [0x80]) @ L"
      by (simp add: padTo_def)
    moreover have "length (padTo 56 (r @ [0x80]) @ L) = 64" using d False by (simp add: padTo_def)
    moreover have "finalState d = transformBlock kind (md_state d) (padTo 56 (r @ [0x80]) @ L)"
      using d False by (auto simp: finalState_def Let_def L_def r_def storeLe64_be_bytes storeBe64_be_bytes)
    ultimately show ?thesis
      unfolding split using addBlocks_block [of "padTo 56 (r @ [0x80]) @ L" kind _ "[]"] by (simp add: addBlocks_short)
  qed
  also have "\<dots> = fst (addBlocks kind (fst (initialState kind)) (msg @ mdPadding kind (length msg)))"
    by (subst (2) addBlocks_append) (simp add: ab pad)
  finally show ?thesis by (simp add: addBlocks_blocks64)
qed

lemma foldl_addData_absorbs:
  "absorbed kind msg d \<Longrightarrow> absorbed kind (msg @ concat cs) (foldl (\<lambda>d c. addData d (Some c) (length c)) d cs)"
proof (induction cs arbitrary: msg d)
  case (Cons c cs)
  from Cons.IH [OF addData_absorbs [OF Cons.prems]] show ?case by simp
qed simp

lemma foldl_addData_error:
  "hasError d \<Longrightarrow> foldl (\<lambda>d c. addData d (Some c) (length c)) d cs = d"
  by (induction cs) (simp_all add: addData_def)

lemma md_result_spec:
  assumes "absorbed kind msg d" "algoToKind algo = Some kind"
  shows "fst (md_result d) = digestSpec algo msg"
proof -
  have "\<not> hasError d" "\<not> finished d" "md_kind d = kind" "digestBytes d = snd (initialState kind)"
    using assms(1) by (simp_all add: absorbed_def)
  then show ?thesis
    using assms(2) finalState_spec [OF assms(1)]
    by (simp add: md_result_def digestSpec_def storeLe32_storeBe32 storeBe32_be_bytes Let_def)
qed

text \<open>
  C12. The streaming digest computes the one-shot hash: however the message is cut into
  \<open>addData\<close> calls, \<open>result\<close> is the compression of the padded message in blocks of 64 bytes,
  and the empty string for an algorithm the fallback does not have.
\<close>

theorem digest_streaming:
  "fst (md_result (foldl (\<lambda>d c. addData d (Some c) (length c)) (newDigest algo) chunks)) = digestSpec algo (concat chunks)"
proof (cases "algoToKind algo")
  case None
  then have "hasError (newDigest algo)" by (simp add: newDigest_def Let_def)
  then show ?thesis using None by (simp add: foldl_addData_error md_result_def digestSpec_def)
next
  case (Some kind)
  from md_result_spec [OF foldl_addData_absorbs [OF newDigest_absorbed [OF Some]] Some]
  show ?thesis by simp
qed

text \<open>
  \<open>result\<close> is final: data added afterwards is ignored and every further \<open>result\<close>
  returns the same bytes.
\<close>

theorem digest_final:
  "fst (md_result (foldl (\<lambda>d c. addData d (Some c) (length c)) (snd (md_result d)) chunks)) = fst (md_result d)"
proof -
  have "addData (snd (md_result d)) (Some c) (length c) = snd (md_result d)" for c
    by (simp add: md_result_def addData_def Let_def)
  then have "foldl (\<lambda>d c. addData d (Some c) (length c)) (snd (md_result d)) chunks = snd (md_result d)"
    by (induction chunks) simp_all
  then show ?thesis by (simp add: md_result_def Let_def)
qed

end
