(* ===== verification/Slice_Ring.thy ===== *)
theory Slice_Ring
  imports Qtng_Prelude
begin

text \<open>
  \<open>SliceRingBuffer\<close> of \<open>utils/slice_ring_buffer.cpp\<close>: a byte deque in a region of \<open>2 N\<close>
  virtual bytes whose halves map the same \<open>N\<close> physical bytes.  Pointers are offsets from
  \<open>base\<close>; an access at offset \<open>v\<close> reaches the physical byte \<open>v mod N\<close>.  Sizes are
  natural numbers: the sums the code forms are below the size of a mapped region.  Whether the
  operating system grants a mapping of a capacity is the argument \<open>grant\<close>, and \<open>unit\<close>
  the page size it reports.  The locale \<open>byte_deque\<close> is the contract of the class.
\<close>

section \<open>The code\<close>

datatype ring_error = BadAlloc | OutOfRegion | NoReturn

record ring =
  phys :: bytes
  m_capacity :: nat
  r_head :: nat
  r_tail :: nat

definition pageSize :: "nat \<Rightarrow> nat" where
  "pageSize ps = (if ps \<noteq> 0 then ps else 4096)"

definition roundUp :: "nat \<Rightarrow> nat \<Rightarrow> nat" where
  "roundUp val align = (val + align - 1) div align * align"

definition ring_size :: "ring \<Rightarrow> nat" where
  "ring_size r = r_tail r - r_head r"

definition ring_empty :: "ring \<Rightarrow> bool" where
  "ring_empty r \<longleftrightarrow> r_head r = r_tail r"

text \<open>Reads and writes through the double mapping.\<close>

definition vread :: "bytes \<Rightarrow> nat \<Rightarrow> nat \<Rightarrow> bytes" where
  "vread ph v n = map (\<lambda>i. ph ! ((v + i) mod length ph)) [0..<n]"

fun vwrite :: "bytes \<Rightarrow> nat \<Rightarrow> bytes \<Rightarrow> bytes" where
  "vwrite ph v [] = ph"
| "vwrite ph v (b # bs) = vwrite (ph[v mod length ph := b]) (v + 1) bs"

definition memcpyTo :: "ring \<Rightarrow> nat \<Rightarrow> bytes \<Rightarrow> ring_error + ring" where
  "memcpyTo r v bs =
     (if v + length bs > m_capacity r * 2 then Inl OutOfRegion
      else Inr (r\<lparr> phys := vwrite (phys r) v bs \<rparr>))"

definition ring_data :: "ring \<Rightarrow> bytes" where
  "ring_data r = vread (phys r) (r_head r) (ring_size r)"

definition resetWindow :: "ring \<Rightarrow> ring" where
  "resetWindow r = r\<lparr> r_head := (m_capacity r * 2) div 2, r_tail := (m_capacity r * 2) div 2 \<rparr>"

definition map_ring :: "(nat \<Rightarrow> bool) \<Rightarrow> nat \<Rightarrow> ring option" where
  "map_ring grant cap =
     (if grant cap then Some \<lparr> phys = replicate cap 0, m_capacity = cap, r_head = 0, r_tail = 0 \<rparr> else None)"

definition newRing :: "(nat \<Rightarrow> bool) \<Rightarrow> nat \<Rightarrow> nat \<Rightarrow> ring_error + ring" where
  "newRing grant ps cap =
     (let unit = pageSize ps;
          want = (if cap \<noteq> 0 then roundUp cap unit else unit)
      in case map_ring grant want of
           None \<Rightarrow> Inl BadAlloc
         | Some r \<Rightarrow> Inr (resetWindow r))"

text \<open>\<open>while (newCap < need) newCap *= 2;\<close>\<close>

partial_function (option) doubleCap :: "nat \<Rightarrow> nat \<Rightarrow> nat option" where
  "doubleCap newCap need = (if newCap < need then doubleCap (newCap * 2) need else Some newCap)"

declare doubleCap.simps [code]

definition reserve :: "(nat \<Rightarrow> bool) \<Rightarrow> nat \<Rightarrow> ring \<Rightarrow> nat \<Rightarrow> ring_error + ring" where
  "reserve grant ps r need =
     (if need \<le> m_capacity r then Inr r
      else case doubleCap (if m_capacity r \<noteq> 0 then m_capacity r else pageSize ps) need of
          None \<Rightarrow> Inl NoReturn
        | Some newCap \<Rightarrow>
            let newCap = roundUp newCap (pageSize ps) in
            if newCap = m_capacity r then Inr r
            else
              let s = ring_size r; p = (newCap * 2 - s) div 2 in
              case map_ring grant newCap of
                None \<Rightarrow> Inr r
              | Some n \<Rightarrow> Inr (n\<lparr> phys := vwrite (phys n) p (vread (phys r) (r_head r) s),
                                    r_head := p, r_tail := p + s \<rparr>))"

definition center :: "ring \<Rightarrow> ring_error + ring" where
  "center r =
     (let s = ring_size r;
          p = (m_capacity r * 2 - s) div 2
      in if s \<noteq> 0 \<and> p \<noteq> r_head r then
           case memcpyTo r p (vread (phys r) (r_head r) s) of
             Inl e \<Rightarrow> Inl e
           | Inr r \<Rightarrow> Inr (r\<lparr> r_head := p, r_tail := p + s \<rparr>)
         else Inr (r\<lparr> r_head := p, r_tail := p + s \<rparr>))"

definition pushBack :: "(nat \<Rightarrow> bool) \<Rightarrow> nat \<Rightarrow> ring \<Rightarrow> bytes \<Rightarrow> ring_error + ring" where
  "pushBack grant ps r bs =
     (if bs = [] then Inr r
      else case reserve grant ps r (ring_size r + length bs) of
          Inl e \<Rightarrow> Inl e
        | Inr r \<Rightarrow>
           (case (if r_tail r + length bs > m_capacity r * 2 then center r else Inr r) of
              Inl e \<Rightarrow> Inl e
            | Inr r \<Rightarrow>
               (case memcpyTo r (r_tail r) bs of
                  Inl e \<Rightarrow> Inl e
                | Inr r \<Rightarrow> Inr (r\<lparr> r_tail := r_tail r + length bs \<rparr>))))"

text \<open>\<open>head - n < base\<close> is \<open>head < n\<close> on offsets.\<close>

definition pushFront :: "(nat \<Rightarrow> bool) \<Rightarrow> nat \<Rightarrow> ring \<Rightarrow> bytes \<Rightarrow> ring_error + ring" where
  "pushFront grant ps r bs =
     (if bs = [] then Inr r
      else case reserve grant ps r (ring_size r + length bs) of
          Inl e \<Rightarrow> Inl e
        | Inr r \<Rightarrow>
           (case (if r_head r < length bs then center r else Inr r) of
              Inl e \<Rightarrow> Inl e
            | Inr r \<Rightarrow>
                if r_head r < length bs then Inl OutOfRegion
                else memcpyTo (r\<lparr> r_head := r_head r - length bs \<rparr>) (r_head r - length bs) bs))"

definition popFront :: "ring \<Rightarrow> nat \<Rightarrow> ring" where
  "popFront r n =
     (let c = (if n < ring_size r then n else ring_size r);
          r = r\<lparr> r_head := r_head r + c \<rparr>
      in if ring_empty r then resetWindow r else r)"

definition popBack :: "ring \<Rightarrow> nat \<Rightarrow> ring" where
  "popBack r n =
     (let c = (if n < ring_size r then n else ring_size r);
          r = r\<lparr> r_tail := r_tail r - c \<rparr>
      in if ring_empty r then resetWindow r else r)"

definition ring_clear :: "ring \<Rightarrow> ring" where
  "ring_clear r = resetWindow r"

definition ring_front :: "ring \<Rightarrow> byte" where
  "ring_front r = (if ring_empty r then 0 else phys r ! (r_head r mod length (phys r)))"

definition ring_back :: "ring \<Rightarrow> byte" where
  "ring_back r = (if ring_empty r then 0 else phys r ! ((r_tail r - 1) mod length (phys r)))"

section \<open>The contract of a byte deque\<close>

datatype deque_op = PushBack bytes | PushFront bytes | PopFront nat | PopBack nat | Clear

fun listOp :: "bytes \<Rightarrow> deque_op \<Rightarrow> bytes" where
  "listOp xs (PushBack bs) = xs @ bs"
| "listOp xs (PushFront bs) = bs @ xs"
| "listOp xs (PopFront n) = drop n xs"
| "listOp xs (PopBack n) = take (length xs - n) xs"
| "listOp xs Clear = []"

fun ringOp :: "(nat \<Rightarrow> bool) \<Rightarrow> nat \<Rightarrow> ring \<Rightarrow> deque_op \<Rightarrow> ring_error + ring" where
  "ringOp grant ps r (PushBack bs) = pushBack grant ps r bs"
| "ringOp grant ps r (PushFront bs) = pushFront grant ps r bs"
| "ringOp grant ps r (PopFront n) = Inr (popFront r n)"
| "ringOp grant ps r (PopBack n) = Inr (popBack r n)"
| "ringOp grant ps r Clear = Inr (ring_clear r)"

fun runOps :: "('s \<Rightarrow> 'o \<Rightarrow> 'e + 's) \<Rightarrow> 's \<Rightarrow> 'o list \<Rightarrow> 'e + 's" where
  "runOps f s [] = Inr s"
| "runOps f s (x # xs) = (case f s x of Inl e \<Rightarrow> Inl e | Inr s \<Rightarrow> runOps f s xs)"

definition ringInv :: "ring \<Rightarrow> bool" where
  "ringInv r \<longleftrightarrow> length (phys r) = m_capacity r \<and> 0 < m_capacity r \<and> r_head r \<le> r_tail r
     \<and> r_tail r \<le> m_capacity r * 2 \<and> r_tail r - r_head r \<le> m_capacity r"

locale byte_deque =
  fixes dinv :: "'s \<Rightarrow> bool" and dabs :: "'s \<Rightarrow> bytes" and dop :: "'s \<Rightarrow> deque_op \<Rightarrow> 'e + 's"
  assumes dop_refines: "dinv s \<Longrightarrow> \<exists>s'. dop s op = Inr s' \<and> dinv s' \<and> dabs s' = listOp (dabs s) op"
begin

lemma run_refines: "dinv s \<Longrightarrow> \<exists>s'. runOps dop s ops = Inr s' \<and> dinv s' \<and> dabs s' = foldl listOp (dabs s) ops"
proof (induction ops arbitrary: s)
  case (Cons x ops)
  from dop_refines [OF Cons.prems, of x] Cons.IH show ?case by fastforce
qed simp

lemma never_fails: "dinv s \<Longrightarrow> runOps dop s ops \<noteq> Inl e"
  using run_refines [of s ops] by auto

end

section \<open>The double mapping\<close>

lemma length_vwrite [simp]: "length (vwrite ph v bs) = length ph"
  by (induction bs arbitrary: ph v) auto

lemma length_vread [simp]: "length (vread ph v n) = n"
  by (simp add: vread_def)

lemma vread_0 [simp]: "vread ph v 0 = []"
  by (simp add: vread_def)

lemma vwrite_out: "\<forall>i < length bs. (v + i) mod length ph \<noteq> j \<Longrightarrow> vwrite ph v bs ! j = ph ! j"
proof (induction bs arbitrary: ph v)
  case (Cons c bs)
  from Cons.prems have "v mod length ph \<noteq> j" "\<forall>i < length bs. (v + 1 + i) mod length ph \<noteq> j" by force+
  then show ?case using Cons.IH [of "v + 1" "ph[v mod length ph := c]"] by simp
qed simp

lemma vwrite_in:
  "length bs \<le> length ph \<Longrightarrow> i < length bs \<Longrightarrow> vwrite ph v bs ! ((v + i) mod length ph) = bs ! i"
proof (induction bs arbitrary: ph v i)
  case (Cons b bs)
  have lt: "v mod length ph < length ph" using Cons.prems by (intro mod_less_divisor) auto
  show ?case
  proof (cases i)
    case 0
    have "(v + 1 + k) mod length ph \<noteq> v mod length ph" if "k < length bs" for k
      using mod_window [of "v + 1 + k" "length ph" v] that Cons.prems by auto
    then show ?thesis using 0 lt vwrite_out [of bs "v + 1" "ph[v mod length ph := b]" "v mod length ph"] by simp
  next
    case (Suc k)
    then show ?thesis using Cons.IH [of "ph[v mod length ph := b]" k "v + 1"] Cons.prems by simp
  qed
qed simp

lemma vread_vwrite_same: "length bs \<le> length ph \<Longrightarrow> vread (vwrite ph v bs) v (length bs) = bs"
  by (rule nth_equalityI) (simp_all add: vread_def vwrite_in)

lemma vread_vwrite_apart:
  assumes "u + k \<le> v \<and> v + length bs \<le> u + length ph \<or> v + length bs \<le> u \<and> u + k \<le> v + length ph"
  shows "vread (vwrite ph v bs) u k = vread ph u k"
proof -
  have "(v + i) mod length ph \<noteq> (u + j) mod length ph" if "i < length bs" "j < k" for i j
    using mod_window [of "v + i" "length ph" "u + j"] that assms by auto
  then show ?thesis by (simp add: vread_def vwrite_out)
qed

lemma vread_append: "vread ph v (m + n) = vread ph v m @ vread ph (v + m) n"
  by (rule nth_equalityI) (auto simp: vread_def nth_append intro!: arg_cong [of _ _ "nth ph"])

lemma vread_drop: "drop c (vread ph v n) = vread ph (v + c) (n - c)"
  by (rule nth_equalityI) (auto simp: vread_def ac_simps)

lemma vread_tl: "tl (vread ph v n) = vread ph (Suc v) (n - 1)"
  using vread_drop [of 1 ph v n] by (simp add: drop_Suc)

lemma vread_take: "take c (vread ph v n) = vread ph v (min c n)"
  by (rule nth_equalityI) (auto simp: vread_def)

section \<open>Operations keep the invariant and refine the list operations\<close>

lemma doubleCap_returns:
  assumes "0 < c"
  shows "\<exists>c'. doubleCap c need = Some c' \<and> need \<le> c' \<and> c \<le> c'"
  using assms
proof (induction "need - c" arbitrary: c rule: less_induct)
  case less
  show ?case
  proof (cases "c < need")
    case True
    then have "need - c * 2 < need - c" using less.prems by simp
    from less.hyps [OF this] less.prems True show ?thesis by (subst doubleCap.simps) fastforce
  qed (subst doubleCap.simps, simp)
qed

lemma pageSize_pos [simp]: "0 < pageSize ps"
  by (simp add: pageSize_def)

lemma roundUp_ge: "0 < align \<Longrightarrow> val \<le> roundUp val align"
proof -
  assume a: "0 < align"
  have "val + align - 1 = (val + align - 1) div align * align + (val + align - 1) mod align" by simp
  moreover have "(val + align - 1) mod align < align" using a by simp
  ultimately show ?thesis using a unfolding roundUp_def by linarith
qed

lemma reserve_refines:
  assumes "ringInv r" "\<forall>c. grant c"
  shows "\<exists>r'. reserve grant ps r need = Inr r' \<and> ringInv r' \<and> ring_data r' = ring_data r
    \<and> need \<le> m_capacity r' \<and> ring_size r' = ring_size r"
proof (cases "need \<le> m_capacity r")
  case True
  then show ?thesis using assms by (simp add: reserve_def)
next
  case False
  have pos: "0 < m_capacity r" "ring_size r \<le> m_capacity r" using assms by (auto simp: ringInv_def ring_size_def)
  obtain c where c: "doubleCap (m_capacity r) need = Some c" "need \<le> c" using doubleCap_returns [OF pos(1), of need] by auto
  define c' p where "c' = roundUp c (pageSize ps)" and "p = (c' * 2 - ring_size r) div 2"
  have le: "need \<le> c'" using roundUp_ge [of "pageSize ps" c] c(2) by (simp add: c'_def)
  have "ring_size r \<le> c'" "0 < c'" "c' \<noteq> m_capacity r" using le False pos by auto
  moreover have "p + ring_size r \<le> c' * 2" using \<open>ring_size r \<le> c'\<close> by (simp add: p_def)
  ultimately show ?thesis
    using c False pos le assms(2) vread_vwrite_same [of "vread (phys r) (r_head r) (ring_size r)" "replicate c' 0" p]
    by (simp add: reserve_def Let_def map_ring_def ringInv_def ring_data_def ring_size_def p_def flip: c'_def)
qed

lemma center_refines:
  assumes "ringInv r"
  shows "\<exists>r'. center r = Inr r' \<and> ringInv r' \<and> ring_data r' = ring_data r \<and> m_capacity r' = m_capacity r
    \<and> ring_size r' = ring_size r \<and> r_head r' = (m_capacity r * 2 - ring_size r) div 2"
proof -
  define p where "p = (m_capacity r * 2 - ring_size r) div 2"
  have s: "ring_size r \<le> m_capacity r" "length (phys r) = m_capacity r" using assms by (auto simp: ringInv_def ring_size_def)
  have "p + ring_size r \<le> m_capacity r * 2" using s by (simp add: p_def)
  moreover have "center r = Inr (r\<lparr>phys := (if ring_size r \<noteq> 0 \<and> p \<noteq> r_head r
      then vwrite (phys r) p (vread (phys r) (r_head r) (ring_size r)) else phys r), r_head := p, r_tail := p + ring_size r\<rparr>)"
    using calculation by (simp add: center_def memcpyTo_def Let_def p_def)
  ultimately show ?thesis
    using s assms vread_vwrite_same [of "vread (phys r) (r_head r) (ring_size r)" "phys r" p]
    by (auto simp: ringInv_def ring_data_def ring_size_def [of "r\<lparr>phys := _, r_head := _, r_tail := _\<rparr>"] vread_def simp flip: p_def)
qed

lemma ring_data_length: "length (ring_data r) = ring_size r"
  by (simp add: ring_data_def)

lemma append_window:
  assumes "ringInv r" "ring_size r + length bs \<le> m_capacity r" "r_tail r + length bs \<le> m_capacity r * 2"
  defines "r' \<equiv> r\<lparr>phys := vwrite (phys r) (r_tail r) bs, r_tail := r_tail r + length bs\<rparr>"
  shows "ringInv r' \<and> ring_data r' = ring_data r @ bs"
proof -
  have "ring_size r' = ring_size r + length bs" "r_head r + ring_size r = r_tail r"
    using assms by (auto simp: ringInv_def ring_size_def)
  moreover have "length bs \<le> length (phys r)" using assms by (simp add: ringInv_def)
  ultimately have "ring_data r' = ring_data r @ bs"
    using assms vread_vwrite_same [of bs "phys r" "r_tail r"]
      vread_vwrite_apart [of "r_head r" "ring_size r" "r_tail r" bs "phys r"]
    by (simp add: ring_data_def vread_append r'_def ringInv_def)
  then show ?thesis using assms by (auto simp: ringInv_def ring_size_def)
qed

lemma prepend_window:
  assumes "ringInv r" "ring_size r + length bs \<le> m_capacity r" "length bs \<le> r_head r"
  defines "v \<equiv> r_head r - length bs"
  defines "r' \<equiv> r\<lparr>r_head := v, phys := vwrite (phys r) v bs\<rparr>"
  shows "ringInv r' \<and> ring_data r' = bs @ ring_data r"
proof -
  have "ring_size r' = length bs + ring_size r" "v + length bs = r_head r"
    using assms by (auto simp: ringInv_def ring_size_def)
  moreover have "length bs \<le> length (phys r)" using assms by (simp add: ringInv_def)
  moreover have "r_head r + ring_size r \<le> v + length (phys r)" using assms by (simp add: ringInv_def)
  ultimately have "ring_data r' = bs @ ring_data r"
    using assms(1) vread_vwrite_same [of bs "phys r" v]
      vread_vwrite_apart [of "r_head r" "ring_size r" v bs "phys r"]
    by (simp add: ring_data_def vread_append r'_def)
  then show ?thesis using assms by (auto simp: ringInv_def ring_size_def)
qed

lemma pushBack_refines:
  assumes "ringInv r" "\<forall>c. grant c"
  shows "\<exists>r'. pushBack grant ps r bs = Inr r' \<and> ringInv r' \<and> ring_data r' = ring_data r @ bs"
proof (cases "bs = []")
  case True
  then show ?thesis using assms by (simp add: pushBack_def)
next
  case False
  obtain r1 where r1: "reserve grant ps r (ring_size r + length bs) = Inr r1" "ringInv r1" "ring_data r1 = ring_data r"
    "ring_size r1 + length bs \<le> m_capacity r1"
    using reserve_refines [OF assms, where ps = ps and need = "ring_size r + length bs"] by auto
  obtain r2 where r2: "(if r_tail r1 + length bs > m_capacity r1 * 2 then center r1 else Inr r1) = Inr r2"
    "ringInv r2" "ring_data r2 = ring_data r1" "ring_size r2 + length bs \<le> m_capacity r2" "r_tail r2 + length bs \<le> m_capacity r2 * 2"
  proof (cases "r_tail r1 + length bs > m_capacity r1 * 2")
    case True
    obtain r2 where *: "center r1 = Inr r2" "ringInv r2" "ring_data r2 = ring_data r1" "m_capacity r2 = m_capacity r1"
      "ring_size r2 = ring_size r1" "r_head r2 = (m_capacity r1 * 2 - ring_size r1) div 2"
      using center_refines [OF r1(2)] by auto
    moreover have "r_tail r2 = r_head r2 + ring_size r2" using *(2) by (simp add: ringInv_def ring_size_def)
    ultimately show ?thesis using that r1(4) True by simp
  qed (use r1 that in auto)
  show ?thesis
    using False r1 r2 append_window [OF r2(2,4,5)] by (simp add: pushBack_def memcpyTo_def)
qed

lemma pushFront_refines:
  assumes "ringInv r" "\<forall>c. grant c"
  shows "\<exists>r'. pushFront grant ps r bs = Inr r' \<and> ringInv r' \<and> ring_data r' = bs @ ring_data r"
proof (cases "bs = []")
  case True
  then show ?thesis using assms by (simp add: pushFront_def)
next
  case False
  obtain r1 where r1: "reserve grant ps r (ring_size r + length bs) = Inr r1" "ringInv r1" "ring_data r1 = ring_data r"
    "ring_size r1 + length bs \<le> m_capacity r1"
    using reserve_refines [OF assms, where ps = ps and need = "ring_size r + length bs"] by auto
  obtain r2 where r2: "(if r_head r1 < length bs then center r1 else Inr r1) = Inr r2"
    "ringInv r2" "ring_data r2 = ring_data r1" "ring_size r2 + length bs \<le> m_capacity r2" "length bs \<le> r_head r2"
  proof (cases "r_head r1 < length bs")
    case True
    obtain r2 where *: "center r1 = Inr r2" "ringInv r2" "ring_data r2 = ring_data r1" "m_capacity r2 = m_capacity r1"
      "ring_size r2 = ring_size r1" "r_head r2 = (m_capacity r1 * 2 - ring_size r1) div 2"
      using center_refines [OF r1(2)] by auto
    then show ?thesis using that r1(4) True by simp
  qed (use r1 that in auto)
  have "r_head r2 \<le> m_capacity r2 * 2" using r2(2) by (simp add: ringInv_def)
  then show ?thesis
    using False r1 r2 prepend_window [OF r2(2,4,5)] by (simp add: pushFront_def memcpyTo_def)
qed

lemma resetWindow_refines: "ringInv r \<Longrightarrow> ringInv (resetWindow r) \<and> ring_data (resetWindow r) = []"
  by (simp add: ringInv_def resetWindow_def ring_data_def ring_size_def vread_def)

lemma popFront_refines:
  assumes "ringInv r"
  shows "ringInv (popFront r n) \<and> ring_data (popFront r n) = drop n (ring_data r)"
proof -
  define c where "c = (if n < ring_size r then n else ring_size r)"
  define r1 where "r1 = r\<lparr>r_head := r_head r + c\<rparr>"
  have inv: "ringInv r1" using assms by (auto simp: ringInv_def r1_def c_def ring_size_def)
  have "ring_data r1 = drop n (ring_data r)"
    using assms by (auto simp: ring_data_def vread_drop r1_def c_def ring_size_def)
  moreover have "ring_data r1 = []" if "ring_empty r1"
    using that by (simp add: ring_data_def ring_empty_def ring_size_def vread_def)
  ultimately show ?thesis
    using inv resetWindow_refines [OF inv] by (simp add: popFront_def Let_def flip: c_def r1_def)
qed

lemma popBack_refines:
  assumes "ringInv r"
  shows "ringInv (popBack r n) \<and> ring_data (popBack r n) = take (length (ring_data r) - n) (ring_data r)"
proof -
  define c where "c = (if n < ring_size r then n else ring_size r)"
  define r1 where "r1 = r\<lparr>r_tail := r_tail r - c\<rparr>"
  have inv: "ringInv r1" using assms by (auto simp: ringInv_def r1_def c_def ring_size_def)
  have "ring_data r1 = take (length (ring_data r) - n) (ring_data r)"
    using assms by (auto simp: ring_data_def vread_take r1_def c_def ring_size_def ringInv_def intro!: arg_cong [of _ _ "vread _ _"])
  moreover have "ring_data r1 = []" if "ring_empty r1"
    using that by (simp add: ring_data_def ring_empty_def ring_size_def vread_def)
  ultimately show ?thesis
    using inv resetWindow_refines [OF inv] by (simp add: popBack_def Let_def flip: c_def r1_def)
qed

lemma ringOp_refines:
  assumes "ringInv r" "\<forall>c. grant c"
  shows "\<exists>r'. ringOp grant ps r op = Inr r' \<and> ringInv r' \<and> ring_data r' = listOp (ring_data r) op"
  using assms by (cases op)
    (simp_all add: pushBack_refines pushFront_refines popFront_refines popBack_refines resetWindow_refines ring_clear_def)

interpretation slice_ring: byte_deque ringInv ring_data "ringOp (\<lambda>_. True) ps"
  by unfold_locales (rule ringOp_refines, simp_all)

lemma newRing_ok:
  assumes "\<forall>c. grant c"
  shows "\<exists>r. newRing grant ps cap = Inr r \<and> ringInv r \<and> ring_data r = []"
proof -
  define want where "want = (if cap \<noteq> 0 then roundUp cap (pageSize ps) else pageSize ps)"
  have "0 < want" using roundUp_ge [of "pageSize ps" cap] by (auto simp: want_def)
  then show ?thesis
    using assms by (simp add: newRing_def Let_def map_ring_def resetWindow_def ringInv_def ring_data_def ring_size_def want_def)
qed

text \<open>A ring of \<open>N\<close> bytes that is full and cannot grow.\<close>

lemma push_full_size:
  "ringInv r \<Longrightarrow> ring_size (r\<lparr>phys := ph, r_tail := Suc (r_tail r)\<rparr>) = Suc (ring_size r)"
  by (auto simp: ringInv_def ring_size_def)

lemma push_full:
  assumes "ringInv r" "ring_size r = m_capacity r" "r_tail r + 1 \<le> m_capacity r * 2"
  shows "ring_data (r\<lparr>phys := vwrite (phys r) (r_tail r) [b], r_tail := r_tail r + 1\<rparr>) = b # tl (ring_data r) @ [b]"
proof -
  define N h ph where "N = m_capacity r" and "h = r_head r" and "ph = vwrite (phys r) (r_tail r) [b]"
  have r: "length (phys r) = N" "0 < N" "r_tail r = h + N" "ring_size r = N" "length ph = N"
    using assms by (auto simp: ringInv_def ring_size_def N_def h_def ph_def)
  have new: "vread ph (h + N) 1 = [b]" using vread_vwrite_same [of "[b]" "phys r" "h + N"] r by (simp add: ph_def)
  then have first: "vread ph h 1 = [b]" using r by (simp add: vread_def)
  have mid: "vread ph (h + 1) (N - 1) = tl (ring_data r)"
    using vread_vwrite_apart [of "h + 1" "N - 1" "h + N" "[b]" "phys r"] r
    by (simp add: ph_def ring_data_def h_def [symmetric] vread_tl)
  have "vread ph h (N + 1) = vread ph h 1 @ vread ph (h + 1) (N - 1) @ vread ph (h + N) 1"
    using vread_append [of ph h 1 "(N - 1) + 1"] vread_append [of ph "h + 1" "N - 1" 1] r(2) by simp
  then have "vread ph h (N + 1) = b # tl (ring_data r) @ [b]" using first mid new by simp
  then show ?thesis
    using r unfolding ring_data_def [of "r\<lparr>phys := _, r_tail := _\<rparr>"] by (simp add: ring_size_def h_def [symmetric] ph_def)
qed

lemma reserve_denied:
  assumes "0 < m_capacity r" "\<forall>c. \<not> grant c"
  shows "reserve grant ps r need = Inr r"
  using assms doubleCap_returns [OF assms(1), of need] by (auto simp: reserve_def map_ring_def Let_def)

text \<open>
  C13. \<open>SliceRingBuffer\<close> is a byte deque: when every mapping is granted, any sequence of
  \<open>push_back\<close>, \<open>push_front\<close>, \<open>pop_front\<close>, \<open>pop_back\<close> and \<open>clear\<close> on a new buffer
  returns, never leaves the mapped region, and the contiguous slice at \<open>data()\<close> is what the
  list operations give, through every wrap, recentring and growth.
\<close>

theorem slice_ring_is_deque:
  assumes "\<forall>c. grant c"
  shows "\<exists>r0 r. newRing grant ps cap = Inr r0 \<and> runOps (ringOp grant ps) r0 ops = Inr r
    \<and> ringInv r \<and> ring_data r = foldl listOp [] ops"
proof -
  obtain r0 where r0: "newRing grant ps cap = Inr r0" "ringInv r0" "ring_data r0 = []"
    using newRing_ok [OF assms] by blast
  have "grant = (\<lambda>_. True)" using assms by auto
  then show ?thesis using r0 slice_ring.run_refines [OF r0(2), of ps ops] by auto
qed

theorem slice_ring_is_deque_witness:
  "\<exists>r0 r. newRing (\<lambda>_. True) 4096 0 = Inr r0
    \<and> runOps (ringOp (\<lambda>_. True) 4096) r0 [PushBack [1, 2, 3], PopFront 1, PushFront [9, 8], PopBack 1] = Inr r
    \<and> ringInv r \<and> ring_data r = [9, 8, 2]"
  using slice_ring_is_deque [of "\<lambda>_. True" 4096 0 "[PushBack [1, 2, 3], PopFront 1, PushFront [9, 8], PopBack 1]"]
  by simp

text \<open>
  C38. When a full buffer cannot grow, \<open>reserve\<close> returns without an error and \<open>push_back\<close>
  goes on: the capacity stays, the new byte lands on the physical byte of the oldest one, the
  buffer reports one byte more than its capacity and its first byte is lost.
\<close>

theorem push_back_denied:
  assumes "ringInv r" "ring_size r = m_capacity r" "\<forall>c. \<not> grant c"
  shows "\<exists>r'. pushBack grant ps r [b] = Inr r' \<and> ring_data r' = b # tl (ring_data r) @ [b]
    \<and> m_capacity r' = m_capacity r \<and> ring_size r' = m_capacity r' + 1"
proof -
  have pos: "0 < m_capacity r" using assms(1) by (simp add: ringInv_def)
  show ?thesis
  proof (cases "r_tail r + 1 > m_capacity r * 2")
    case True
    obtain r2 where r2: "center r = Inr r2" "ringInv r2" "ring_data r2 = ring_data r" "m_capacity r2 = m_capacity r"
      "ring_size r2 = ring_size r" "r_head r2 = (m_capacity r * 2 - ring_size r) div 2"
      using center_refines [OF assms(1)] by auto
    moreover have "r_tail r2 = r_head r2 + ring_size r2" using r2(2) by (simp add: ringInv_def ring_size_def)
    ultimately have "r_tail r2 + 1 \<le> m_capacity r2 * 2" using assms(2) pos by simp
    then show ?thesis
      using True r2 assms push_full [OF r2(2)] by (simp add: pushBack_def reserve_denied [OF pos] memcpyTo_def push_full_size)
  next
    case False
    then show ?thesis
      using assms push_full [OF assms(1,2)] by (simp add: pushBack_def reserve_denied [OF pos] memcpyTo_def push_full_size)
  qed
qed

theorem push_back_denied_witness:
  "\<exists>r'. pushBack (\<lambda>_. False) 2 \<lparr>phys = [7, 8], m_capacity = 2, r_head = 1, r_tail = 3\<rparr> [9] = Inr r'
     \<and> ring_data r' = [9, 7, 9] \<and> m_capacity r' = 2 \<and> ring_size r' = 3"
  using push_back_denied [of "\<lparr>phys = [7, 8], m_capacity = 2, r_head = 1, r_tail = 3\<rparr>" "\<lambda>_. False" 2 9]
  by (simp add: ringInv_def ring_size_def ring_data_def vread_def upt_conv_Cons numeral_3_eq_3 cong: conj_cong)

end
