(* ===== verification/Std_Text.thy ===== *)
theory Std_Text
  imports Qtng_Prelude
begin

text \<open>
  Decimal text as the C and C++ library handle it: \<open>isdigit\<close>, \<open>to_string\<close>, and
  \<open>strtoull\<close> and \<open>strtoll\<close> with their saturation, on strings that start at the number.
\<close>

definition isdigit :: "byte \<Rightarrow> bool" where
  "isdigit b \<longleftrightarrow> 0x30 \<le> b \<and> b \<le> 0x39"

definition digitVal :: "byte \<Rightarrow> nat" where
  "digitVal b = unat b - 48"

fun to_string_nat :: "nat \<Rightarrow> bytes" where
  "to_string_nat n = (if n < 10 then [of_nat (48 + n)] else to_string_nat (n div 10) @ [of_nat (48 + n mod 10)])"

declare to_string_nat.simps [simp del]

definition to_string_int :: "int \<Rightarrow> bytes" where
  "to_string_int i = (if i < 0 then 0x2d # to_string_nat (nat (- i)) else to_string_nat (nat i))"

definition digitsVal :: "bytes \<Rightarrow> nat" where
  "digitsVal ds = foldl (\<lambda>v d. v * 10 + digitVal d) 0 ds"

text \<open>The value and the text at \<open>end\<close>.\<close>

definition strtoull :: "bytes \<Rightarrow> nat \<times> bytes" where
  "strtoull s = (min (digitsVal (takeWhile isdigit s)) (2 ^ 64 - 1), dropWhile isdigit s)"

definition strtoll :: "bytes \<Rightarrow> int \<times> bytes" where
  "strtoll s =
     (if s \<noteq> [] \<and> hd s = 0x2d
      then (max (- int (digitsVal (takeWhile isdigit (tl s)))) (- (2 ^ 63)), dropWhile isdigit (tl s))
      else (min (int (digitsVal (takeWhile isdigit s))) (2 ^ 63 - 1), dropWhile isdigit s))"

section \<open>Digits\<close>

lemma unat_of_nat_byte: "n < 256 \<Longrightarrow> unat (of_nat n :: byte) = n"
  by (simp add: unat_of_nat)

lemma digit_char [simp]: "n < 10 \<Longrightarrow> isdigit (of_nat (48 + n))" "n < 10 \<Longrightarrow> digitVal (of_nat (48 + n)) = n"
proof -
  assume "n < 10"
  then have "unat (of_nat (48 + n) :: byte) = 48 + n" by (intro unat_of_nat_byte) simp
  then show "isdigit (of_nat (48 + n))" "digitVal (of_nat (48 + n)) = n"
    using \<open>n < 10\<close> by (simp_all add: isdigit_def digitVal_def word_le_nat_alt del: of_nat_add)
qed

lemma isdigit_bounds: "isdigit b \<Longrightarrow> digitVal b < 10" "isdigit b \<Longrightarrow> of_nat (48 + digitVal b) = b"
proof -
  assume b: "isdigit b"
  then have r: "48 \<le> unat b" "unat b \<le> 57" by (simp_all add: isdigit_def word_le_nat_alt)
  then show "digitVal b < 10" by (simp add: digitVal_def)
  have "48 + digitVal b = unat b" using r by (simp add: digitVal_def)
  then show "of_nat (48 + digitVal b) = b" by (simp only: of_nat_unat) simp
qed

lemma digitsVal_snoc [simp]: "digitsVal (ds @ [d]) = digitsVal ds * 10 + digitVal d"
  by (simp add: digitsVal_def)

lemma digitsVal_Nil [simp]: "digitsVal [] = 0"
  by (simp add: digitsVal_def)

lemma to_string_digits [simp]: "b \<in> set (to_string_nat n) \<Longrightarrow> isdigit b"
proof (induction n arbitrary: b rule: to_string_nat.induct)
  case (1 n)
  then show ?case
    by (subst (asm) (2) to_string_nat.simps) (auto split: if_splits simp del: of_nat_add)
qed

lemma to_string_nonempty [simp]: "to_string_nat n \<noteq> []"
  by (subst to_string_nat.simps) simp

lemma digitsVal_to_string [simp]: "digitsVal (to_string_nat n) = n"
proof (induction n rule: to_string_nat.induct)
  case (1 n)
  show ?case
  proof (cases "n < 10")
    case True
    then show ?thesis using digitsVal_snoc [of "[]" "of_nat (48 + n)"]
      by (subst to_string_nat.simps) (simp del: of_nat_add)
  next
    case False
    then show ?thesis using 1 by (subst to_string_nat.simps) (simp del: of_nat_add)
  qed
qed

lemma to_string_inj: "to_string_nat m = to_string_nat n \<longleftrightarrow> m = n"
  by (metis digitsVal_to_string)

lemma length_to_string: "0 < k \<Longrightarrow> n < 10 ^ k \<Longrightarrow> length (to_string_nat n) \<le> k"
proof (induction k arbitrary: n rule: nat_induct_non_zero)
  case 1
  then show ?case by (subst to_string_nat.simps) simp
next
  case (Suc k)
  then have "n div 10 < 10 ^ k" by (simp add: less_mult_imp_div_less mult.commute)
  then show ?case using Suc by (subst to_string_nat.simps) auto
qed

lemma to_string_leading: "n > 0 \<Longrightarrow> hd (to_string_nat n) \<noteq> 0x30"
proof (induction n rule: to_string_nat.induct)
  case (1 n)
  show ?case
  proof (cases "n < 10")
    case True
    then have "unat (of_nat (48 + n) :: byte) = 48 + n" by (intro unat_of_nat_byte) simp
    then have "of_nat (48 + n) \<noteq> (0x30 :: byte)" using 1 by (auto simp del: of_nat_add)
    then show ?thesis using True by (subst to_string_nat.simps) simp
  next
    case False
    then show ?thesis using 1 by (subst to_string_nat.simps) (simp add: hd_append)
  qed
qed

lemma to_string_0 [simp]: "to_string_nat 0 = [0x30]"
  by (subst to_string_nat.simps) simp

lemma strtoull_digits: "\<forall>b \<in> set ds. isdigit b \<Longrightarrow> strtoull ds = (min (digitsVal ds) (2 ^ 64 - 1), [])"
  by (simp add: strtoull_def takeWhile_eq_all_conv [THEN iffD2] dropWhile_eq_Nil_conv [THEN iffD2])

lemma minus_not_digit [simp]: "\<not> isdigit 0x2d"
  by (simp add: isdigit_def)

lemma strtoll_digits: "\<forall>b \<in> set ds. isdigit b \<Longrightarrow> strtoll ds = (min (int (digitsVal ds)) (2 ^ 63 - 1), [])"
  "\<forall>b \<in> set ds. isdigit b \<Longrightarrow> strtoll (0x2d # ds) = (max (- int (digitsVal ds)) (- (2 ^ 63)), [])"
proof -
  assume d: "\<forall>b \<in> set ds. isdigit b"
  then have "\<not> (ds \<noteq> [] \<and> hd ds = 0x2d)" by (metis hd_in_set minus_not_digit)
  then show "strtoll ds = (min (int (digitsVal ds)) (2 ^ 63 - 1), [])"
    using d by (auto simp: strtoll_def takeWhile_eq_all_conv [THEN iffD2] dropWhile_eq_Nil_conv [THEN iffD2])
  show "strtoll (0x2d # ds) = (max (- int (digitsVal ds)) (- (2 ^ 63)), [])"
    using d by (simp add: strtoll_def takeWhile_eq_all_conv [THEN iffD2] dropWhile_eq_Nil_conv [THEN iffD2])
qed

lemma strtoll_range: "- (2 ^ 63) \<le> fst (strtoll s) \<and> fst (strtoll s) \<le> 2 ^ 63 - 1"
  by (simp add: strtoll_def)

lemma strtoll_to_string:
  assumes "- (2 ^ 63) \<le> i" "i \<le> 2 ^ 63 - 1"
  shows "strtoll (to_string_int i) = (i, [])"
  using assms strtoll_digits [of "to_string_nat (nat i)"] strtoll_digits(2) [of "to_string_nat (nat (- i))"]
  by (auto simp: to_string_int_def)

end
