(* ===== verification/Bytes_IO.thy ===== *)
theory Bytes_IO
  imports Qtng_Prelude
begin

text \<open>
  The in-memory file \<open>BytesIO\<close> of \<open>io_utils.cpp\<close>, and the loop with which the bencode and
  MessagePack streams fill a buffer from a device.  Positions and lengths are natural numbers;
  buffers are below \<open>2^31\<close> bytes, where the casts to \<open>int32_t\<close> are the identity.
\<close>

section \<open>The in-memory device\<close>

record BytesIO =
  bio_buf :: bytes
  bio_pos :: nat

definition bio_read :: "BytesIO \<Rightarrow> nat \<Rightarrow> bytes \<times> BytesIO" where
  "bio_read d n =
     (let available = int (length (bio_buf d)) - int (bio_pos d) in
      if available \<le> 0 then ([], d)
      else
        let toRead = min n (nat available)
        in (take toRead (drop (bio_pos d) (bio_buf d)), d\<lparr> bio_pos := bio_pos d + toRead \<rparr>))"

definition bio_write :: "BytesIO \<Rightarrow> bytes \<Rightarrow> BytesIO" where
  "bio_write d bs =
     (let buf = bio_buf d;
          buf = (if bio_pos d > length buf then buf @ replicate (bio_pos d - length buf) 0 else buf);
          n = bio_pos d + length bs;
          buf = (if n > length buf then buf @ replicate (n - length buf) 0 else buf)
      in d\<lparr> bio_buf := take (bio_pos d) buf @ bs @ drop n buf, bio_pos := n \<rparr>)"

definition bio_size :: "BytesIO \<Rightarrow> nat" where
  "bio_size d = length (bio_buf d)"

definition bio_readall :: "BytesIO \<Rightarrow> bytes" where
  "bio_readall d = (if bio_pos d \<ge> length (bio_buf d) then [] else drop (bio_pos d) (bio_buf d))"

text \<open>\<open>dev->read\<close> until \<open>need\<close> bytes are there; the second empty read gives up.\<close>

function readLoop :: "BytesIO \<Rightarrow> nat \<Rightarrow> bool \<Rightarrow> bytes option \<times> BytesIO" where
  "readLoop d need metZero =
     (if need = 0 then (Some [], d)
      else
        let (got, d') = bio_read d need in
        if got = [] then (if \<not> metZero then readLoop d' need True else (None, d'))
        else
          let (more, d'') = readLoop d' (need - length got) metZero
          in (map_option (\<lambda>bs. got @ bs) more, d''))"
  by auto
termination
  by (relation "measures [\<lambda>(d, n, z). n, \<lambda>(d, n, z). if z then 0 else 1]") auto

declare readLoop.simps [simp del]

section \<open>What is left to read\<close>

definition bio_rest :: "BytesIO \<Rightarrow> bytes" where
  "bio_rest d = drop (bio_pos d) (bio_buf d)"

lemma bio_read_rest: "\<exists>d'. bio_read d n = (take n (bio_rest d), d') \<and> bio_rest d' = drop n (bio_rest d)"
  by (auto simp: bio_read_def bio_rest_def Let_def min_def add.commute)

lemma readLoop_0: "readLoop d 0 z = (Some [], d)"
  by (subst readLoop.simps) simp

lemma readLoop_empty:
  assumes "bio_rest d = []" "0 < need"
  shows "\<exists>d'. readLoop d need z = (None, d')"
proof -
  have stop: "\<exists>d'. readLoop d need True = (None, d')" if "bio_rest d = []" for d
    using bio_read_rest [of d need] that assms(2) by (subst readLoop.simps) auto
  obtain d' where d': "bio_read d need = ([], d')" "bio_rest d' = []" using bio_read_rest [of d need] assms(1) by auto
  show ?thesis using stop [OF d'(2)] assms(2) by (subst readLoop.simps) (simp add: d'(1))
qed

lemma readLoop_spec:
  "\<exists>d'. readLoop d need z = (if need \<le> length (bio_rest d) then Some (take need (bio_rest d)) else None, d')
    \<and> (need \<le> length (bio_rest d) \<longrightarrow> bio_rest d' = drop need (bio_rest d))"
proof (cases "need = 0 \<or> bio_rest d = []")
  case True
  then show ?thesis using readLoop_0 [of d z] readLoop_empty [of d need z] by auto
next
  case False
  obtain d' where d': "bio_read d need = (take need (bio_rest d), d')" "bio_rest d' = drop need (bio_rest d)"
    using bio_read_rest by blast
  show ?thesis
  proof (cases "need \<le> length (bio_rest d)")
    case True
    then have "readLoop d need z = (Some (take need (bio_rest d)), d')"
      using False d' by (subst readLoop.simps) (auto simp: readLoop_0)
    then show ?thesis using True d' by auto
  next
    case short: False
    then have "bio_rest d' = []" "0 < need - length (bio_rest d)" using d' by simp_all
    from readLoop_empty [OF this] obtain d'' where "readLoop d' (need - length (bio_rest d)) z = (None, d'')" by blast
    then have "readLoop d need z = (None, d'')"
      using False short d' by (subst readLoop.simps) auto
    then show ?thesis using short by auto
  qed
qed


section \<open>Copying a file\<close>

text \<open>\<open>sendfile\<close> between two in-memory files, where a write is always complete; a negative \<open>bytesToCopy\<close> copies to the end.\<close>

function sendLoop :: "BytesIO \<Rightarrow> BytesIO \<Rightarrow> int \<Rightarrow> nat \<Rightarrow> nat \<Rightarrow> nat \<times> BytesIO \<times> BytesIO" where
  "sendLoop inp out bytesToCopy block copied =
     (if bytesToCopy < 0 \<or> int copied < bytesToCopy then
        let toRead = (if bytesToCopy \<ge> 0 then min block (nat bytesToCopy - copied) else block);
            (buf, inp') = bio_read inp toRead
        in if buf = [] then (copied, inp', out)
           else sendLoop inp' (bio_write out buf) bytesToCopy block (copied + length buf)
      else (copied, inp, out))"
  by auto
termination
proof (relation "measure (\<lambda>(inp, _). length (bio_rest inp))")
  fix inp out :: BytesIO and bytesToCopy :: int and block copied toRead p and buf :: bytes and inp' :: BytesIO
  assume "p = bio_read inp toRead" "(buf, inp') = p" "buf \<noteq> []"
  then show "((inp', bio_write out buf, bytesToCopy, block, copied + length buf), inp, out, bytesToCopy, block, copied)
      \<in> measure (\<lambda>(inp, _). length (bio_rest inp))"
    using bio_read_rest [of inp toRead] by (cases "bio_rest inp") (auto simp: take_eq_Nil split: if_splits)
qed simp

declare sendLoop.simps [simp del]

definition bio_sendfile :: "BytesIO \<Rightarrow> BytesIO \<Rightarrow> int \<Rightarrow> int \<Rightarrow> bool \<times> BytesIO \<times> BytesIO" where
  "bio_sendfile inp out bytesToCopy suitableBlockSize =
     (let block = (if suitableBlockSize \<le> 0 then 1024 * 8 else nat suitableBlockSize);
          (copied, inp, out) = sendLoop inp out bytesToCopy block 0
      in (\<not> (bytesToCopy \<ge> 0 \<and> int copied \<noteq> bytesToCopy), inp, out))"

lemma bio_write_end: "bio_pos d = length (bio_buf d) \<Longrightarrow> bio_write d bs = \<lparr> bio_buf = bio_buf d @ bs, bio_pos = length (bio_buf d) + length bs \<rparr>"
  by (simp add: bio_write_def Let_def)

text \<open>The bytes that a copy of \<open>n\<close> bytes (all of them when negative) takes.\<close>

definition copyPart :: "int \<Rightarrow> bytes \<Rightarrow> bytes" where
  "copyPart n bs = (if n < 0 then bs else take (nat n) bs)"

lemma take_split: "t \<le> k \<Longrightarrow> take k xs = take t xs @ take (k - length (take t xs)) (drop t xs)"
  using take_add [of t "k - t" xs] by (cases "t \<le> length xs") auto

lemma sendLoop_copies:
  assumes "bio_pos out = length (bio_buf out)" "0 < block"
  shows "\<exists>inp' out'. sendLoop inp out n block copied
      = (copied + length (copyPart (if n < 0 then n else max 0 (n - int copied)) (bio_rest inp)), inp', out')
    \<and> bio_buf out' = bio_buf out @ copyPart (if n < 0 then n else max 0 (n - int copied)) (bio_rest inp)"
  using assms
proof (induction inp out n block copied rule: sendLoop.induct)
  case (1 inp out n block copied)
  define toRead where "toRead = (if n \<ge> 0 then min block (nat n - copied) else block)"
  obtain inp' where r: "bio_read inp toRead = (take toRead (bio_rest inp), inp')" "bio_rest inp' = drop toRead (bio_rest inp)"
    using bio_read_rest by blast
  show ?case
  proof (cases "n < 0 \<or> int copied < n")
    case False
    then show ?thesis by (subst sendLoop.simps) (auto simp: copyPart_def)
  next
    case go: True
    then have pos: "0 < toRead" using "1.prems"(2) by (auto simp: toRead_def)
    show ?thesis
    proof (cases "bio_rest inp = []")
      case True
      then show ?thesis using go r by (subst sendLoop.simps) (auto simp: copyPart_def Let_def simp flip: toRead_def)
    next
      case False
      let ?got = "take toRead (bio_rest inp)"
      have got: "?got \<noteq> []" using pos False by simp
      have out: "bio_pos (bio_write out ?got) = length (bio_buf (bio_write out ?got))"
        "bio_buf (bio_write out ?got) = bio_buf out @ ?got"
        using "1.prems" by (simp_all add: bio_write_end)
      have step: "sendLoop inp out n block copied = sendLoop inp' (bio_write out ?got) n block (copied + length ?got)"
        using go got r by (subst sendLoop.simps) (simp add: Let_def flip: toRead_def)
      have part: "copyPart (if n < 0 then n else max 0 (n - int copied)) (bio_rest inp)
          = ?got @ copyPart (if n < 0 then n else max 0 (n - int (copied + length ?got))) (bio_rest inp')"
      proof (cases "n < 0")
        case False
        then have "toRead \<le> nat (n - int copied)" by (auto simp: toRead_def)
        moreover have "nat (n - int (copied + l)) = nat (n - int copied) - l" for l by linarith
        ultimately show ?thesis
          using False go take_split [of toRead "nat (n - int copied)" "bio_rest inp"] by (simp add: copyPart_def r(2) max_def)
      qed (simp add: copyPart_def r(2))
      obtain inp2 out2 where "sendLoop inp' (bio_write out ?got) n block (copied + length ?got)
          = (copied + length ?got + length (copyPart (if n < 0 then n else max 0 (n - int (copied + length ?got))) (bio_rest inp')), inp2, out2)"
        "bio_buf out2 = bio_buf (bio_write out ?got) @ copyPart (if n < 0 then n else max 0 (n - int (copied + length ?got))) (bio_rest inp')"
        using "1.IH" [OF go toRead_def r(1) [symmetric] refl got out(1) "1.prems"(2)] by blast
      then show ?thesis unfolding step part out(2) by simp
    qed
  qed
qed

text \<open>A copy succeeds unless the input is too short, and appends exactly the bytes asked for.\<close>

lemma bio_sendfile_copies:
  assumes "bio_pos out = length (bio_buf out)"
  shows "\<exists>inp' out'. bio_sendfile inp out n block = (n < 0 \<or> nat n \<le> length (bio_rest inp), inp', out')
    \<and> bio_buf out' = bio_buf out @ copyPart n (bio_rest inp)"
proof -
  have "0 < (if block \<le> 0 then 1024 * 8 else nat block)" by simp
  from sendLoop_copies [OF assms this, of inp n 0] show ?thesis
    by (auto simp: bio_sendfile_def Let_def copyPart_def)
qed

section \<open>Reading a file to its end\<close>

text \<open>
  The loop of \<open>FileLike::readall\<close> over the virtual \<open>read\<close>, which gives \<open>None\<close> on an error.  It may
  run for ever on a file that never ends.
\<close>

partial_function (option) readallLoop :: "('f \<Rightarrow> bytes option \<times> 'f) \<Rightarrow> bytes \<Rightarrow> 'f \<Rightarrow> (bytes \<times> 'f) option" where
  "readallLoop rd dat f =
     (case rd f of
        (None, f') \<Rightarrow> Some (dat, f')
      | (Some bs, f') \<Rightarrow> if bs = [] then Some (dat, f') else readallLoop rd (dat @ bs) f')"

text \<open>\<open>FileLike::readall\<close> of a file that announces \<open>s\<close> bytes: the flag \<open>ok\<close>, the data and the file behind it.\<close>

definition fileReadall :: "(nat \<Rightarrow> 'f \<Rightarrow> bytes option \<times> 'f) \<Rightarrow> int \<Rightarrow> 'f \<Rightarrow> (bool \<times> bytes \<times> 'f) option" where
  "fileReadall rd s f =
     (if s \<ge> 2 ^ 31 - 1 then Some (False, [], f)
      else map_option (\<lambda>(dat, f'). (s < 0 \<or> int (length dat) = s, dat, f')) (readallLoop (rd (1024 * 8)) [] f))"

text \<open>
  The contract that \<open>io_utils.h\<close> states for \<open>read\<close>: some of the bytes that are left, at most as many as asked
  for, and none only at the end.
\<close>

locale file_like =
  fixes rd :: "nat \<Rightarrow> 'f \<Rightarrow> bytes option \<times> 'f" and rest :: "'f \<Rightarrow> bytes" and inv :: "'f \<Rightarrow> bool"
  assumes rd_some: "inv f \<Longrightarrow> 0 < n \<Longrightarrow> \<exists>k f'. rd n f = (Some (take k (rest f)), f') \<and> inv f' \<and> rest f' = drop k (rest f)
    \<and> k \<le> n \<and> (rest f \<noteq> [] \<longrightarrow> 0 < k)"
begin

lemma readall_loop:
  assumes "inv f" "0 < n"
  shows "\<exists>f'. readallLoop (rd n) dat f = Some (dat @ rest f, f') \<and> inv f' \<and> rest f' = []"
  using assms(1)
proof (induction "length (rest f)" arbitrary: dat f rule: less_induct)
  case less
  obtain k f' where f': "rd n f = (Some (take k (rest f)), f')" "inv f'" "rest f' = drop k (rest f)" "rest f \<noteq> [] \<longrightarrow> 0 < k"
    using rd_some [OF less.prems assms(2)] by blast
  show ?case
  proof (cases "rest f = []")
    case True
    then show ?thesis using f' by (subst readallLoop.simps) simp
  next
    case False
    then have "length (rest f') < length (rest f)" using f' by simp
    from less.hyps [OF this f'(2), of "dat @ take k (rest f)"] f' False show ?thesis
      by (subst readallLoop.simps) auto
  qed
qed

text \<open>It ends, returns all the bytes, and says so unless the announced size is another one.\<close>

lemma readall_all:
  assumes "inv f" "s < 2 ^ 31 - 1"
  shows "\<exists>f'. fileReadall rd s f = Some (s < 0 \<or> int (length (rest f)) = s, rest f, f') \<and> inv f' \<and> rest f' = []"
  using readall_loop [OF assms(1), of "1024 * 8" "[]"] assms(2) by (auto simp: fileReadall_def)

end

interpretation bioFile: file_like "\<lambda>n d. (\<lambda>(bs, d'). (Some bs, d')) (bio_read d n)" bio_rest "\<lambda>_. True"
proof
  fix d :: BytesIO and n :: nat
  assume "0 < n"
  obtain d' where "bio_read d n = (take n (bio_rest d), d')" "bio_rest d' = drop n (bio_rest d)" using bio_read_rest by blast
  then show "\<exists>k f'. (\<lambda>(bs, d'). (Some bs, d')) (bio_read d n) = (Some (take k (bio_rest d)), f') \<and> True
      \<and> bio_rest f' = drop k (bio_rest d) \<and> k \<le> n \<and> (bio_rest d \<noteq> [] \<longrightarrow> 0 < k)"
    using \<open>0 < n\<close> by (intro exI [of _ n] exI [of _ d']) simp
qed

text \<open>The override \<open>BytesIO::readall\<close> returns what the inherited loop would.\<close>

lemma bio_readall_inherited:
  "\<exists>d'. readallLoop (\<lambda>d. (\<lambda>(bs, d'). (Some bs, d')) (bio_read d (1024 * 8))) [] d = Some (bio_readall d, d')"
  using bioFile.readall_loop [of "1024 * 8" "[]" d] by (auto simp: bio_readall_def bio_rest_def)

end
