(* ===== verification/Bencode.thy ===== *)
theory Bencode
  imports Std_Text Std_Map Bytes_IO "HOL-Library.List_Lexorder"
begin

text \<open>
  The bencode codec of \<open>bencode.cpp\<close>: values, the writer, and the reader on the in-memory
  device with the one-byte look-ahead and the allocation budget.  Positions and lengths are
  natural numbers; inputs are below \<open>2^31\<close> bytes, where the 32-bit casts are the identity.
\<close>

section \<open>Values and streams\<close>

datatype Bencode = Invalid | Integer int | String bytes | List "Bencode list" | Dict "(bytes \<times> Bencode) list"

datatype Status = Ok | ReadPastEnd | ReadCorruptData | WriteFailed

record stream =
  bs_dev :: BytesIO
  bs_status :: Status
  bs_limit :: nat
  allocLimit :: nat
  bs_pos :: nat
  bytesAllocated :: nat
  hasPeekByte :: bool
  peekByteCache :: byte

definition readStream :: "bytes \<Rightarrow> stream" where
  "readStream a =
     \<lparr> bs_dev = \<lparr> bio_buf = a, bio_pos = 0 \<rparr>, bs_status = Ok, bs_limit = length a mod 2 ^ 32,
       allocLimit = 16 * 1024 * 1024, bs_pos = 0, bytesAllocated = 0, hasPeekByte = False, peekByteCache = 0 \<rparr>"

definition writeStream :: stream where
  "writeStream =
     \<lparr> bs_dev = \<lparr> bio_buf = [], bio_pos = 0 \<rparr>, bs_status = Ok, bs_limit = 2 ^ 32 - 1,
       allocLimit = 16 * 1024 * 1024, bs_pos = 0, bytesAllocated = 0, hasPeekByte = False, peekByteCache = 0 \<rparr>"

text \<open>
  A member function that returns \<open>bool\<close> and fills a result: the value and the stream, the
  stream of a failure, or no return.
\<close>

datatype 'a io = Ret 'a stream | Fail stream | NoReturn

fun bindS :: "'a io \<Rightarrow> ('a \<Rightarrow> stream \<Rightarrow> 'b io) \<Rightarrow> 'b io" where
  "bindS (Ret a s) k = k a s"
| "bindS (Fail s) k = Fail s"
| "bindS NoReturn k = NoReturn"

definition failS :: "Status \<Rightarrow> stream \<Rightarrow> 'a io" where
  "failS st s = Fail (s\<lparr> bs_status := st \<rparr>)"

section \<open>Reading\<close>

definition readBytes :: "nat \<Rightarrow> stream \<Rightarrow> bytes io" where
  "readBytes n s =
     (if bs_status s \<noteq> Ok then Fail s
      else if bs_pos s + n > bs_limit s then failS ReadPastEnd s
      else
        let (pre, s) = (if hasPeekByte s \<and> n > 0 then ([peekByteCache s], s\<lparr> hasPeekByte := False \<rparr>) else ([], s))
        in case readLoop (bs_dev s) (n - length pre) False of
             (None, d) \<Rightarrow> failS ReadPastEnd (s\<lparr> bs_dev := d \<rparr>)
           | (Some bs, d) \<Rightarrow> Ret (pre @ bs) (s\<lparr> bs_dev := d, bs_pos := bs_pos s + n \<rparr>))"

definition ensurePeekCached :: "stream \<Rightarrow> bool \<times> stream" where
  "ensurePeekCached s =
     (if hasPeekByte s then (True, s)
      else if bs_status s \<noteq> Ok then (False, s)
      else if bs_pos s \<ge> bs_limit s then (False, s)
      else case readLoop (bs_dev s) 1 False of
          (None, d) \<Rightarrow> (False, s\<lparr> bs_dev := d, bs_status := ReadPastEnd \<rparr>)
        | (Some bs, d) \<Rightarrow> (True, s\<lparr> bs_dev := d, peekByteCache := hd bs, hasPeekByte := True \<rparr>))"

definition peekByte :: "stream \<Rightarrow> byte option \<times> stream" where
  "peekByte s = (let (ok, s) = ensurePeekCached s in (if ok then Some (peekByteCache s) else None, s))"

definition consumeByte :: "byte \<Rightarrow> stream \<Rightarrow> unit io" where
  "consumeByte expected s =
     bindS (readBytes 1 s) (\<lambda>c s. if hd c \<noteq> expected then failS ReadCorruptData s else Ret () s)"

definition account :: "nat \<Rightarrow> stream \<Rightarrow> unit io" where
  "account n s =
     (if bytesAllocated s > allocLimit s \<or> n > allocLimit s - bytesAllocated s then failS ReadCorruptData s
      else Ret () (s\<lparr> bytesAllocated := bytesAllocated s + n \<rparr>))"

function readDigits :: "bytes \<Rightarrow> stream \<Rightarrow> bytes io" where
  "readDigits digits s =
     (case readBytes 1 s of
        Fail s \<Rightarrow> Fail s
      | NoReturn \<Rightarrow> NoReturn
      | Ret bs s \<Rightarrow>
          let c = hd bs in
          if c = 0x65 then Ret digits s
          else if \<not> isdigit c then failS ReadCorruptData s
          else
            let digits = digits @ [c] in
            if length digits > 20 then failS ReadCorruptData s else readDigits digits s)"
  by auto
termination by (relation "measure (\<lambda>(ds, s). 21 - length ds)") auto

declare readDigits.simps [simp del]

text \<open>The part of \<open>readInteger\<close> after the optional sign, with the first digit \<open>c\<close>.\<close>

definition readMagnitude :: "bytes \<Rightarrow> byte \<Rightarrow> stream \<Rightarrow> int io" where
  "readMagnitude digits c s =
     (if \<not> isdigit c then failS ReadCorruptData s
      else if c = 0x30 then
        bindS (readBytes 1 s) (\<lambda>c s. if hd c \<noteq> 0x65 then failS ReadCorruptData s else Ret 0 s)
      else
        bindS (readDigits (digits @ [c]) s) (\<lambda>digits s.
          if digits = [0x2d, 0x30] then failS ReadCorruptData s
          else
            let (v, end) = strtoll digits
            in if end \<noteq> [] then failS ReadCorruptData s else Ret v s))"

definition readInteger :: "stream \<Rightarrow> int io" where
  "readInteger s =
     bindS (consumeByte 0x69 s) (\<lambda>_ s.
     bindS (readBytes 1 s) (\<lambda>c s.
       if hd c = 0x2d then bindS (readBytes 1 s) (\<lambda>c s. readMagnitude [0x2d] (hd c) s)
       else readMagnitude [] (hd c) s))"

function readLength :: "bytes \<Rightarrow> stream \<Rightarrow> bytes io" where
  "readLength lenDigits s =
     (case peekByte s of
        (None, s) \<Rightarrow> Ret lenDigits s
      | (Some c, s) \<Rightarrow>
          if \<not> isdigit c then Ret lenDigits s
          else case readBytes 1 s of
              Fail s \<Rightarrow> Fail s
            | NoReturn \<Rightarrow> NoReturn
            | Ret bs s \<Rightarrow>
                let lenDigits = lenDigits @ [hd bs] in
                if length lenDigits > 10 then failS ReadCorruptData s else readLength lenDigits s)"
  by auto
termination by (relation "measure (\<lambda>(ds, s). 11 - length ds)") auto

declare readLength.simps [simp del]

definition readString :: "stream \<Rightarrow> bytes io" where
  "readString s =
     (case peekByte s of
        (None, s) \<Rightarrow> failS ReadPastEnd s
      | (Some c, s) \<Rightarrow>
          if \<not> isdigit c then failS ReadCorruptData s
          else
            bindS (readLength [] s) (\<lambda>lenDigits s.
            if lenDigits = [] \<or> length lenDigits > 1 \<and> hd lenDigits = 0x30 then failS ReadCorruptData s
            else
              bindS (consumeByte 0x3a s) (\<lambda>_ s.
              let (len, end) = strtoull lenDigits in
              if end \<noteq> [] \<or> len > allocLimit s then failS ReadCorruptData s
              else
                bindS (account len s) (\<lambda>_ s.
                if len > 0 then readBytes len s else Ret [] s))))"

fun readValue :: "nat \<Rightarrow> stream \<Rightarrow> Bencode io"
  and readList :: "nat \<Rightarrow> Bencode list \<Rightarrow> stream \<Rightarrow> Bencode io"
  and readDict :: "nat \<Rightarrow> (bytes, Bencode) smap \<Rightarrow> stream \<Rightarrow> Bencode io" where
  "readValue 0 s = NoReturn"
| "readValue (Suc fuel) s =
     (case peekByte s of
        (None, s) \<Rightarrow> failS ReadPastEnd s
      | (Some c, s) \<Rightarrow>
          if c = 0x69 then bindS (readInteger s) (\<lambda>i s. Ret (Integer i) s)
          else if c = 0x6c then bindS (consumeByte 0x6c s) (\<lambda>_ s. readList fuel [] s)
          else if c = 0x64 then bindS (consumeByte 0x64 s) (\<lambda>_ s. readDict fuel [] s)
          else if isdigit c then bindS (readString s) (\<lambda>str s. Ret (String str) s)
          else failS ReadCorruptData s)"
| "readList 0 vs s = NoReturn"
| "readList (Suc fuel) vs s =
     (case peekByte s of
        (None, s) \<Rightarrow> failS ReadPastEnd s
      | (Some c, s) \<Rightarrow>
          if c = 0x65 then bindS (consumeByte 0x65 s) (\<lambda>_ s. Ret (List vs) s)
          else
            bindS (readValue fuel s) (\<lambda>item s.
            bindS (account 1 s) (\<lambda>_ s. readList fuel (vs @ [item]) s)))"
| "readDict 0 m s = NoReturn"
| "readDict (Suc fuel) m s =
     (case peekByte s of
        (None, s) \<Rightarrow> failS ReadPastEnd s
      | (Some c, s) \<Rightarrow>
          if c = 0x65 then bindS (consumeByte 0x65 s) (\<lambda>_ s. Ret (Dict m) s)
          else
            bindS (readString s) (\<lambda>key s.
            bindS (readValue fuel s) (\<lambda>val s.
            bindS (account 1 s) (\<lambda>_ s. readDict fuel (smap_put key val m) s))))"

section \<open>Writing\<close>

definition writeBytes :: "bytes \<Rightarrow> stream \<Rightarrow> unit io" where
  "writeBytes bs s =
     (if bs_status s \<noteq> Ok then Fail s
      else Ret () (s\<lparr> bs_dev := (if bs = [] then bs_dev s else bio_write (bs_dev s) bs), bs_pos := bs_pos s + length bs \<rparr>))"

definition writeInteger :: "int \<Rightarrow> stream \<Rightarrow> unit io" where
  "writeInteger i s = writeBytes ([0x69] @ to_string_int i @ [0x65]) s"

definition writeString :: "bytes \<Rightarrow> stream \<Rightarrow> unit io" where
  "writeString str s = writeBytes (to_string_nat (length str) @ [0x3a] @ str) s"

fun writeValue :: "Bencode \<Rightarrow> stream \<Rightarrow> unit io"
  and writeItems :: "Bencode list \<Rightarrow> stream \<Rightarrow> unit io"
  and writeEntries :: "(bytes \<times> Bencode) list \<Rightarrow> stream \<Rightarrow> unit io" where
  "writeValue (Integer i) s = writeInteger i s"
| "writeValue (String str) s = writeString str s"
| "writeValue (List vs) s = bindS (writeBytes [0x6c] s) (\<lambda>_ s. bindS (writeItems vs s) (\<lambda>_ s. writeBytes [0x65] s))"
| "writeValue (Dict m) s = bindS (writeBytes [0x64] s) (\<lambda>_ s. bindS (writeEntries m s) (\<lambda>_ s. writeBytes [0x65] s))"
| "writeValue Invalid s = failS WriteFailed s"
| "writeItems [] s = Ret () s"
| "writeItems (v # vs) s = bindS (writeValue v s) (\<lambda>_ s. writeItems vs s)"
| "writeEntries [] s = Ret () s"
| "writeEntries ((k, v) # m) s =
     bindS (writeString k s) (\<lambda>_ s. bindS (writeValue v s) (\<lambda>_ s. writeEntries m s))"

section \<open>The operators\<close>

definition getS :: "(stream \<Rightarrow> 'a io) \<Rightarrow> stream \<Rightarrow> ('a option \<times> stream) option" where
  "getS rd s =
     (if bs_status s \<noteq> Ok then Some (None, s)
      else case rd s of
          Ret a s \<Rightarrow> Some (Some a, s)
        | Fail s \<Rightarrow> Some (None, if bs_status s = Ok then s\<lparr> bs_status := ReadCorruptData \<rparr> else s)
        | NoReturn \<Rightarrow> None)"

definition putS :: "(stream \<Rightarrow> unit io) \<Rightarrow> stream \<Rightarrow> stream option" where
  "putS wr s =
     (if bs_status s \<noteq> Ok then Some s
      else case wr s of
          Ret a s \<Rightarrow> Some s
        | Fail s \<Rightarrow> Some (if bs_status s = Ok then s\<lparr> bs_status := WriteFailed \<rparr> else s)
        | NoReturn \<Rightarrow> None)"

definition setLengthLimit :: "nat \<Rightarrow> stream \<Rightarrow> stream" where
  "setLengthLimit l s = s\<lparr> allocLimit := l \<rparr>"

definition atEnd :: "stream \<Rightarrow> bool" where
  "atEnd s \<longleftrightarrow> bs_pos s \<ge> bs_limit s"

definition encode :: "Bencode \<Rightarrow> bytes option" where
  "encode v = map_option (\<lambda>s. bio_buf (bs_dev s)) (putS (writeValue v) writeStream)"

text \<open>
  The value and the error text.  Every level of nesting consumes a byte and takes two calls, so
  one more than twice the length of the input is enough fuel.
\<close>

definition decode :: "bytes \<Rightarrow> nat \<Rightarrow> (Bencode \<times> string option) option" where
  "decode dat lengthLimit =
     (case getS (readValue (Suc (2 * length dat))) (setLengthLimit lengthLimit (readStream dat)) of
        None \<Rightarrow> None
      | Some (v, s) \<Rightarrow>
          if bs_status s \<noteq> Ok then Some (Invalid, Some ''invalid bencode input'')
          else if \<not> atEnd s then Some (Invalid, Some ''trailing data after bencode value'')
          else Some (case v of None \<Rightarrow> Invalid | Some v \<Rightarrow> v, None))"

definition readArrayHeader :: "stream \<Rightarrow> nat io" where
  "readArrayHeader s = (if bs_status s \<noteq> Ok then Fail s else bindS (consumeByte 0x6c s) (\<lambda>_ s. Ret (2 ^ 32 - 1) s))"

definition readMapHeader :: "stream \<Rightarrow> nat io" where
  "readMapHeader s = (if bs_status s \<noteq> Ok then Fail s else bindS (consumeByte 0x64 s) (\<lambda>_ s. Ret (2 ^ 32 - 1) s))"

definition readContainerEnd :: "stream \<Rightarrow> unit io" where
  "readContainerEnd s = (if bs_status s \<noteq> Ok then Fail s else consumeByte 0x65 s)"

definition peekContainerEnd :: "stream \<Rightarrow> bool \<times> stream" where
  "peekContainerEnd s =
     (if bs_status s \<noteq> Ok then (True, s)
      else case peekByte s of (None, s) \<Rightarrow> (True, s) | (Some c, s) \<Rightarrow> (c = 0x65, s))"

definition writeMark :: "byte \<Rightarrow> stream \<Rightarrow> unit io" where
  "writeMark b s = (if bs_status s \<noteq> Ok then Fail s else writeBytes [b] s)"

fun toInteger :: "Bencode \<Rightarrow> int \<Rightarrow> int" where
  "toInteger (Integer i) defaultValue = i"
| "toInteger _ defaultValue = defaultValue"

fun toString :: "Bencode \<Rightarrow> bytes" where
  "toString (String s) = s"
| "toString _ = []"

fun toList :: "Bencode \<Rightarrow> Bencode list" where
  "toList (List vs) = vs"
| "toList _ = []"

fun toMap :: "Bencode \<Rightarrow> (bytes, Bencode) smap" where
  "toMap (Dict m) = m"
| "toMap _ = []"

section \<open>Well-formed values, their encoding and their weight\<close>

fun bwf :: "Bencode \<Rightarrow> bool" where
  "bwf Invalid \<longleftrightarrow> False"
| "bwf (Integer i) \<longleftrightarrow> - (2 ^ 63) \<le> i \<and> i \<le> 2 ^ 63 - 1"
| "bwf (String str) \<longleftrightarrow> True"
| "bwf (List vs) \<longleftrightarrow> (\<forall>v \<in> set vs. bwf v)"
| "bwf (Dict m) \<longleftrightarrow> smap_wf m \<and> (\<forall>e \<in> set m. bwf (snd e))"

text \<open>What reading the value charges to the allocation budget.\<close>

fun weight :: "Bencode \<Rightarrow> nat" where
  "weight (String str) = length str"
| "weight (List vs) = (\<Sum>v\<leftarrow>vs. weight v + 1)"
| "weight (Dict m) = (\<Sum>(k, v)\<leftarrow>m. length k + weight v + 1)"
| "weight _ = 0"

definition strCode :: "bytes \<Rightarrow> bytes" where
  "strCode str = to_string_nat (length str) @ [0x3a] @ str"

fun code :: "Bencode \<Rightarrow> bytes" where
  "code Invalid = []"
| "code (Integer i) = [0x69] @ to_string_int i @ [0x65]"
| "code (String str) = strCode str"
| "code (List vs) = [0x6c] @ concat (map code vs) @ [0x65]"
| "code (Dict m) = [0x64] @ concat (map (\<lambda>(k, v). strCode k @ code v) m) @ [0x65]"

section \<open>Reading from the device\<close>

definition pend :: "stream \<Rightarrow> bytes" where
  "pend s = (if hasPeekByte s then [peekByteCache s] else []) @ drop (bio_pos (bs_dev s)) (bio_buf (bs_dev s))"

definition sinv :: "stream \<Rightarrow> bool" where
  "sinv s \<longleftrightarrow> bs_status s = Ok \<and> bs_pos s + length (pend s) = bs_limit s"

text \<open>The stream after the bytes \<open>bs\<close> have been read and \<open>n\<close> been charged to the budget.\<close>

definition after :: "stream \<Rightarrow> bytes \<Rightarrow> nat \<Rightarrow> stream \<Rightarrow> bool" where
  "after s bs n s' \<longleftrightarrow> sinv s' \<and> pend s = bs @ pend s' \<and> bytesAllocated s' = bytesAllocated s + n \<and> allocLimit s' = allocLimit s"

lemma pend_rest: "pend s = (if hasPeekByte s then [peekByteCache s] else []) @ bio_rest (bs_dev s)"
  by (simp add: pend_def bio_rest_def)

text \<open>\<open>readBytes\<close> succeeds exactly when enough bytes are pending.\<close>

lemma readBytes_ok:
  assumes "sinv s" "n \<le> length (pend s)"
  shows "\<exists>s'. readBytes n s = Ret (take n (pend s)) s' \<and> after s (take n (pend s)) 0 s'"
proof -
  define s1 where "s1 = (if hasPeekByte s \<and> n > 0 then s\<lparr>hasPeekByte := False\<rparr> else s)"
  define pre where "pre = (if hasPeekByte s \<and> n > 0 then [peekByteCache s] else [])"
  have split: "(if hasPeekByte s \<and> n > 0 then ([peekByteCache s], s\<lparr>hasPeekByte := False\<rparr>) else ([], s)) = (pre, s1)"
    by (simp add: pre_def s1_def)
  obtain d' where d': "readLoop (bs_dev s1) (n - length pre) False = (Some (take (n - length pre) (bio_rest (bs_dev s))), d')"
    "bio_rest d' = drop (n - length pre) (bio_rest (bs_dev s))"
    using readLoop_spec [of "bs_dev s1" "n - length pre" False] assms(2)
    by (auto simp: pend_rest pre_def s1_def split: if_splits)
  have "\<not> bs_limit s < bs_pos s + n" "bs_status s = Ok" using assms by (simp_all add: sinv_def)
  then have "readBytes n s = Ret (pre @ take (n - length pre) (bio_rest (bs_dev s))) (s1\<lparr>bs_dev := d', bs_pos := bs_pos s1 + n\<rparr>)"
    unfolding readBytes_def split by (simp add: d'(1))
  moreover have "pre @ take (n - length pre) (bio_rest (bs_dev s)) = take n (pend s)"
    by (cases n) (auto simp: pre_def pend_rest)
  moreover have "pend (s1\<lparr>bs_dev := d', bs_pos := bs_pos s1 + n\<rparr>) = drop n (pend s)"
    using d'(2) by (cases n) (auto simp: s1_def pre_def pend_rest split: if_splits)
  ultimately show ?thesis
    using assms by (auto simp: after_def sinv_def s1_def)
qed

lemma readBytes_append:
  assumes "sinv s" "pend s = bs @ rest" "length bs = n"
  shows "\<exists>s'. readBytes n s = Ret bs s' \<and> after s bs 0 s'"
  using readBytes_ok [OF assms(1), of n] assms by simp

lemma readBytes_cases:
  assumes "sinv s"
  obtains s' where "readBytes n s = Fail s'"
  | bs s' where "readBytes n s = Ret bs s'" "length bs = n" "after s bs 0 s'"
proof (cases "n \<le> length (pend s)")
  case True
  then show ?thesis using readBytes_ok [OF assms True] that(2) by force
next
  case False
  then have "readBytes n s = failS ReadPastEnd s" using assms by (auto simp: readBytes_def sinv_def)
  then show ?thesis using that(1) by (simp add: failS_def)
qed

lemma peekByte_spec:
  assumes "sinv s"
  shows "peekByte s = (case pend s of [] \<Rightarrow> (None, s) | c # _ \<Rightarrow> (Some c, snd (peekByte s)))"
    and "after s [] 0 (snd (peekByte s))"
proof -
  have "peekByte s = (case pend s of [] \<Rightarrow> (None, s) | c # _ \<Rightarrow> (Some c, snd (peekByte s))) \<and> after s [] 0 (snd (peekByte s))"
  proof (cases "hasPeekByte s \<or> pend s = []")
    case True
    then show ?thesis using assms
      by (auto simp: peekByte_def ensurePeekCached_def after_def sinv_def pend_rest split: list.splits)
  next
    case False
    then have rest: "bio_rest (bs_dev s) = pend s" "1 \<le> length (pend s)" by (auto simp: pend_rest Suc_le_eq)
    then obtain d' where "readLoop (bs_dev s) 1 False = (Some (take 1 (pend s)), d')" "bio_rest d' = drop 1 (pend s)"
      using readLoop_spec [of "bs_dev s" 1 False] by auto
    then show ?thesis using assms rest(2) False
      by (cases "pend s") (auto simp: peekByte_def ensurePeekCached_def after_def sinv_def pend_rest)
  qed
  then show "peekByte s = (case pend s of [] \<Rightarrow> (None, s) | c # _ \<Rightarrow> (Some c, snd (peekByte s)))"
    "after s [] 0 (snd (peekByte s))" by blast+
qed

lemma after_trans: "after s as m s1 \<Longrightarrow> after s1 bs n s2 \<Longrightarrow> after s (as @ bs) (m + n) s2"
  by (simp add: after_def)

lemma afterD: "after s bs n s' \<Longrightarrow> sinv s'" "after s bs n s' \<Longrightarrow> pend s = bs @ rest \<Longrightarrow> pend s' = rest"
  "after s bs n s' \<Longrightarrow> bytesAllocated s' = bytesAllocated s + n" "after s bs n s' \<Longrightarrow> allocLimit s' = allocLimit s"
  by (auto simp: after_def)

lemma peekByte_ok:
  assumes "sinv s" "pend s = c # rest"
  shows "\<exists>s'. peekByte s = (Some c, s') \<and> after s [] 0 s'"
  using peekByte_spec [OF assms(1)] assms(2) by auto

lemma consumeByte_ok:
  assumes "sinv s" "pend s = c # rest"
  shows "\<exists>s'. consumeByte c s = Ret () s' \<and> after s [c] 0 s'"
  using readBytes_append [of s "[c]" rest 1] assms by (auto simp: consumeByte_def)

lemma account_ok:
  assumes "sinv s" "bytesAllocated s + n \<le> allocLimit s"
  shows "\<exists>s'. account n s = Ret () s' \<and> after s [] n s'"
  using assms by (auto simp: account_def after_def sinv_def pend_def)

section \<open>Reading what was written\<close>

lemma readDigits_ok:
  assumes "sinv s" "pend s = ds @ 0x65 # rest" "\<forall>d \<in> set ds. isdigit d" "length acc + length ds \<le> 20"
  shows "\<exists>s'. readDigits acc s = Ret (acc @ ds) s' \<and> after s (ds @ [0x65]) 0 s'"
  using assms
proof (induction ds arbitrary: acc s)
  case Nil
  then obtain s' where "readBytes 1 s = Ret [0x65] s'" "after s [0x65] 0 s'"
    using readBytes_append [of s "[0x65]" rest 1] by auto
  then show ?case by (subst readDigits.simps) simp
next
  case (Cons d ds)
  obtain s1 where s1: "readBytes 1 s = Ret [d] s1" "after s [d] 0 s1"
    using readBytes_append [of s "[d]" "ds @ 0x65 # rest" 1] Cons.prems by auto
  have "d \<noteq> 0x65" using Cons.prems(3) by (auto simp: isdigit_def)
  moreover obtain s' where "readDigits (acc @ [d]) s1 = Ret ((acc @ [d]) @ ds) s'" "after s1 (ds @ [0x65]) 0 s'"
    using Cons.IH [of s1 "acc @ [d]"] Cons.prems afterD [OF s1(2)] by auto
  ultimately show ?case
    using Cons.prems s1 after_trans [OF s1(2)] by (subst readDigits.simps) (auto simp: Let_def)
qed

lemma readMagnitude_ok:
  assumes "sinv s" "pend s = ds @ 0x65 # rest" "to_string_nat n = c # ds" "sg = [] \<or> sg = [0x2d]"
    "length (sg @ c # ds) \<le> 20" "strtoll (sg @ c # ds) = (i, [])" "sg = [0x2d] \<Longrightarrow> n > 0"
  shows "\<exists>s'. readMagnitude sg c s = Ret i s' \<and> after s (ds @ [0x65]) 0 s'"
proof -
  have dig: "isdigit c" "\<forall>d \<in> set ds. isdigit d" using to_string_digits [of _ n] by (simp_all add: assms(3))
  show ?thesis
  proof (cases "n = 0")
    case True
    then have "c = 0x30" "ds = []" "sg = []" "i = 0"
      using assms(3,4,6,7) by (auto simp: strtoll_def isdigit_def digitsVal_def digitVal_def)
    then show ?thesis
      using readBytes_append [of s "[0x65]" rest 1] assms(1,2) by (auto simp: readMagnitude_def isdigit_def)
  next
    case False
    then have c: "c \<noteq> 0x30" using to_string_leading [of n] by (simp add: assms(3))
    obtain s' where "readDigits (sg @ [c]) s = Ret (sg @ c # ds) s'" "after s (ds @ [0x65]) 0 s'"
      using readDigits_ok [OF assms(1,2) dig(2), of "sg @ [c]"] assms(5) by auto
    moreover have "sg @ c # ds \<noteq> [0x2d, 0x30]" using c assms(4) dig(1) by auto
    ultimately show ?thesis
      using c dig(1) assms(6) by (auto simp: readMagnitude_def)
  qed
qed

text \<open>A number of at most 20 characters is read as \<open>strtoll\<close> reads it, saturated to 64 bits.\<close>

definition sat64 :: "int \<Rightarrow> int" where
  "sat64 i = max (- (2 ^ 63)) (min (2 ^ 63 - 1) i)"

lemma strtoll_sat: "strtoll (to_string_int i) = (sat64 i, [])"
  using strtoll_digits [of "to_string_nat (nat i)"] strtoll_digits(2) [of "to_string_nat (nat (- i))"]
  by (auto simp: to_string_int_def sat64_def)

lemma length_to_string_int:
  assumes "- (2 ^ 63) \<le> i" "i \<le> 2 ^ 63 - 1"
  shows "length (to_string_int i) \<le> 20"
proof -
  have "nat \<bar>i\<bar> < 10 ^ 19" using assms by auto
  from length_to_string [OF _ this] show ?thesis by (auto simp: to_string_int_def abs_if split: if_splits)
qed

lemma readInteger_sat:
  assumes "sinv s" "pend s = 0x69 # to_string_int i @ 0x65 # rest" "length (to_string_int i) \<le> 20"
  shows "\<exists>s'. readInteger s = Ret (sat64 i) s' \<and> after s (0x69 # to_string_int i @ [0x65]) 0 s'"
proof -
  define n sg where "n = nat \<bar>i\<bar>" and "sg = (if i < 0 then [0x2d] else [] :: bytes)"
  obtain c ds where cd: "to_string_nat n = c # ds" by (metis neq_Nil_conv to_string_nonempty)
  have str: "to_string_int i = sg @ c # ds" by (auto simp: to_string_int_def n_def sg_def simp flip: cd)
  have n: "length (sg @ c # ds) \<le> 20" "sg = [0x2d] \<Longrightarrow> n > 0" "sg = [] \<or> sg = [0x2d]"
    using assms(3) by (auto simp: n_def sg_def str)
  have lex: "strtoll (sg @ c # ds) = (sat64 i, [])" using strtoll_sat [of i] by (simp add: str)
  obtain s1 where s1: "consumeByte 0x69 s = Ret () s1" "after s [0x69] 0 s1"
    using consumeByte_ok [OF assms(1,2)] by auto
  have p1: "sinv s1" "pend s1 = sg @ c # ds @ 0x65 # rest" using s1(2) assms(2) by (auto simp: after_def str)
  have c: "c \<noteq> 0x2d" using to_string_digits [of c n] by (auto simp: cd)
  have body: "\<exists>s'. bindS (readBytes 1 s) (\<lambda>c s. readMagnitude sg (hd c) s) = Ret (sat64 i) s' \<and> after s (c # ds @ [0x65]) 0 s'"
    if ps: "sinv s" "pend s = c # ds @ 0x65 # rest" for s
  proof -
    obtain s3 where s3: "readBytes 1 s = Ret [c] s3" "after s [c] 0 s3"
      using readBytes_append [of s "[c]" "ds @ 0x65 # rest" 1] ps by auto
    then have "sinv s3" "pend s3 = ds @ 0x65 # rest" using ps(2) by (auto simp: after_def)
    from readMagnitude_ok [OF this cd n(3,1) lex n(2)] obtain s4
      where "readMagnitude sg c s3 = Ret (sat64 i) s4" "after s3 (ds @ [0x65]) 0 s4" by auto
    then show ?thesis using s3 after_trans [OF s3(2)] by auto
  qed
  show ?thesis
  proof (cases "i < 0")
    case True
    obtain s2 where s2: "readBytes 1 s1 = Ret [0x2d] s2" "after s1 [0x2d] 0 s2"
      using readBytes_append [of s1 "[0x2d]" "c # ds @ 0x65 # rest" 1] p1 True by (auto simp: sg_def)
    then have "sinv s2" "pend s2 = c # ds @ 0x65 # rest" using p1 True by (auto simp: after_def sg_def)
    from body [OF this] show ?thesis
      using s1 s2 True after_trans [OF s1(2) after_trans [OF s2(2)]] by (auto simp: readInteger_def str sg_def)
  next
    case False
    then have "pend s1 = c # ds @ 0x65 # rest" using p1 by (simp add: sg_def)
    from readBytes_append [of s1 "[c]" "ds @ 0x65 # rest" 1] body [OF p1(1) this] p1(1) this
    show ?thesis using s1 False c after_trans [OF s1(2)] by (auto simp: readInteger_def str sg_def)
  qed
qed

lemma readLength_ok:
  assumes "sinv s" "pend s = ds @ c # rest" "\<forall>d \<in> set ds. isdigit d" "\<not> isdigit c" "length acc + length ds \<le> 10"
  shows "\<exists>s'. readLength acc s = Ret (acc @ ds) s' \<and> after s ds 0 s'"
  using assms
proof (induction ds arbitrary: acc s)
  case Nil
  then obtain s' where "peekByte s = (Some c, s')" "after s [] 0 s'" using peekByte_ok [of s c rest] by auto
  then show ?case using Nil by (subst readLength.simps) simp
next
  case (Cons d ds)
  obtain s1 where s1: "peekByte s = (Some d, s1)" "after s [] 0 s1" using peekByte_ok [of s d "ds @ c # rest"] Cons.prems by auto
  then have p1: "sinv s1" "pend s1 = d # ds @ c # rest" using Cons.prems by (auto simp: after_def)
  obtain s2 where s2: "readBytes 1 s1 = Ret [d] s2" "after s1 [d] 0 s2"
    using readBytes_append [of s1 "[d]" "ds @ c # rest" 1] p1 by auto
  then have "sinv s2" "pend s2 = ds @ c # rest" using p1 by (auto simp: after_def)
  then obtain s' where "readLength (acc @ [d]) s2 = Ret ((acc @ [d]) @ ds) s'" "after s2 ds 0 s'"
    using Cons.IH [of s2 "acc @ [d]"] Cons.prems by auto
  then show ?case
    using Cons.prems s1 s2 after_trans [OF s1(2) after_trans [OF s2(2)]] by (subst readLength.simps) (auto simp: Let_def)
qed

lemma readString_ok:
  assumes "sinv s" "pend s = strCode str @ rest" "bytesAllocated s + length str \<le> allocLimit s" "allocLimit s < 2 ^ 32"
  shows "\<exists>s'. readString s = Ret str s' \<and> after s (strCode str) (length str) s'"
proof -
  define n ds where "n = length str" and "ds = to_string_nat n"
  have n: "n < 2 ^ 32" using assms(3,4) by (simp add: n_def)
  have ds: "\<forall>d \<in> set ds. isdigit d" "ds \<noteq> []" "length ds \<le> 10" "digitsVal ds = n" "length ds > 1 \<Longrightarrow> hd ds \<noteq> 0x30"
  proof -
    show "length ds \<le> 10" using n unfolding ds_def by (intro length_to_string) simp_all
    show "hd ds \<noteq> 0x30" if "length ds > 1"
      using that to_string_leading [of n] by (cases "n = 0") (auto simp: ds_def)
  qed (auto simp: ds_def)
  have parse: "strtoull ds = (n, [])" using strtoull_digits [OF ds(1)] ds(4) n by simp
  obtain d ds' where d: "ds = d # ds'" using ds(2) by (cases ds) auto
  have pend: "pend s = ds @ 0x3a # str @ rest" using assms(2) by (simp add: strCode_def ds_def n_def)
  obtain s0 where s0: "peekByte s = (Some d, s0)" "after s [] 0 s0" using peekByte_ok [OF assms(1)] pend d by auto
  then have p0: "sinv s0" "pend s0 = ds @ 0x3a # str @ rest" using pend by (auto simp: after_def)
  obtain s1 where s1: "readLength [] s0 = Ret ds s1" "after s0 ds 0 s1"
    using readLength_ok [OF p0 ds(1), of "[]"] ds(3) by (auto simp: isdigit_def)
  then have p1: "sinv s1" "pend s1 = 0x3a # str @ rest" using p0 by (auto simp: after_def)
  obtain s2 where s2: "consumeByte 0x3a s1 = Ret () s2" "after s1 [0x3a] 0 s2" using consumeByte_ok [OF p1] by auto
  then have p2: "sinv s2" "pend s2 = str @ rest" "bytesAllocated s2 + n \<le> allocLimit s2"
    using p1 s0(2) s1(2) assms(3) by (auto simp: after_def n_def)
  obtain s3 where s3: "account n s2 = Ret () s3" "after s2 [] n s3" using account_ok [OF p2(1,3)] by auto
  then have p3: "sinv s3" "pend s3 = str @ rest" using p2 by (auto simp: after_def)
  obtain s4 where s4: "(if n > 0 then readBytes n s3 else Ret [] s3) = Ret str s4" "after s3 str 0 s4"
    using readBytes_append [OF p3, of n] p3 by (cases "n = 0") (auto simp: n_def after_def)
  have "readString s = Ret str s4"
    using s0(1) s1(1) s2(1) s3(1) s4(1) ds(1,2,5) p2(3) by (auto simp: readString_def parse [unfolded d] d)
  moreover have "after s ([] @ ds @ [0x3a] @ [] @ str) (0 + (0 + (0 + (n + 0)))) s4"
    by (rule after_trans [OF s0(2) after_trans [OF s1(2) after_trans [OF s2(2) after_trans [OF s3(2) s4(2)]]]])
  ultimately show ?thesis by (simp add: strCode_def ds_def n_def)
qed

text \<open>The recursion of the reader: enough fuel, the encoding at the front, and room in the budget.\<close>

definition reads_back :: "Bencode \<Rightarrow> bool" where
  "reads_back v \<longleftrightarrow> (\<forall>f s rest. f > length (code v) \<longrightarrow> sinv s \<longrightarrow> pend s = code v @ rest \<longrightarrow>
     bytesAllocated s + weight v \<le> allocLimit s \<longrightarrow> allocLimit s < 2 ^ 32 \<longrightarrow>
     (\<exists>s'. readValue f s = Ret v s' \<and> after s (code v) (weight v) s'))"

lemma reads_backD:
  assumes "reads_back v" "f > length (code v)" "sinv s" "pend s = code v @ rest"
    "bytesAllocated s + weight v \<le> allocLimit s" "allocLimit s < 2 ^ 32"
  shows "\<exists>s'. readValue f s = Ret v s' \<and> after s (code v) (weight v) s'"
  using assms unfolding reads_back_def by blast

lemma code_shape: "bwf v \<Longrightarrow> \<exists>c cs. code v = c # cs \<and> cs \<noteq> [] \<and> c \<noteq> 0x65"
proof -
  have "\<exists>c cs. strCode k = c # cs \<and> cs \<noteq> [] \<and> c \<noteq> 0x65" for k
  proof -
    obtain d ds where d: "to_string_nat (length k) = d # ds" by (metis neq_Nil_conv to_string_nonempty)
    then have "isdigit d" using to_string_digits [of d "length k"] by simp
    then have "d \<noteq> 0x65" by (auto simp: isdigit_def)
    then show ?thesis by (simp add: strCode_def d)
  qed
  then show "bwf v \<Longrightarrow> ?thesis" by (cases v) auto
qed

lemma strCode_shape: "\<exists>c cs. strCode k = c # cs \<and> cs \<noteq> [] \<and> c \<noteq> 0x65 \<and> isdigit c"
proof -
  obtain d ds where d: "to_string_nat (length k) = d # ds" by (metis neq_Nil_conv to_string_nonempty)
  then have "isdigit d" using to_string_digits [of d "length k"] by simp
  then show ?thesis by (auto simp: strCode_def d isdigit_def)
qed

lemma readList_ok:
  assumes "\<forall>v \<in> set vs. bwf v \<and> reads_back v" "f > length (concat (map code vs) @ [0x65])" "sinv s"
    "pend s = concat (map code vs) @ 0x65 # rest"
    "bytesAllocated s + (\<Sum>v\<leftarrow>vs. weight v + 1) \<le> allocLimit s" "allocLimit s < 2 ^ 32"
  shows "\<exists>s'. readList f acc s = Ret (List (acc @ vs)) s'
    \<and> after s (concat (map code vs) @ [0x65]) (\<Sum>v\<leftarrow>vs. weight v + 1) s'"
  using assms
proof (induction vs arbitrary: f acc s)
  case Nil
  then obtain g where g: "f = Suc g" by (cases f) auto
  obtain s1 where s1: "peekByte s = (Some 0x65, s1)" "after s [] 0 s1" using peekByte_ok [of s "0x65" rest] Nil.prems by auto
  then obtain s2 where "consumeByte 0x65 s1 = Ret () s2" "after s1 [0x65] 0 s2"
    using consumeByte_ok [of s1 "0x65" rest] Nil.prems by (auto simp: after_def)
  then show ?case using s1 after_trans [OF s1(2)] by (auto simp: g)
next
  case (Cons v vs)
  then obtain g where g: "f = Suc g" by (cases f) auto
  obtain c cs where c: "code v = c # cs" "cs \<noteq> []" "c \<noteq> 0x65" using code_shape [of v] Cons.prems(1) by auto
  define tail where "tail = concat (map code vs) @ 0x65 # rest"
  obtain s1 where s1: "peekByte s = (Some c, s1)" "after s [] 0 s1"
    using peekByte_ok [of s c "cs @ tail"] Cons.prems c by (auto simp: tail_def)
  then have p1: "sinv s1" "pend s1 = code v @ tail" "bytesAllocated s1 + weight v \<le> allocLimit s1" "allocLimit s1 < 2 ^ 32"
    using Cons.prems by (auto simp: after_def tail_def)
  have gf: "g > length (code v)" "g > length (concat (map code vs) @ [0x65])"
    using Cons.prems(2) c(1,2) by (auto simp: g)
  obtain s2 where s2: "readValue g s1 = Ret v s2" "after s1 (code v) (weight v) s2"
    using reads_backD [OF _ gf(1) p1] Cons.prems(1) by auto
  then have p2: "sinv s2" "pend s2 = tail" "bytesAllocated s2 + 1 \<le> allocLimit s2"
    using p1 s1(2) Cons.prems(5) by (auto simp: after_def)
  obtain s3 where s3: "account 1 s2 = Ret () s3" "after s2 [] 1 s3" using account_ok [OF p2(1,3)] by auto
  then obtain s4 where s4: "readList g (acc @ [v]) s3 = Ret (List ((acc @ [v]) @ vs)) s4"
    "after s3 (concat (map code vs) @ [0x65]) (\<Sum>v\<leftarrow>vs. weight v + 1) s4"
    using Cons.IH [where f = g and s = s3 and acc = "acc @ [v]"] gf(2) Cons.prems p2 s1(2) s2(2) by (auto simp: after_def tail_def)
  have "after s ([] @ code v @ [] @ concat (map code vs) @ [0x65]) (0 + (weight v + (1 + (\<Sum>v\<leftarrow>vs. weight v + 1)))) s4"
    by (rule after_trans [OF s1(2) after_trans [OF s2(2) after_trans [OF s3(2) s4(2)]]])
  then show ?case using s1(1) s2(1) s3(1) s4(1) c(3) by (auto simp: g)
qed

lemma readDict_ok:
  assumes "\<forall>e \<in> set m. bwf (snd e) \<and> reads_back (snd e)" "smap_wf (acc @ m)"
    "f > length (concat (map (\<lambda>(k, v). strCode k @ code v) m) @ [0x65])" "sinv s"
    "pend s = concat (map (\<lambda>(k, v). strCode k @ code v) m) @ 0x65 # rest"
    "bytesAllocated s + (\<Sum>(k, v)\<leftarrow>m. length k + weight v + 1) \<le> allocLimit s" "allocLimit s < 2 ^ 32"
  shows "\<exists>s'. readDict f acc s = Ret (Dict (acc @ m)) s'
    \<and> after s (concat (map (\<lambda>(k, v). strCode k @ code v) m) @ [0x65]) (\<Sum>(k, v)\<leftarrow>m. length k + weight v + 1) s'"
  using assms
proof (induction m arbitrary: f acc s)
  case Nil
  then obtain g where g: "f = Suc g" by (cases f) auto
  obtain s1 where s1: "peekByte s = (Some 0x65, s1)" "after s [] 0 s1" using peekByte_ok [of s "0x65" rest] Nil.prems by auto
  then obtain s2 where "consumeByte 0x65 s1 = Ret () s2" "after s1 [0x65] 0 s2"
    using consumeByte_ok [of s1 "0x65" rest] Nil.prems by (auto simp: after_def)
  then show ?case using s1 after_trans [OF s1(2)] by (auto simp: g)
next
  case (Cons e m)
  obtain k v where e: "e = (k, v)" by fastforce
  obtain g where g: "f = Suc g" using Cons.prems(3) by (cases f) auto
  define body where "body = concat (map (\<lambda>(k, v). strCode k @ code v) m)"
  obtain c cs where c: "strCode k = c # cs" "cs \<noteq> []" "c \<noteq> 0x65" using strCode_shape [of k] by auto
  obtain s1 where s1: "peekByte s = (Some c, s1)" "after s [] 0 s1"
    using peekByte_ok [of s c "cs @ code v @ body @ 0x65 # rest"] Cons.prems c by (auto simp: body_def e)
  then have p1: "sinv s1" "pend s1 = strCode k @ code v @ body @ 0x65 # rest" "bytesAllocated s1 + length k \<le> allocLimit s1" "allocLimit s1 < 2 ^ 32"
    using Cons.prems by (auto simp: after_def body_def e)
  obtain s2 where s2: "readString s1 = Ret k s2" "after s1 (strCode k) (length k) s2"
    using readString_ok [OF p1] by auto
  then have p2: "sinv s2" "pend s2 = code v @ body @ 0x65 # rest" "bytesAllocated s2 + weight v \<le> allocLimit s2" "allocLimit s2 < 2 ^ 32"
    using p1 s1(2) Cons.prems(6) by (auto simp: after_def e)
  have gf: "g > length (code v)" "g > length (body @ [0x65])"
    using Cons.prems(3) c(1,2) by (auto simp: g e body_def)
  obtain s3 where s3: "readValue g s2 = Ret v s3" "after s2 (code v) (weight v) s3"
    using reads_backD [OF _ gf(1) p2] Cons.prems(1) by (auto simp: e)
  then have p3: "sinv s3" "pend s3 = body @ 0x65 # rest" "bytesAllocated s3 + 1 \<le> allocLimit s3"
    using p2 s1(2) s2(2) Cons.prems(6) by (auto simp: after_def e)
  obtain s4 where s4: "account 1 s3 = Ret () s4" "after s3 [] 1 s4" using account_ok [OF p3(1,3)] by auto
  have put: "smap_put k v acc = acc @ [e]" "smap_wf ((acc @ [e]) @ m)"
    using Cons.prems(2) by (auto simp: e smap_wf_def sorted_wrt_append intro!: smap_put_last)
  obtain s5 where s5: "readDict g (acc @ [e]) s4 = Ret (Dict ((acc @ [e]) @ m)) s5"
    "after s4 (body @ [0x65]) (\<Sum>(k, v)\<leftarrow>m. length k + weight v + 1) s5"
    using Cons.IH [where f = g and s = s4 and acc = "acc @ [e]"] put(2) Cons.prems p3 s1(2) s2(2) s3(2) s4(2) gf(2)
    by (auto simp: after_def body_def e)
  have "after s ([] @ strCode k @ code v @ [] @ body @ [0x65]) (0 + (length k + (weight v + (1 + (\<Sum>(k, v)\<leftarrow>m. length k + weight v + 1))))) s5"
    by (rule after_trans [OF s1(2) after_trans [OF s2(2) after_trans [OF s3(2) after_trans [OF s4(2) s5(2)]]]])
  then show ?case using s1(1) s2(1) s3(1) s4(1) s5(1) c(3) put(1) by (auto simp: g e body_def add.assoc)
qed

lemma readValue_integer:
  assumes "sinv s" "pend s = 0x69 # to_string_int i @ 0x65 # rest" "length (to_string_int i) \<le> 20"
  shows "\<exists>s'. readValue (Suc g) s = Ret (Integer (sat64 i)) s' \<and> after s (0x69 # to_string_int i @ [0x65]) 0 s'"
proof -
  obtain s1 where s1: "peekByte s = (Some 0x69, s1)" "after s [] 0 s1"
    using peekByte_ok [of s "0x69" "to_string_int i @ 0x65 # rest"] assms by auto
  then have "sinv s1" "pend s1 = 0x69 # to_string_int i @ 0x65 # rest" using assms by (auto simp: after_def)
  from readInteger_sat [OF this assms(3)] obtain s2
    where "readInteger s1 = Ret (sat64 i) s2" "after s1 (0x69 # to_string_int i @ [0x65]) 0 s2" by auto
  then show ?thesis using s1 after_trans [OF s1(2)] by auto
qed

lemma reads_back_all: "bwf v \<Longrightarrow> reads_back v"
proof (induction v)
  case (Integer i)
  have "\<exists>s'. readValue f s = Ret (Integer i) s' \<and> after s (code (Integer i)) 0 s'"
    if f: "f > length (code (Integer i))" and s: "sinv s" "pend s = code (Integer i) @ rest" for f s rest
  proof -
    obtain g where g: "f = Suc g" using f by (cases f) auto
    have "- (2 ^ 63) \<le> i" "i \<le> 2 ^ 63 - 1" using Integer by auto
    then show ?thesis
      using readValue_integer [of s i rest g] length_to_string_int [of i] s by (simp add: g sat64_def)
  qed
  then show ?case by (auto simp: reads_back_def)
next
  case (String str)
  have "\<exists>s'. readValue f s = Ret (String str) s' \<and> after s (strCode str) (length str) s'"
    if f: "f > 0" and s: "sinv s" "pend s = strCode str @ rest" "bytesAllocated s + length str \<le> allocLimit s" "allocLimit s < 2 ^ 32" for f s rest
  proof -
    obtain g where g: "f = Suc g" using f by (cases f) auto
    obtain c cs where c: "strCode str = c # cs" "isdigit c" using strCode_shape [of str] by auto
    obtain s1 where s1: "peekByte s = (Some c, s1)" "after s [] 0 s1"
      using peekByte_ok [of s c "cs @ rest"] s c by auto
    then have "sinv s1" "pend s1 = strCode str @ rest" "bytesAllocated s1 + length str \<le> allocLimit s1" "allocLimit s1 < 2 ^ 32"
      using s by (auto simp: after_def)
    from readString_ok [OF this] obtain s2 where "readString s1 = Ret str s2" "after s1 (strCode str) (length str) s2" by auto
    moreover have "c \<noteq> 0x69" "c \<noteq> 0x6c" "c \<noteq> 0x64" using c(2) by (auto simp: isdigit_def)
    ultimately show ?thesis using s1 c(2) after_trans [OF s1(2)] by (auto simp: g)
  qed
  then show ?case by (auto simp: reads_back_def)
next
  case (List vs)
  then have vs: "\<forall>v \<in> set vs. bwf v \<and> reads_back v" by simp
  have "\<exists>s'. readValue f s = Ret (List vs) s' \<and> after s (code (List vs)) (weight (List vs)) s'"
    if f: "f > length (code (List vs))" and s: "sinv s" "pend s = code (List vs) @ rest"
      "bytesAllocated s + weight (List vs) \<le> allocLimit s" "allocLimit s < 2 ^ 32" for f s rest
  proof -
    obtain g where g: "f = Suc g" "g > length (concat (map code vs) @ [0x65])" using f by (cases f) auto
    obtain s1 where s1: "peekByte s = (Some 0x6c, s1)" "after s [] 0 s1"
      using peekByte_ok [of s "0x6c" "concat (map code vs) @ 0x65 # rest"] s by auto
    obtain s2 where s2: "consumeByte 0x6c s1 = Ret () s2" "after s1 [0x6c] 0 s2"
      using consumeByte_ok [of s1 "0x6c" "concat (map code vs) @ 0x65 # rest"] s1(2) s by (auto simp: after_def)
    obtain s3 where "readList g [] s2 = Ret (List vs) s3" "after s2 (concat (map code vs) @ [0x65]) (\<Sum>v\<leftarrow>vs. weight v + 1) s3"
      using readList_ok [OF vs g(2), of s2 rest "[]"] s s1(2) s2(2) by (auto simp: after_def)
    then show ?thesis using s1 s2 after_trans [OF s1(2) after_trans [OF s2(2)]] by (auto simp: g)
  qed
  then show ?case by (auto simp: reads_back_def)
next
  case (Dict m)
  define body where "body = concat (map (\<lambda>(k, v). strCode k @ code v) m)"
  have m: "\<forall>e \<in> set m. bwf (snd e) \<and> reads_back (snd e)" "smap_wf ([] @ m)" using Dict by (auto simp: snds.simps)
  have "\<exists>s'. readValue f s = Ret (Dict m) s' \<and> after s (code (Dict m)) (weight (Dict m)) s'"
    if f: "f > length (code (Dict m))" and s: "sinv s" "pend s = code (Dict m) @ rest"
      "bytesAllocated s + weight (Dict m) \<le> allocLimit s" "allocLimit s < 2 ^ 32" for f s rest
  proof -
    obtain g where g: "f = Suc g" "g > length (body @ [0x65])" using f by (cases f) (auto simp: body_def)
    obtain s1 where s1: "peekByte s = (Some 0x64, s1)" "after s [] 0 s1"
      using peekByte_ok [of s "0x64" "body @ 0x65 # rest"] s by (auto simp: body_def)
    obtain s2 where s2: "consumeByte 0x64 s1 = Ret () s2" "after s1 [0x64] 0 s2"
      using consumeByte_ok [of s1 "0x64" "body @ 0x65 # rest"] s1(2) s by (auto simp: after_def body_def)
    obtain s3 where "readDict g [] s2 = Ret (Dict m) s3" "after s2 (body @ [0x65]) (\<Sum>(k, v)\<leftarrow>m. length k + weight v + 1) s3"
      using readDict_ok [OF m g(2) [unfolded body_def], of s2 rest] s s1(2) s2(2) by (auto simp: after_def body_def)
    then show ?thesis using s1 s2 after_trans [OF s1(2) after_trans [OF s2(2)]] by (auto simp: g body_def)
  qed
  then show ?case by (auto simp: reads_back_def)
qed simp

section \<open>The writer\<close>

definition winv :: "stream \<Rightarrow> bool" where
  "winv s \<longleftrightarrow> bs_status s = Ok \<and> bio_pos (bs_dev s) = length (bio_buf (bs_dev s))"

definition wrote :: "stream \<Rightarrow> bytes \<Rightarrow> stream" where
  "wrote s bs = s\<lparr>bs_dev := (bs_dev s)\<lparr>bio_buf := bio_buf (bs_dev s) @ bs, bio_pos := bio_pos (bs_dev s) + length bs\<rparr>,
     bs_pos := bs_pos s + length bs\<rparr>"

lemma wrote_wrote [simp]: "wrote (wrote s as) bs = wrote s (as @ bs)" "winv (wrote s bs) = winv s" "wrote s [] = s"
  by (simp_all add: wrote_def winv_def add.assoc)

lemma writeBytes_wrote: "winv s \<Longrightarrow> writeBytes bs s = Ret () (wrote s bs)"
  by (auto simp: writeBytes_def winv_def wrote_def bio_write_def Let_def)

lemma writeValue_code:
  "bwf v \<Longrightarrow> winv s \<Longrightarrow> writeValue v s = Ret () (wrote s (code v))"
  "\<forall>v \<in> set vs. bwf v \<Longrightarrow> winv s \<Longrightarrow> writeItems vs s = Ret () (wrote s (concat (map code vs)))"
  "\<forall>e \<in> set m. bwf (snd e) \<Longrightarrow> winv s \<Longrightarrow> writeEntries m s = Ret () (wrote s (concat (map (\<lambda>(k, v). strCode k @ code v) m)))"
  by (induction v s and vs s and m s rule: writeValue_writeItems_writeEntries.induct)
    (simp_all add: writeInteger_def writeString_def writeBytes_wrote strCode_def)

lemma encode_code: "bwf v \<Longrightarrow> encode v = Some (code v)"
proof -
  assume v: "bwf v"
  have "winv writeStream" by (simp add: winv_def writeStream_def)
  from writeValue_code(1) [OF v this]
  show ?thesis by (simp add: encode_def putS_def writeStream_def wrote_def)
qed

lemma decode_code:
  assumes "bwf v" "length (code v) < 2 ^ 32" "weight v \<le> lim" "lim < 2 ^ 32"
  shows "decode (code v) lim = Some (v, None)"
proof -
  define s where "s = setLengthLimit lim (readStream (code v))"
  have s: "sinv s" "pend s = code v @ []" "bytesAllocated s + weight v \<le> allocLimit s" "allocLimit s < 2 ^ 32"
    using assms(2-4) by (auto simp: s_def setLengthLimit_def readStream_def sinv_def pend_def)
  obtain s' where s': "readValue (Suc (2 * length (code v))) s = Ret v s'" "after s (code v) (weight v) s'"
    using reads_backD [OF reads_back_all [OF assms(1)] _ s, of "Suc (2 * length (code v))"] by auto
  then have "sinv s'" "pend s' = []" using s(2) by (auto simp: after_def)
  then have "atEnd s'" "bs_status s' = Ok" by (auto simp: sinv_def atEnd_def)
  moreover have "bs_status s = Ok" using s(1) by (simp add: sinv_def)
  ultimately show ?thesis using s'(1) by (simp add: decode_def getS_def flip: s_def)
qed

lemma decode_integer:
  assumes "length (to_string_int i) \<le> 20"
  shows "decode (0x69 # to_string_int i @ [0x65]) lim = Some (Integer (sat64 i), None)"
proof -
  define bs where "bs = 0x69 # to_string_int i @ [0x65]"
  define s where "s = setLengthLimit lim (readStream bs)"
  have "length bs < 2 ^ 32" using assms by (simp add: bs_def)
  then have s: "sinv s" "pend s = bs"
    by (auto simp: s_def setLengthLimit_def readStream_def sinv_def pend_def)
  then obtain s' where s': "readValue (Suc (2 * length bs)) s = Ret (Integer (sat64 i)) s'" "after s bs 0 s'"
    using readValue_integer [of s i "[]" "2 * length bs"] assms by (auto simp: bs_def)
  then have "sinv s'" "pend s' = []" using s(2) by (auto simp: after_def)
  then have "atEnd s'" "bs_status s' = Ok" by (auto simp: sinv_def atEnd_def)
  moreover have "bs_status s = Ok" using s(1) by (simp add: sinv_def)
  ultimately show ?thesis using s'(1) by (simp add: decode_def getS_def flip: s_def bs_def)
qed

section \<open>Any input: progress, budget and well-formed results\<close>

definition post :: "('a \<Rightarrow> stream \<Rightarrow> bool) \<Rightarrow> 'a io \<Rightarrow> bool" where
  "post Q r \<longleftrightarrow> r \<noteq> NoReturn \<and> (\<forall>v s'. r = Ret v s' \<longrightarrow> Q v s')"

text \<open>At least \<open>k\<close> bytes were consumed and at least \<open>n\<close> charged, within the limit.\<close>

definition moved :: "stream \<Rightarrow> nat \<Rightarrow> nat \<Rightarrow> stream \<Rightarrow> bool" where
  "moved s k n s' \<longleftrightarrow> sinv s' \<and> length (pend s') + k \<le> length (pend s) \<and> allocLimit s' = allocLimit s
     \<and> bytesAllocated s + n \<le> bytesAllocated s' \<and> bytesAllocated s' \<le> max (bytesAllocated s) (allocLimit s)"

lemma post_simps [simp]: "post Q (Ret v s) \<longleftrightarrow> Q v s" "post Q (Fail s)" "post Q (failS st s)" "\<not> post Q NoReturn"
  by (auto simp: post_def failS_def)

lemma post_bind: "post P m \<Longrightarrow> (\<And>v s'. P v s' \<Longrightarrow> post Q (g v s')) \<Longrightarrow> post Q (bindS m g)"
  by (cases m) auto

lemma post_mono: "post P m \<Longrightarrow> (\<And>v s'. P v s' \<Longrightarrow> Q v s') \<Longrightarrow> post Q m"
  by (cases m) auto

lemma moved_sinv: "moved s k n s' \<Longrightarrow> sinv s'"
  by (simp add: moved_def)

lemma moved_refl: "sinv s \<Longrightarrow> moved s 0 0 s"
  by (simp add: moved_def)

lemma moved_trans: "moved s k n s1 \<Longrightarrow> moved s1 l m s2 \<Longrightarrow> moved s (k + l) (n + m) s2"
  by (auto simp: moved_def)

lemma moved_le: "moved s k n s' \<Longrightarrow> k' \<le> k \<Longrightarrow> n' \<le> n \<Longrightarrow> moved s k' n' s'"
  by (auto simp: moved_def)

lemma post_moved:
  assumes "moved s k0 n0 s1" "post (\<lambda>_ s'. moved s1 k1 n1 s') m" "k \<le> k0 + k1" "n \<le> n0 + n1"
  shows "post (\<lambda>_ s'. moved s k n s') m"
  using assms(2) by (rule post_mono) (blast intro: moved_le [OF moved_trans [OF assms(1)] assms(3,4)])

lemma after_moved: "after s bs 0 s' \<Longrightarrow> moved s (length bs) 0 s'"
  by (auto simp: after_def moved_def)

lemma readBytes_post: "sinv s \<Longrightarrow> post (\<lambda>bs s'. length bs = n \<and> moved s n 0 s') (readBytes n s)"
  by (rule readBytes_cases [of s n]) (auto dest: after_moved)

lemma peekByte_post:
  assumes "sinv s"
  obtains "peekByte s = (None, s)" | c s' where "peekByte s = (Some c, s')" "moved s 0 0 s'"
proof (cases "pend s")
  case Nil
  then show ?thesis using peekByte_spec(1) [OF assms] that(1) by simp
next
  case (Cons c cs)
  then show ?thesis using peekByte_ok [OF assms Cons] that(2) by (auto dest: after_moved)
qed

lemma consumeByte_post: "sinv s \<Longrightarrow> post (\<lambda>_ s'. moved s 1 0 s') (consumeByte c s)"
  unfolding consumeByte_def by (rule post_bind [OF readBytes_post]) auto

lemma account_post: "sinv s \<Longrightarrow> post (\<lambda>_ s'. moved s 0 n s') (account n s)"
  by (auto simp: account_def moved_def sinv_def pend_def)

lemma readDigits_post: "sinv s \<Longrightarrow> post (\<lambda>_ s'. moved s 1 0 s') (readDigits acc s)"
proof (induction acc s rule: readDigits.induct)
  case (1 acc s)
  show ?case
  proof (rule readBytes_cases [OF 1(2), of 1])
    fix bs s' assume r: "readBytes 1 s = Ret bs s'" and l: "length bs = 1" "after s bs 0 s'"
    from l have m: "moved s 1 0 s'" using after_moved [OF l(2)] by simp
    have "post (\<lambda>_ s''. moved s 1 0 s'') (readDigits (acc @ [hd bs]) s')"
      if "hd bs \<noteq> 0x65" "isdigit (hd bs)" "\<not> length (acc @ [hd bs]) > 20"
      by (rule post_moved [OF m 1(1) [OF r refl _ _ refl]]) (use that moved_sinv [OF m] in auto)
    then show ?thesis using r m by (subst readDigits.simps) (auto simp: Let_def)
  qed (subst readDigits.simps, simp)
qed

lemma readLength_post: "sinv s \<Longrightarrow> post (\<lambda>_ s'. moved s 0 0 s') (readLength acc s)"
proof (induction acc s rule: readLength.induct)
  case (1 acc s)
  show ?case
  proof (rule peekByte_post [OF 1(2)])
    fix c s1 assume p: "peekByte s = (Some c, s1)" and m1: "moved s 0 0 s1"
    show ?thesis
    proof (rule readBytes_cases [OF moved_sinv [OF m1], of 1])
      fix bs s2 assume r: "readBytes 1 s1 = Ret bs s2" and l: "length bs = 1" "after s1 bs 0 s2"
      then have m: "moved s 0 0 s2" using moved_trans [OF m1 after_moved [OF l(2)]] by (auto intro: moved_le)
      have "post (\<lambda>_ s''. moved s 0 0 s'') (readLength (acc @ [hd bs]) s2)"
        if "isdigit c" "\<not> length (acc @ [hd bs]) > 10"
        by (rule post_moved [OF m 1(1) [OF p [symmetric] refl _ r refl]]) (use that moved_sinv [OF m] in auto)
      then show ?thesis using p r m1 by (subst readLength.simps) (auto simp: Let_def)
    next
      fix s2 assume "readBytes 1 s1 = Fail s2"
      then show ?thesis using p m1 by (subst readLength.simps) auto
    qed
  qed (use 1(2) in \<open>subst readLength.simps, simp add: moved_refl\<close>)
qed

lemma readMagnitude_post:
  assumes "sinv s"
  shows "post (\<lambda>i s'. bwf (Integer i) \<and> moved s 0 0 s') (readMagnitude digits c s)"
proof -
  have z: "post (\<lambda>i s'. bwf (Integer i) \<and> moved s 0 0 s')
      (bindS (readBytes 1 s) (\<lambda>c s. if hd c \<noteq> 0x65 then failS ReadCorruptData s else Ret 0 s))"
    by (rule post_bind [OF readBytes_post [OF assms]]) (auto intro: moved_le)
  have n: "post (\<lambda>i s'. bwf (Integer i) \<and> moved s 0 0 s')
      (bindS (readDigits (digits @ [c]) s) (\<lambda>digits s. if digits = [0x2d, 0x30] then failS ReadCorruptData s
         else let (v, end) = strtoll digits in if end \<noteq> [] then failS ReadCorruptData s else Ret v s))"
  proof (rule post_bind [OF readDigits_post [OF assms]])
    fix ds s' assume m: "moved s 1 0 s'"
    obtain v e where v: "strtoll ds = (v, e)" by fastforce
    then have "bwf (Integer v)" using strtoll_range [of ds] by simp
    then show "post (\<lambda>i s'. bwf (Integer i) \<and> moved s 0 0 s') (if ds = [0x2d, 0x30] then failS ReadCorruptData s'
         else let (v, end) = strtoll ds in if end \<noteq> [] then failS ReadCorruptData s' else Ret v s')"
      using moved_le [OF m, of 0 0] by (simp add: v del: bwf.simps)
  qed
  show ?thesis using z n by (simp add: readMagnitude_def del: bwf.simps)
qed

lemma readInteger_post:
  assumes "sinv s"
  shows "post (\<lambda>i s'. bwf (Integer i) \<and> moved s 1 0 s') (readInteger s)"
  unfolding readInteger_def
proof (rule post_bind [OF consumeByte_post [OF assms]])
  fix u s1 assume m1: "moved s 1 0 s1"
  have go: "post (\<lambda>i s'. bwf (Integer i) \<and> moved s 1 0 s') (readMagnitude ds c s2)" if m2: "moved s 1 0 s2" for ds c s2
    by (rule post_mono [OF readMagnitude_post [OF moved_sinv [OF m2]]])
      (auto simp del: bwf.simps intro: moved_le [OF moved_trans [OF m2]])
  show "post (\<lambda>i s'. bwf (Integer i) \<and> moved s 1 0 s') (bindS (readBytes 1 s1) (\<lambda>c s.
      if hd c = 0x2d then bindS (readBytes 1 s) (\<lambda>c s. readMagnitude [0x2d] (hd c) s) else readMagnitude [] (hd c) s))"
  proof (rule post_bind [OF readBytes_post [OF moved_sinv [OF m1]]])
    fix c :: bytes and s2 assume "length c = 1 \<and> moved s1 1 0 s2"
    then have m2: "moved s 1 0 s2" by (auto intro: moved_le [OF moved_trans [OF m1]])
    have "post (\<lambda>i s'. bwf (Integer i) \<and> moved s 1 0 s') (bindS (readBytes 1 s2) (\<lambda>c s. readMagnitude [0x2d] (hd c) s))"
      by (rule post_bind [OF readBytes_post [OF moved_sinv [OF m2]]]) (auto simp del: bwf.simps One_nat_def intro!: go moved_le [OF moved_trans [OF m2]])
    then show "post (\<lambda>i s'. bwf (Integer i) \<and> moved s 1 0 s') (if hd c = 0x2d
        then bindS (readBytes 1 s2) (\<lambda>c s. readMagnitude [0x2d] (hd c) s) else readMagnitude [] (hd c) s2)"
      using go [OF m2] by simp
  qed
qed

lemma readString_post:
  assumes "sinv s"
  shows "post (\<lambda>str s'. moved s 1 (length str) s') (readString s)"
proof (rule peekByte_post [OF assms])
  fix c s0 assume p: "peekByte s = (Some c, s0)" and m0: "moved s 0 0 s0"
  have "post (\<lambda>str s'. moved s 1 (length str) s') (bindS (readLength [] s0) (\<lambda>lenDigits s.
      if lenDigits = [] \<or> length lenDigits > 1 \<and> hd lenDigits = 0x30 then failS ReadCorruptData s
      else bindS (consumeByte 0x3a s) (\<lambda>_ s. let (len, end) = strtoull lenDigits in
        if end \<noteq> [] \<or> len > allocLimit s then failS ReadCorruptData s
        else bindS (account len s) (\<lambda>_ s. if len > 0 then readBytes len s else Ret [] s))))"
  proof (rule post_bind [OF readLength_post [OF moved_sinv [OF m0]]])
    fix ds s1 assume "moved s0 0 0 s1"
    then have m1: "moved s 0 0 s1" using moved_trans [OF m0] by auto
    obtain len e where v: "strtoull ds = (len, e)" by fastforce
    have fin: "post (\<lambda>str s'. moved s 1 (length str) s') (bindS (account len s2) (\<lambda>_ s. if len > 0 then readBytes len s else Ret [] s))"
      if m2: "moved s 1 0 s2" for s2
    proof (rule post_bind [OF account_post [OF moved_sinv [OF m2]]])
      fix u s3 assume "moved s2 0 len s3"
      then have m3: "moved s 1 len s3" using moved_trans [OF m2] by auto
      have "post (\<lambda>str s'. moved s 1 (length str) s') (readBytes len s3)"
        by (rule post_mono [OF readBytes_post [OF moved_sinv [OF m3]]]) (auto intro: moved_le [OF moved_trans [OF m3]])
      then show "post (\<lambda>str s'. moved s 1 (length str) s') (if len > 0 then readBytes len s3 else Ret [] s3)"
        using m3 by (auto intro: moved_le)
    qed
    have "post (\<lambda>str s'. moved s 1 (length str) s') (bindS (consumeByte 0x3a s1) (\<lambda>_ s. let (len, end) = strtoull ds in
        if end \<noteq> [] \<or> len > allocLimit s then failS ReadCorruptData s
        else bindS (account len s) (\<lambda>_ s. if len > 0 then readBytes len s else Ret [] s)))"
      by (rule post_bind [OF consumeByte_post [OF moved_sinv [OF m1]]])
        (use fin moved_trans [OF m1] in \<open>auto simp: v\<close>)
    then show "post (\<lambda>str s'. moved s 1 (length str) s') (if ds = [] \<or> length ds > 1 \<and> hd ds = 0x30 then failS ReadCorruptData s1
      else bindS (consumeByte 0x3a s1) (\<lambda>_ s. let (len, end) = strtoull ds in
        if end \<noteq> [] \<or> len > allocLimit s then failS ReadCorruptData s
        else bindS (account len s) (\<lambda>_ s. if len > 0 then readBytes len s else Ret [] s)))" by simp
  qed
  then show ?thesis by (simp add: readString_def p)
qed (simp add: readString_def)

lemma weight_put:
  "weight (Dict (smap_put k v m)) \<le> weight (Dict m) + (length k + weight v + 1)"
  by (induction k v m rule: smap_put.induct) auto

lemma bwf_put: "bwf (Dict m) \<Longrightarrow> bwf v \<Longrightarrow> bwf (Dict (smap_put k v m))"
proof -
  have "e \<in> set (smap_put k v m) \<Longrightarrow> e = (k, v) \<or> e \<in> set m" for e
    by (induction k v m rule: smap_put.induct) (auto split: if_splits)
  then show "bwf (Dict m) \<Longrightarrow> bwf v \<Longrightarrow> ?thesis" by fastforce
qed

text \<open>Reading a value of weight \<open>weight v - w0\<close> beyond what was there already.\<close>

abbreviation valuePost :: "stream \<Rightarrow> nat \<Rightarrow> Bencode \<Rightarrow> stream \<Rightarrow> bool" where
  "valuePost s w0 v s' \<equiv> bwf v \<and> moved s 1 (weight v - w0) s'"

lemma valuePost_after:
  assumes "moved s k n s1" "post (valuePost s1 w1) r" "w1 \<le> w0 + n"
  shows "post (valuePost s w0) r"
  using assms(2)
proof (rule post_mono)
  fix v s' assume "valuePost s1 w1 v s'"
  then show "valuePost s w0 v s'"
    using moved_le [OF moved_trans [OF assms(1)], of 1 "weight v - w1" s' 1 "weight v - w0"] assms(3) by simp
qed

lemma container_end_post:
  "sinv s \<Longrightarrow> bwf v \<Longrightarrow> post (valuePost s (weight v)) (bindS (consumeByte 0x65 s) (\<lambda>_ s. Ret v s))"
  by (rule post_bind [OF consumeByte_post]) simp_all

lemma readValue_post:
  "sinv s \<Longrightarrow> 2 * length (pend s) < f \<Longrightarrow> post (valuePost s 0) (readValue f s)"
  "sinv s \<Longrightarrow> 2 * length (pend s) + 1 < f \<Longrightarrow> bwf (List vs) \<Longrightarrow> post (valuePost s (weight (List vs))) (readList f vs s)"
  "sinv s \<Longrightarrow> 2 * length (pend s) + 1 < f \<Longrightarrow> bwf (Dict m) \<Longrightarrow> post (valuePost s (weight (Dict m))) (readDict f m s)"
proof (induction f s and f vs s and f m s rule: readValue_readList_readDict.induct)
  case (2 f s)
  show ?case
  proof (rule peekByte_post [OF 2(3)])
    fix c s0 assume p: "peekByte s = (Some c, s0)" and m0: "moved s 0 0 s0"
    note s0 = moved_sinv [OF m0]
    have m1: "moved s 1 0 s1" "2 * length (pend s1) + 1 < f" if "moved s0 1 0 s1" for s1
      using moved_trans [OF m0 that] 2(4) by (auto simp: moved_def)
    have int: "post (valuePost s 0) (bindS (readInteger s0) (\<lambda>i s. Ret (Integer i) s))"
      by (rule valuePost_after [OF m0, of 0], rule post_bind [OF readInteger_post [OF s0]]) auto
    have str: "post (valuePost s 0) (bindS (readString s0) (\<lambda>str s. Ret (String str) s))"
      by (rule valuePost_after [OF m0, of 0], rule post_bind [OF readString_post [OF s0]]) auto
    have lst: "post (valuePost s 0) (bindS (consumeByte 0x6c s0) (\<lambda>_ s. readList f [] s))" if "c = 0x6c"
    proof (rule post_bind [OF consumeByte_post [OF s0]])
      fix u s1 assume s1: "moved s0 1 0 s1"
      from 2(1) [OF p [symmetric] refl] that moved_sinv [OF s1] m1(2) [OF s1]
      show "post (valuePost s 0) (readList f [] s1)" by (intro valuePost_after [OF m1(1) [OF s1]]) auto
    qed
    have dct: "post (valuePost s 0) (bindS (consumeByte 0x64 s0) (\<lambda>_ s. readDict f [] s))" if "c = 0x64"
    proof (rule post_bind [OF consumeByte_post [OF s0]])
      fix u s1 assume s1: "moved s0 1 0 s1"
      from 2(2) [OF p [symmetric] refl] that moved_sinv [OF s1] m1(2) [OF s1]
      show "post (valuePost s 0) (readDict f [] s1)" by (intro valuePost_after [OF m1(1) [OF s1]]) auto
    qed
    show ?thesis using int str lst dct by (simp add: p)
  qed simp
next
  case (4 f vs s)
  show ?case
  proof (rule peekByte_post [OF 4(3)])
    fix c s0 assume p: "peekByte s = (Some c, s0)" and m0: "moved s 0 0 s0"
    note s0 = moved_sinv [OF m0]
    have fin: "post (valuePost s (weight (List vs))) (bindS (consumeByte 0x65 s0) (\<lambda>_ s. Ret (List vs) s))"
      by (rule valuePost_after [OF m0 container_end_post [OF s0 4(5)]]) simp
    have f0: "2 * length (pend s0) < f" using m0 4(4) by (simp add: moved_def)
    have "post (valuePost s (weight (List vs))) (bindS (readValue f s0) (\<lambda>item s.
        bindS (account 1 s) (\<lambda>_ s. readList f (vs @ [item]) s)))" if c: "c \<noteq> 0x65"
    proof (rule post_bind [OF 4(1) [OF p [symmetric] refl c s0 f0]])
      fix v s1 assume v: "valuePost s0 0 v s1"
      then have m1: "moved s 1 (weight v) s1" using moved_trans [OF m0] by auto
      show "post (valuePost s (weight (List vs))) (bindS (account 1 s1) (\<lambda>_ s. readList f (vs @ [v]) s))"
      proof (rule post_bind [OF account_post [OF moved_sinv [OF m1]]])
        fix u s2 assume "moved s1 0 1 s2"
        from moved_trans [OF m1 this] have m2: "moved s 1 (weight v + 1) s2" by simp
        then have f2: "2 * length (pend s2) + 1 < f" using 4(4) by (simp add: moved_def)
        have "post (valuePost s2 (weight (List (vs @ [v])))) (readList f (vs @ [v]) s2)"
          by (rule 4(2) [OF p [symmetric] refl c moved_sinv [OF m2] f2]) (use v 4(5) in simp)
        then show "post (valuePost s (weight (List vs))) (readList f (vs @ [v]) s2)"
          by (rule valuePost_after [OF m2]) simp
      qed
    qed
    then show ?thesis using fin by (simp add: p)
  qed simp
next
  case (6 f m s)
  show ?case
  proof (rule peekByte_post [OF 6(3)])
    fix c s0 assume p: "peekByte s = (Some c, s0)" and m0: "moved s 0 0 s0"
    note s0 = moved_sinv [OF m0]
    have fin: "post (valuePost s (weight (Dict m))) (bindS (consumeByte 0x65 s0) (\<lambda>_ s. Ret (Dict m) s))"
      by (rule valuePost_after [OF m0 container_end_post [OF s0 6(5)]]) simp
    have "post (valuePost s (weight (Dict m))) (bindS (readString s0) (\<lambda>key s. bindS (readValue f s) (\<lambda>val s.
        bindS (account 1 s) (\<lambda>_ s. readDict f (smap_put key val m) s))))" if c: "c \<noteq> 0x65"
    proof (rule post_bind [OF readString_post [OF s0]])
      fix k :: bytes and s1 assume "moved s0 1 (length k) s1"
      then have m1: "moved s 1 (length k) s1" using moved_trans [OF m0] by auto
      then have f1: "2 * length (pend s1) < f" using 6(4) by (simp add: moved_def)
      show "post (valuePost s (weight (Dict m))) (bindS (readValue f s1) (\<lambda>val s.
        bindS (account 1 s) (\<lambda>_ s. readDict f (smap_put k val m) s)))"
      proof (rule post_bind [OF 6(1) [OF p [symmetric] refl c moved_sinv [OF m1] f1]])
        fix v s2 assume v: "valuePost s1 0 v s2"
        then have m2: "moved s 2 (length k + weight v) s2" using moved_trans [OF m1, of 1 "weight v" s2] by (simp add: numeral_2_eq_2)
        show "post (valuePost s (weight (Dict m))) (bindS (account 1 s2) (\<lambda>_ s. readDict f (smap_put k v m) s))"
        proof (rule post_bind [OF account_post [OF moved_sinv [OF m2]]])
          fix u s3 assume "moved s2 0 1 s3"
          from moved_trans [OF m2 this] have m3: "moved s 2 (length k + weight v + 1) s3" by simp
          then have f3: "2 * length (pend s3) + 1 < f" using 6(4) by (simp add: moved_def)
          have "post (valuePost s3 (weight (Dict (smap_put k v m)))) (readDict f (smap_put k v m) s3)"
            by (rule 6(2) [OF p [symmetric] refl c moved_sinv [OF m3] f3 bwf_put [OF 6(5)]]) (use v in simp)
          then show "post (valuePost s (weight (Dict m))) (readDict f (smap_put k v m) s3)"
            by (rule valuePost_after [OF m3]) (rule weight_put)
        qed
      qed
    qed
    then show ?thesis using fin by (simp add: p)
  qed simp
qed simp_all

lemma decode_run:
  assumes "length bs < 2 ^ 32"
  obtains s where "decode bs lim = Some (Invalid, Some s)"
  | v s where "decode bs lim = Some (v, None)" "bwf v" "weight v \<le> lim"
proof -
  define s where "s = setLengthLimit lim (readStream bs)"
  have s: "sinv s" "pend s = bs" "bs_status s = Ok" "bytesAllocated s = 0" "allocLimit s = lim"
    using assms by (auto simp: s_def setLengthLimit_def readStream_def sinv_def pend_def)
  have p: "post (valuePost s 0) (readValue (Suc (2 * length bs)) s)"
    by (rule readValue_post(1) [OF s(1)]) (simp add: s(2))
  show ?thesis
  proof (cases "readValue (Suc (2 * length bs)) s")
    case (Ret v s')
    then have v: "bwf v" "moved s 1 (weight v) s'" using p by auto
    have "bs_status s' = Ok" using moved_sinv [OF v(2)] by (simp add: sinv_def)
    moreover have "weight v \<le> lim" using v(2) s(4,5) by (simp add: moved_def)
    ultimately show ?thesis
      using that v(1) Ret s(3) by (cases "atEnd s'") (auto simp: decode_def getS_def simp flip: s_def)
  next
    case (Fail s')
    then show ?thesis using that(1) s(3) by (cases "bs_status s' = Ok") (auto simp: decode_def getS_def simp flip: s_def)
  qed (use p in simp)
qed

lemmas decode_eval = decode_def getS_def readStream_def setLengthLimit_def asciiBytes_def peekByte_def
  ensurePeekCached_def readLoop.simps bio_read_def readInteger_def consumeByte_def readBytes_def readMagnitude_def
  isdigit_def readDigits.simps strtoll_def digitsVal_def digitVal_def atEnd_def failS_def of_char_def
  readValue.simps(2) [of "pred_numeral k" for k, folded numeral_eq_Suc]

section \<open>Properties\<close>

text \<open>
  C15. Encoding a well-formed value succeeds and decoding the result gives the value back without
  an error, whenever the weight of the value (its string bytes and its items) is within the
  length limit of the decoder.
\<close>

theorem bencode_roundtrip:
  assumes "bwf v" "weight v \<le> lim" "lim < 2 ^ 32" "length (the (encode v)) < 2 ^ 31"
  shows "\<exists>bs. encode v = Some bs \<and> decode bs lim = Some (v, None)"
  using assms encode_code [OF assms(1)] decode_code [OF assms(1) _ assms(2,3)] by simp

theorem bencode_roundtrip_witness:
  "\<exists>bs. encode (Dict [([0x61], Integer (- 7)), ([0x62], List [String [1, 2], Dict []])]) = Some bs
     \<and> decode bs 100 = Some (Dict [([0x61], Integer (- 7)), ([0x62], List [String [1, 2], Dict []])], None)"
proof (rule bencode_roundtrip)
  show wf: "bwf (Dict [([0x61], Integer (- 7)), ([0x62], List [String [1, 2], Dict []])])" by simp
  have "length (to_string_int (- 7)) \<le> 3" "length (to_string_nat (Suc (Suc 0))) \<le> 3" "length (to_string_nat (Suc 0)) \<le> 3"
    using length_to_string [of 1 7] length_to_string [of 1 "Suc (Suc 0)"] length_to_string [of 1 1] by (simp_all add: to_string_int_def)
  then show "length (the (encode (Dict [([0x61], Integer (- 7)), ([0x62], List [String [1, 2], Dict []])]))) < 2 ^ 31"
    unfolding encode_code [OF wf] by (simp add: strCode_def)
qed simp_all

text \<open>
  C16. Whatever the input, what the decoder accepts is a well-formed value: 64-bit integers,
  dictionaries with strictly increasing keys, no invalid parts, and at most \<open>lengthLimit\<close> string
  bytes and items altogether.
\<close>

theorem bencode_decode_type:
  assumes "length bs < 2 ^ 31" "decode bs lim = Some (v, None)"
  shows "bwf v \<and> weight v \<le> lim"
proof -
  have "length bs < 2 ^ 32" using assms(1) by simp
  then show ?thesis by (rule decode_run [of bs lim]) (use assms(2) in auto)
qed

theorem bencode_decode_type_witness:
  "decode (asciiBytes ''i-52e'') 100 = Some (Integer (- 52), None) \<and> bwf (Integer (- 52)) \<and> weight (Integer (- 52)) \<le> 100"
proof -
  have "decode (asciiBytes ''i-52e'') 100 = Some (Integer (- 52), None)" by (simp add: decode_eval)
  then show ?thesis using bencode_decode_type [of "asciiBytes ''i-52e''" 100 "Integer (- 52)"] by (simp add: asciiBytes_def)
qed

text \<open>
  C33. Decoding returns on every input: the recursion over nested lists and dictionaries and the
  loops over their items end, and a failed decode gives the invalid value and an error text.
\<close>

theorem bencode_decode_total:
  assumes "length bs < 2 ^ 31"
  shows "\<exists>v e. decode bs lim = Some (v, e) \<and> (e = None \<or> v = Invalid)"
proof -
  have "length bs < 2 ^ 32" using assms by simp
  then show ?thesis by (rule decode_run [of bs lim]) auto
qed

theorem bencode_decode_total_witness:
  "\<exists>v e. decode [0x6c, 0x6c, 0x6c] 100 = Some (v, e) \<and> (e = None \<or> v = Invalid)"
  by (rule bencode_decode_total) simp

text \<open>
  An integer of at most 20 characters is accepted whatever its value, and one that does not
  fit into 64 bits is read as the nearest value that does: the decoder does not ask
  \<open>strtoll\<close> whether it had to saturate.
\<close>

theorem bencode_integer_saturates:
  assumes "length (to_string_int i) \<le> 20"
  shows "decode (0x69 # to_string_int i @ [0x65]) lim = Some (Integer (max (- (2 ^ 63)) (min (2 ^ 63 - 1) i)), None)"
  using decode_integer [OF assms] by (simp add: sat64_def)

theorem bencode_integer_saturates_witness:
  "decode (asciiBytes ''i99999999999999999999e'') 100 = Some (Integer (2 ^ 63 - 1), None)"
proof -
  have s: "0x69 # to_string_int 99999999999999999999 @ [0x65] = asciiBytes ''i99999999999999999999e''"
    by (simp add: to_string_int_def to_string_nat.simps asciiBytes_def of_char_def)
  have "to_string_int 99999999999999999999 = asciiBytes ''99999999999999999999''"
    by (simp add: to_string_int_def to_string_nat.simps asciiBytes_def of_char_def)
  then have "length (to_string_int 99999999999999999999) \<le> 20" by (simp add: asciiBytes_def)
  from bencode_integer_saturates [OF this, of 100] show ?thesis unfolding s by simp
qed

text \<open>
  \<open>i-0e\<close> is read as 0, since the test for \<open>-0\<close> comes after the branch that returns for a
  leading zero.
\<close>

lemma minus_zero_accepted: "decode (asciiBytes ''i-0e'') 100 = Some (Integer 0, None)"
  by (simp add: decode_eval)

end
