(* ===== verification/Coroutine_Locks.thy ===== *)
theory Coroutine_Locks
  imports Qtng_Prelude
begin

text \<open>
  The coroutine semaphore of \<open>locks.cpp\<close> and the locks built on it.  \<open>acquire\<close> suspends its
  coroutine by yielding to the event loop, so a call is cut at its yield: \<open>acquire\<close> runs up to
  the first one, \<open>resume\<close> from a yield to the next or to the return, with the locals
  \<open>gotNum\<close> and \<open>remain\<close> kept in the frame of the coroutine.  The step relation interleaves the
  calls of any coroutines with the notification the event loop runs; the real scheduler, which
  switches only at yields, takes a subset of these steps.  Coroutines are numbers, the C++
  \<open>int\<close> fields integers with the saturation of \<open>release\<close> written out.
\<close>

section \<open>The semaphore\<close>

record sem =
  init_value :: int
  counter :: int
  waiters :: "nat list"
  notified :: bool

text \<open>\<open>Aborted\<close> is a failed assertion, which ends the program.\<close>

datatype outcome = Granted | Refused | Blocked int int | Aborted

definition newSemaphore :: "int \<Rightarrow> sem" where
  "newSemaphore v = \<lparr> init_value = max 1 v, counter = v, waiters = [], notified = False \<rparr>"

definition sem_release :: "sem \<Rightarrow> int \<Rightarrow> sem" where
  "sem_release s v =
     (if v \<le> 0 then s
      else
        let s = s\<lparr> counter := (if counter s > (2 ^ 31 - 1) - v then 2 ^ 31 - 1 else counter s + v) \<rparr>;
            s = s\<lparr> counter := min (counter s) (init_value s) \<rparr>
        in if \<not> notified s \<and> waiters s \<noteq> [] then s\<lparr> notified := True \<rparr> else s)"

text \<open>The head of \<open>while (remain > 0)\<close>: queue up and yield, or leave the loop.\<close>

definition waitLoop :: "sem \<Rightarrow> nat \<Rightarrow> int \<Rightarrow> int \<Rightarrow> outcome \<times> sem" where
  "waitLoop s c gotNum remain =
     (if remain > 0 then (Blocked gotNum remain, s\<lparr> waiters := waiters s @ [c] \<rparr>) else (Granted, s))"

definition sem_acquire :: "sem \<Rightarrow> nat \<Rightarrow> int \<Rightarrow> u32 \<Rightarrow> outcome \<times> sem" where
  "sem_acquire s c val msecs =
     (if counter s \<ge> val then (Granted, s\<lparr> counter := counter s - val \<rparr>)
      else if msecs = 0 then (Refused, s)
      else waitLoop (s\<lparr> counter := 0 \<rparr>) c (counter s) (val - counter s))"

text \<open>From the return of \<open>yield()\<close>: a coroutine still in the queue was woken by its timer.\<close>

definition resume :: "sem \<Rightarrow> nat \<Rightarrow> int \<Rightarrow> int \<Rightarrow> outcome \<times> sem" where
  "resume s c gotNum remain =
     (let found = c \<in> set (waiters s);
          s = s\<lparr> waiters := removeAll c (waiters s) \<rparr>
      in if found then (Refused, sem_release s gotNum)
         else if \<not> notified s \<or> \<not> counter s > 0 then (Aborted, s)
         else if counter s \<ge> remain then (Granted, s\<lparr> counter := counter s - remain \<rparr>)
         else waitLoop (s\<lparr> counter := 0 \<rparr>) c (gotNum + counter s) (remain - counter s))"

text \<open>The handler of an exception thrown at the yield, when the coroutine is killed.\<close>

definition sem_cancel :: "sem \<Rightarrow> nat \<Rightarrow> int \<Rightarrow> sem" where
  "sem_cancel s c gotNum = sem_release (s\<lparr> waiters := removeAll c (waiters s) \<rparr>) gotNum"

definition acquireMany :: "sem \<Rightarrow> nat \<Rightarrow> int \<Rightarrow> u32 \<Rightarrow> outcome \<times> sem" where
  "acquireMany s c val msecs = (if val > init_value s then (Refused, s) else sem_acquire s c val msecs)"

definition tryAcquire :: "sem \<Rightarrow> nat \<Rightarrow> u32 \<Rightarrow> outcome \<times> sem" where
  "tryAcquire s c msecs = (if 1 > init_value s then (Refused, s) else sem_acquire s c 1 msecs)"

definition isLocked :: "sem \<Rightarrow> bool" where
  "isLocked s \<longleftrightarrow> counter s \<le> 0"

definition isUsed :: "sem \<Rightarrow> bool" where
  "isUsed s \<longleftrightarrow> counter s < init_value s"

definition getting :: "sem \<Rightarrow> nat" where
  "getting s = length (waiters s)"

definition newLock :: sem where
  "newLock = newSemaphore 1"

definition scheduleDelete :: "sem \<Rightarrow> sem" where
  "scheduleDelete s = s\<lparr> counter := init_value s, notified := True \<rparr>"

text \<open>
  \<open>SemaphoreNotifyWaitersFunctor\<close>: its guard, and the loop when every woken coroutine yields
  back at once: a coroutine whose call returns runs its own code later, not inside the loop.
  The result is the coroutines whose call returned true, in order, or a failed assertion in
  one of them.
\<close>

datatype 'a loopEnd = AssertFailed | Finished 'a

definition notifyGuard :: "bool \<Rightarrow> sem \<Rightarrow> bool" where
  "notifyGuard doDelete s \<longleftrightarrow> (doDelete \<or> (notified s \<and> counter s > 0)) \<and> waiters s \<noteq> []"

type_synonym frames = "nat \<Rightarrow> (int \<times> int) option"

fun settleFrame :: "nat \<Rightarrow> outcome \<Rightarrow> frames \<Rightarrow> frames" where
  "settleFrame c (Blocked g r) fr = fr(c \<mapsto> (g, r))"
| "settleFrame c _ fr = fr(c := None)"

fun served :: "nat \<Rightarrow> outcome \<Rightarrow> (nat list \<times> 'a) loopEnd \<Rightarrow> (nat list \<times> 'a) loopEnd" where
  "served w x AssertFailed = AssertFailed"
| "served w x (Finished (ws, y)) = Finished (if x = Granted then w # ws else ws, y)"

fun notifyLoop :: "nat \<Rightarrow> bool \<Rightarrow> frames \<Rightarrow> sem \<Rightarrow> (nat list \<times> frames \<times> sem) loopEnd option" where
  "notifyLoop 0 doDelete fr s = None"
| "notifyLoop (Suc fuel) doDelete fr s =
     (if notifyGuard doDelete s then
        let w = hd (waiters s); s = s\<lparr> waiters := tl (waiters s) \<rparr> in
        case fr w of
          None \<Rightarrow> notifyLoop fuel doDelete fr s
        | Some (g, r) \<Rightarrow>
            let (x, s) = resume s w g r in
            if x = Aborted then Some AssertFailed
            else map_option (served w x) (notifyLoop fuel doDelete (settleFrame w x fr) s)
      else Some (Finished ([], fr, s\<lparr> notified := False \<rparr>)))"

section \<open>Interleavings\<close>

text \<open>
  The semaphore, the suspended calls, the units each coroutine holds, and whether the
  notification loop is under way.
\<close>

record config =
  cf_sem :: sem
  cf_frames :: frames
  cf_held :: "nat \<Rightarrow> int"
  cf_running :: bool

definition settle :: "nat \<Rightarrow> int \<Rightarrow> outcome \<times> sem \<Rightarrow> config \<Rightarrow> config" where
  "settle c val r cf =
     cf\<lparr> cf_sem := snd r, cf_frames := settleFrame c (fst r) (cf_frames cf),
         cf_held := (if fst r = Granted then (cf_held cf)(c := cf_held cf c + val) else cf_held cf) \<rparr>"

definition startConfig :: "int \<Rightarrow> config" where
  "startConfig n = \<lparr> cf_sem = newSemaphore n, cf_frames = (\<lambda>_. None), cf_held = (\<lambda>_. 0), cf_running = False \<rparr>"

text \<open>Coroutines from \<open>C\<close> ask for at most \<open>m\<close> units at a time and release what they hold.\<close>

inductive sem_step :: "nat set \<Rightarrow> int \<Rightarrow> config \<Rightarrow> config \<Rightarrow> bool" for C m where
  acquire: "c \<in> C \<Longrightarrow> cf_frames cf c = None \<Longrightarrow> 1 \<le> v \<Longrightarrow> v \<le> m \<Longrightarrow>
    sem_step C m cf (settle c v (acquireMany (cf_sem cf) c v msecs) cf)"
| release: "c \<in> C \<Longrightarrow> cf_frames cf c = None \<Longrightarrow> 1 \<le> v \<Longrightarrow> v \<le> cf_held cf c \<Longrightarrow>
    sem_step C m cf (cf\<lparr> cf_sem := sem_release (cf_sem cf) v, cf_held := (cf_held cf)(c := cf_held cf c - v) \<rparr>)"
| timeout: "cf_frames cf c = Some (g, r) \<Longrightarrow> c \<in> set (waiters (cf_sem cf)) \<Longrightarrow>
    sem_step C m cf (settle c (g + r) (resume (cf_sem cf) c g r) cf)"
| cancel: "cf_frames cf c = Some (g, r) \<Longrightarrow> c \<in> set (waiters (cf_sem cf)) \<Longrightarrow>
    sem_step C m cf (settle c (g + r) (Refused, sem_cancel (cf_sem cf) c g) cf)"
| start: "notified (cf_sem cf) \<Longrightarrow> \<not> cf_running cf \<Longrightarrow> sem_step C m cf (cf\<lparr> cf_running := True \<rparr>)"
| wake: "cf_running cf \<Longrightarrow> notifyGuard False (cf_sem cf) \<Longrightarrow> waiters (cf_sem cf) = w # ws \<Longrightarrow>
    cf_frames cf w = Some (g, r) \<Longrightarrow>
    sem_step C m cf (settle w (g + r) (resume ((cf_sem cf)\<lparr> waiters := ws \<rparr>) w g r) cf)"
| stop: "cf_running cf \<Longrightarrow> \<not> notifyGuard False (cf_sem cf) \<Longrightarrow>
    sem_step C m cf (cf\<lparr> cf_sem := (cf_sem cf)\<lparr> notified := False \<rparr>, cf_running := False \<rparr>)"

section \<open>The invariant\<close>

text \<open>What a suspended call has already taken out of the counter.\<close>

definition hoard :: "config \<Rightarrow> nat \<Rightarrow> int" where
  "hoard cf c = (case cf_frames cf c of None \<Rightarrow> 0 | Some (g, r) \<Rightarrow> g)"

definition owned :: "config \<Rightarrow> nat \<Rightarrow> int" where
  "owned cf c = hoard cf c + cf_held cf c"

definition queueOk :: "nat set \<Rightarrow> int \<Rightarrow> config \<Rightarrow> bool" where
  "queueOk C m cf \<longleftrightarrow> distinct (waiters (cf_sem cf)) \<and> set (waiters (cf_sem cf)) = dom (cf_frames cf) \<and> dom (cf_frames cf) \<subseteq> C
     \<and> (\<forall>c g r. cf_frames cf c = Some (g, r) \<longrightarrow> 0 \<le> g \<and> 0 < r \<and> g + r \<le> m)"

definition booksOk :: "nat set \<Rightarrow> int \<Rightarrow> config \<Rightarrow> bool" where
  "booksOk C n cf \<longleftrightarrow> init_value (cf_sem cf) = n \<and> counter (cf_sem cf) \<ge> 0
     \<and> counter (cf_sem cf) + sum (owned cf) C = n \<and> (\<forall>c\<in>C. cf_held cf c \<ge> 0)"

definition wakeupOk :: "config \<Rightarrow> bool" where
  "wakeupOk cf \<longleftrightarrow> (waiters (cf_sem cf) \<noteq> [] \<longrightarrow> counter (cf_sem cf) > 0 \<longrightarrow> notified (cf_sem cf))"

definition semInv :: "nat set \<Rightarrow> int \<Rightarrow> int \<Rightarrow> config \<Rightarrow> bool" where
  "semInv C n m cf \<longleftrightarrow> queueOk C m cf \<and> booksOk C n cf \<and> wakeupOk cf"

lemma sum_change:
  fixes f :: "nat \<Rightarrow> int"
  assumes "finite C" "c \<in> C" "\<And>d. d \<noteq> c \<Longrightarrow> f' d = f d"
  shows "sum f' C = sum f C - f c + f' c"
proof -
  have "sum f' (C - {c}) = sum f (C - {c})" using assms(3) by (intro sum.cong) auto
  then show ?thesis using assms(1,2) by (simp add: sum.remove [of C c])
qed

lemma owned_nonneg: "queueOk C m cf \<Longrightarrow> booksOk C n cf \<Longrightarrow> c \<in> C \<Longrightarrow> 0 \<le> cf_held cf c \<and> 0 \<le> hoard cf c"
  by (auto simp: queueOk_def booksOk_def hoard_def split: option.splits)

lemma owned_le:
  assumes "finite C" "queueOk C m cf" "booksOk C n cf" "c \<in> C"
  shows "counter (cf_sem cf) + owned cf c \<le> n"
proof -
  have "sum (owned cf) {c} \<le> sum (owned cf) C"
    using assms owned_nonneg [OF assms(2,3)] by (intro sum_mono2) (auto simp: owned_def)
  then show ?thesis using assms(3) by (simp add: booksOk_def)
qed

text \<open>Within the books, the two saturations of \<open>release\<close> do not act.\<close>

lemma sem_release_exact:
  assumes "0 \<le> v" "0 \<le> counter s" "counter s + v \<le> init_value s" "init_value s \<le> 2 ^ 31 - 1"
  shows "sem_release s v = s\<lparr>counter := counter s + v, notified := notified s \<or> (0 < v \<and> waiters s \<noteq> [])\<rparr>"
proof -
  have "\<not> counter s > (2 ^ 31 - 1) - v" using assms by simp
  then show ?thesis using assms by (auto simp: sem_release_def Let_def)
qed

lemma settle_simps [simp]:
  "cf_sem (settle c v r cf) = snd r" "cf_running (settle c v r cf) = cf_running cf"
  "cf_frames (settle c v r cf) = settleFrame c (fst r) (cf_frames cf)"
  "cf_held (settle c v r cf) = (if fst r = Granted then (cf_held cf)(c := cf_held cf c + v) else cf_held cf)"
  by (simp_all add: settle_def)

text \<open>A call of \<open>c\<close> that moves units between the counter and \<open>c\<close> keeps the books.\<close>

lemma booksOk_move:
  assumes "finite C" "c \<in> C" "booksOk C n cf" "init_value (cf_sem cf') = n" "counter (cf_sem cf') \<ge> 0"
    "counter (cf_sem cf') + owned cf' c = counter (cf_sem cf) + owned cf c"
    "\<And>d. d \<noteq> c \<Longrightarrow> owned cf' d = owned cf d" "\<And>d. d \<in> C \<Longrightarrow> cf_held cf' d \<ge> 0"
  shows "booksOk C n cf'"
  using sum_change [OF assms(1,2), of "owned cf'" "owned cf"] assms by (auto simp: booksOk_def)

lemma owned_settle_other: "d \<noteq> c \<Longrightarrow> owned (settle c v r cf) d = owned cf d"
  by (cases "fst r") (auto simp: owned_def hoard_def)

lemma owned_settle_self:
  "owned (settle c v (Granted, s) cf) c = cf_held cf c + v"
  "owned (settle c v (Refused, s) cf) c = cf_held cf c"
  "owned (settle c v (Blocked g r, s) cf) c = cf_held cf c + g"
  by (simp_all add: owned_def hoard_def)

lemma booksOk_settle:
  assumes "finite C" "c \<in> C" "queueOk C m cf" "booksOk C n cf" "init_value s = n" "counter s \<ge> 0" "0 \<le> v"
    "counter s + owned (settle c v (x, s) cf) c = counter (cf_sem cf) + owned cf c"
  shows "booksOk C n (settle c v (x, s) cf)"
  by (rule booksOk_move [OF assms(1,2,4)])
    (use assms owned_nonneg [OF assms(3,4)] in \<open>auto simp: owned_settle_other\<close>)

lemma queueOk_frame:
  "queueOk C m cf \<Longrightarrow> cf_frames cf c = Some (g, r) \<Longrightarrow> c \<in> C \<and> c \<in> set (waiters (cf_sem cf)) \<and> 0 \<le> g \<and> 0 < r \<and> g + r \<le> m"
  by (auto simp: queueOk_def)

lemma hoard_Some: "cf_frames cf c = Some (g, r) \<Longrightarrow> owned cf c = g + cf_held cf c"
  by (simp add: owned_def hoard_def)

lemma hoard_None: "cf_frames cf c = None \<Longrightarrow> owned cf c = cf_held cf c"
  by (simp add: owned_def hoard_def)

text \<open>A suspended call that ends without success gives back what it took.\<close>

lemma semInv_leave:
  assumes fin: "finite C" "n \<le> 2 ^ 31 - 1" and inv: "semInv C n m cf" and c: "cf_frames cf c = Some (g, r)"
  shows "semInv C n m (settle c v (Refused, sem_release ((cf_sem cf)\<lparr>waiters := removeAll c (waiters (cf_sem cf))\<rparr>) g) cf)"
    (is "semInv C n m (settle c v (Refused, ?s) cf)")
proof -
  have q: "queueOk C m cf" and b: "booksOk C n cf" and w: "wakeupOk cf" using inv by (auto simp: semInv_def)
  note cC = queueOk_frame [OF q c]
  have le: "counter (cf_sem cf) + (g + cf_held cf c) \<le> n" using owned_le [OF fin(1) q b, of c] cC hoard_Some [OF c] by simp
  have "0 \<le> cf_held cf c" using owned_nonneg [OF q b] cC by auto
  with le have "counter (cf_sem cf) + g \<le> n" by simp
  then have rel: "?s = (cf_sem cf)\<lparr>waiters := removeAll c (waiters (cf_sem cf)), counter := counter (cf_sem cf) + g,
      notified := notified (cf_sem cf) \<or> 0 < g \<and> removeAll c (waiters (cf_sem cf)) \<noteq> []\<rparr>"
    using sem_release_exact [of g "(cf_sem cf)\<lparr>waiters := removeAll c (waiters (cf_sem cf))\<rparr>"] b cC fin(2) by (simp add: booksOk_def)
  have "settle c v (Refused, ?s) cf = settle c 0 (Refused, ?s) cf" by (simp add: settle_def)
  moreover have "booksOk C n (settle c 0 (Refused, ?s) cf)"
    by (rule booksOk_settle [OF fin(1) _ q b]) (use b cC hoard_Some [OF c] in \<open>auto simp: rel booksOk_def owned_settle_self\<close>)
  ultimately have "booksOk C n (settle c v (Refused, ?s) cf)" by (simp only:)
  moreover have "queueOk C m (settle c v (Refused, ?s) cf)"
    using q by (auto simp: queueOk_def rel distinct_removeAll split: if_splits)
  moreover have "wakeupOk (settle c v (Refused, ?s) cf)"
    using w cC by (auto simp: wakeupOk_def rel)
  ultimately show ?thesis by (simp add: semInv_def)
qed

lemma semInv_acquire:
  assumes fin: "finite C" "n \<le> 2 ^ 31 - 1" and inv: "semInv C n m cf"
    and c: "c \<in> C" "cf_frames cf c = None" and v: "1 \<le> v" "v \<le> m"
  shows "semInv C n m (settle c v (acquireMany (cf_sem cf) c v msecs) cf)"
proof -
  have q: "queueOk C m cf" and b: "booksOk C n cf" and w: "wakeupOk cf" using inv by (auto simp: semInv_def)
  have cw: "c \<notin> set (waiters (cf_sem cf))" using q c(2) by (auto simp: queueOk_def)
  consider "acquireMany (cf_sem cf) c v msecs = (Refused, cf_sem cf)"
    | "counter (cf_sem cf) \<ge> v" "acquireMany (cf_sem cf) c v msecs = (Granted, (cf_sem cf)\<lparr>counter := counter (cf_sem cf) - v\<rparr>)"
    | "counter (cf_sem cf) < v" "acquireMany (cf_sem cf) c v msecs = (Blocked (counter (cf_sem cf)) (v - counter (cf_sem cf)),
        (cf_sem cf)\<lparr>counter := 0, waiters := waiters (cf_sem cf) @ [c]\<rparr>)"
    by (cases "init_value (cf_sem cf) < v"; cases "counter (cf_sem cf) < v"; cases "msecs = 0")
      (auto simp: acquireMany_def sem_acquire_def waitLoop_def)
  then show ?thesis
  proof cases
    case 1
    have "settle c v (Refused, cf_sem cf) cf = cf" using c(2) by (simp add: settle_def fun_upd_idem)
    then show ?thesis using inv 1 by simp
  next
    case 2
    have "booksOk C n (settle c v (Granted, (cf_sem cf)\<lparr>counter := counter (cf_sem cf) - v\<rparr>) cf)"
      by (rule booksOk_settle [OF fin(1) c(1) q b]) (use b v 2 hoard_None [OF c(2)] in \<open>auto simp: booksOk_def owned_settle_self\<close>)
    moreover have "queueOk C m (settle c v (Granted, (cf_sem cf)\<lparr>counter := counter (cf_sem cf) - v\<rparr>) cf)"
      using q c(2) by (simp add: queueOk_def fun_upd_idem)
    moreover have "wakeupOk (settle c v (Granted, (cf_sem cf)\<lparr>counter := counter (cf_sem cf) - v\<rparr>) cf)"
      using w v by (auto simp: wakeupOk_def)
    ultimately show ?thesis using 2 by (simp add: semInv_def)
  next
    case 3
    let ?r = "(Blocked (counter (cf_sem cf)) (v - counter (cf_sem cf)), (cf_sem cf)\<lparr>counter := 0, waiters := waiters (cf_sem cf) @ [c]\<rparr>)"
    have "booksOk C n (settle c v ?r cf)"
      by (rule booksOk_settle [OF fin(1) c(1) q b]) (use b v hoard_None [OF c(2)] in \<open>auto simp: booksOk_def owned_settle_self\<close>)
    moreover have "queueOk C m (settle c v ?r cf)" using q c v 3(1) b cw by (auto simp: queueOk_def booksOk_def)
    moreover have "wakeupOk (settle c v ?r cf)" by (simp add: wakeupOk_def)
    ultimately show ?thesis using 3 by (simp add: semInv_def)
  qed
qed

lemma semInv_release:
  assumes fin: "finite C" "n \<le> 2 ^ 31 - 1" and inv: "semInv C n m cf"
    and c: "c \<in> C" "cf_frames cf c = None" and v: "1 \<le> v" "v \<le> cf_held cf c"
  shows "semInv C n m (cf\<lparr>cf_sem := sem_release (cf_sem cf) v, cf_held := (cf_held cf)(c := cf_held cf c - v)\<rparr>)"
    (is "semInv C n m ?cf")
proof -
  have q: "queueOk C m cf" and b: "booksOk C n cf" and w: "wakeupOk cf" using inv by (auto simp: semInv_def)
  have le: "counter (cf_sem cf) + v \<le> n" using owned_le [OF fin(1) q b c(1)] hoard_None [OF c(2)] v by simp
  then have rel: "sem_release (cf_sem cf) v = (cf_sem cf)\<lparr>counter := counter (cf_sem cf) + v,
      notified := notified (cf_sem cf) \<or> (0 < v \<and> waiters (cf_sem cf) \<noteq> [])\<rparr>"
    using b v fin(2) by (intro sem_release_exact) (auto simp: booksOk_def)
  have "booksOk C n ?cf"
    by (rule booksOk_move [OF fin(1) c(1) b]) (use b v c hoard_None [OF c(2)] in \<open>auto simp: rel booksOk_def owned_def hoard_def\<close>)
  moreover have "queueOk C m ?cf" using q by (simp add: queueOk_def rel)
  moreover have "wakeupOk ?cf" using v by (auto simp: wakeupOk_def rel)
  ultimately show ?thesis by (simp add: semInv_def)
qed

lemma semInv_wake:
  assumes fin: "finite C" and inv: "semInv C n m cf" and guard: "notifyGuard False (cf_sem cf)"
    and ws: "waiters (cf_sem cf) = w # ws" and f: "cf_frames cf w = Some (g, r)"
  shows "semInv C n m (settle w (g + r) (resume ((cf_sem cf)\<lparr>waiters := ws\<rparr>) w g r) cf)"
proof -
  have q: "queueOk C m cf" and b: "booksOk C n cf" using inv by (auto simp: semInv_def)
  note cC = queueOk_frame [OF q f]
  have nt: "notified (cf_sem cf)" "0 < counter (cf_sem cf)" using guard by (auto simp: notifyGuard_def)
  have nin: "w \<notin> set ws" using q by (auto simp: queueOk_def ws)
  define k where "k = counter (cf_sem cf)"
  consider "k \<ge> r" "resume ((cf_sem cf)\<lparr>waiters := ws\<rparr>) w g r = (Granted, (cf_sem cf)\<lparr>waiters := ws, counter := k - r\<rparr>)"
    | "k < r" "resume ((cf_sem cf)\<lparr>waiters := ws\<rparr>) w g r = (Blocked (g + k) (r - k), (cf_sem cf)\<lparr>waiters := ws @ [w], counter := 0\<rparr>)"
    using nin nt by (cases "k < r") (auto simp: resume_def waitLoop_def Let_def k_def)
  then show ?thesis
  proof cases
    case 1
    have "booksOk C n (settle w (g + r) (Granted, (cf_sem cf)\<lparr>waiters := ws, counter := k - r\<rparr>) cf)"
      by (rule booksOk_settle [OF fin _ q b]) (use b cC 1(1) hoard_Some [OF f] in \<open>auto simp: booksOk_def owned_settle_self k_def\<close>)
    moreover have "queueOk C m (settle w (g + r) (Granted, (cf_sem cf)\<lparr>waiters := ws, counter := k - r\<rparr>) cf)"
      using q nin by (auto simp: queueOk_def ws split: if_splits)
    ultimately show ?thesis using 1 nt by (simp add: semInv_def wakeupOk_def)
  next
    case 2
    have "booksOk C n (settle w (g + r) (Blocked (g + k) (r - k), (cf_sem cf)\<lparr>waiters := ws @ [w], counter := 0\<rparr>) cf)"
      by (rule booksOk_settle [OF fin _ q b]) (use b cC 2(1) hoard_Some [OF f] in \<open>auto simp: booksOk_def owned_settle_self k_def\<close>)
    moreover have "queueOk C m (settle w (g + r) (Blocked (g + k) (r - k), (cf_sem cf)\<lparr>waiters := ws @ [w], counter := 0\<rparr>) cf)"
      using q nin cC 2(1) nt by (auto simp: queueOk_def ws k_def split: if_splits)
    ultimately show ?thesis using 2 nt by (simp add: semInv_def wakeupOk_def)
  qed
qed

lemma semInv_step:
  assumes "finite C" "n \<le> 2 ^ 31 - 1" "sem_step C m cf cf'" "semInv C n m cf"
  shows "semInv C n m cf'"
  using assms(3)
proof cases
  case (acquire c v msecs)
  then show ?thesis using semInv_acquire [OF assms(1,2,4)] by blast
next
  case (release c v)
  then show ?thesis using semInv_release [OF assms(1,2,4)] by blast
next
  case (timeout c g r)
  have "resume (cf_sem cf) c g r = (Refused, sem_release ((cf_sem cf)\<lparr>waiters := removeAll c (waiters (cf_sem cf))\<rparr>) g)"
    using timeout by (simp add: resume_def)
  then show ?thesis using semInv_leave [OF assms(1,2,4)] timeout by simp
next
  case (cancel c g r)
  then show ?thesis using semInv_leave [OF assms(1,2,4)] by (simp add: sem_cancel_def)
next
  case (wake w ws g r)
  then show ?thesis using semInv_wake [OF assms(1,4)] by simp
next
  case stop
  have "owned (cf\<lparr>cf_sem := s, cf_running := b\<rparr>) = owned cf" for s b by (simp add: owned_def hoard_def fun_eq_iff)
  then show ?thesis
    using stop assms(4) by (auto simp: semInv_def queueOk_def booksOk_def wakeupOk_def notifyGuard_def owned_def hoard_def)
qed (use assms(4) in \<open>auto simp: semInv_def queueOk_def booksOk_def wakeupOk_def owned_def hoard_def fun_eq_iff\<close>)

lemma semInv_start: "1 \<le> n \<Longrightarrow> semInv C n m (startConfig n)"
  by (simp add: semInv_def startConfig_def queueOk_def booksOk_def wakeupOk_def newSemaphore_def owned_def hoard_def max_def)

lemma semInv_reachable:
  assumes "finite C" "1 \<le> n" "n \<le> 2 ^ 31 - 1" "(sem_step C m)\<^sup>*\<^sup>* (startConfig n) cf"
  shows "semInv C n m cf"
  using assms(4)
proof (induction rule: rtranclp_induct)
  case base
  then show ?case by (rule semInv_start [OF assms(2)])
next
  case (step cf cf')
  then show ?case using semInv_step [OF assms(1,3)] by blast
qed

section \<open>The notification loop\<close>

text \<open>The loop never wakes a coroutine into one of the assertions.\<close>

lemma wake_never_aborts:
  "notifyGuard False s \<Longrightarrow> fst (resume (s\<lparr>waiters := ws\<rparr>) w g r) \<noteq> Aborted"
  by (auto simp: notifyGuard_def resume_def waitLoop_def Let_def)

lemma resume_unit:
  assumes "w \<notin> set (waiters s)" "notified s"
  shows "resume s w 0 1 = (if counter s > 0 then (Granted, s\<lparr>counter := counter s - 1\<rparr>) else (Aborted, s))"
  using assms by (auto simp: resume_def waitLoop_def Let_def)

definition unitQueue :: "frames \<Rightarrow> sem \<Rightarrow> bool" where
  "unitQueue fr s \<longleftrightarrow> distinct (waiters s) \<and> (\<forall>w \<in> set (waiters s). fr w = Some (0, 1)) \<and> 0 \<le> counter s"

lemma unitQueue_pop:
  assumes "unitQueue fr s" "waiters s = w # ws" "counter s > 0"
  shows "unitQueue (fr(w := None)) (s\<lparr>waiters := ws, counter := counter s - 1\<rparr>)"
  using assms by (auto simp: unitQueue_def)

text \<open>With single units requested, a run of the loop serves the queue in order.\<close>

lemma notifyLoop_unit:
  assumes "unitQueue fr s" "notified s" "length (waiters s) < fuel"
  shows "\<exists>fr' s'. notifyLoop fuel False fr s = Some (Finished (take (nat (counter s)) (waiters s), fr', s'))
    \<and> waiters s' = drop (nat (counter s)) (waiters s) \<and> \<not> notified s'"
  using assms
proof (induction fuel arbitrary: fr s)
  case (Suc fuel)
  show ?case
  proof (cases "notifyGuard False s")
    case True
    then obtain w ws where ws: "waiters s = w # ws" and k: "counter s > 0"
      by (auto simp: notifyGuard_def neq_Nil_conv)
    define s1 where "s1 = s\<lparr>waiters := ws, counter := counter s - 1\<rparr>"
    have w: "fr w = Some (0, 1)" "w \<notin> set ws" using Suc.prems(1) ws by (auto simp: unitQueue_def)
    then have r: "resume (s\<lparr>waiters := ws\<rparr>) w 0 1 = (Granted, s1)"
      using k Suc.prems(2) resume_unit [of w "s\<lparr>waiters := ws\<rparr>"] by (simp add: s1_def)
    have "\<exists>fr' s'. notifyLoop fuel False (fr(w := None)) s1 = Some (Finished (take (nat (counter s1)) (waiters s1), fr', s'))
        \<and> waiters s' = drop (nat (counter s1)) (waiters s1) \<and> \<not> notified s'"
      by (rule Suc.IH [OF unitQueue_pop [OF Suc.prems(1) ws k, folded s1_def]])
        (use Suc.prems(2,3) ws in \<open>simp_all add: s1_def\<close>)
    then obtain fr' s' where rec: "notifyLoop fuel False (fr(w := None)) s1 = Some (Finished (take (nat (counter s1)) (waiters s1), fr', s'))"
      "waiters s' = drop (nat (counter s1)) (waiters s1)" "\<not> notified s'" by blast
    have "nat (counter s) = Suc (nat (counter s1))" using k by (simp add: s1_def)
    then show ?thesis using True ws w r rec by (simp add: s1_def Let_def)
  next
    case False
    then have "take (nat (counter s)) (waiters s) = []" "drop (nat (counter s)) (waiters s) = waiters s"
      using Suc.prems(2) by (auto simp: notifyGuard_def not_less)
    then show ?thesis using False by simp
  qed
qed simp

text \<open>A deletion with more waiters than units wakes one waiter too many.\<close>

lemma notifyLoop_delete:
  assumes "unitQueue fr s" "notified s" "counter s < int (length (waiters s))" "nat (counter s) < fuel"
  shows "notifyLoop fuel True fr s = Some AssertFailed"
  using assms
proof (induction fuel arbitrary: fr s)
  case (Suc fuel)
  then obtain w ws where ws: "waiters s = w # ws" by (cases "waiters s") (auto simp: unitQueue_def)
  then have guard: "notifyGuard True s" by (simp add: notifyGuard_def)
  have w: "fr w = Some (0, 1)" "w \<notin> set ws" using Suc.prems(1) ws by (auto simp: unitQueue_def)
  show ?case
  proof (cases "counter s > 0")
    case True
    have "notifyLoop fuel True (fr(w := None)) (s\<lparr>waiters := ws, counter := counter s - 1\<rparr>) = Some AssertFailed"
      by (rule Suc.IH [OF unitQueue_pop [OF Suc.prems(1) ws True]]) (use Suc.prems(2-4) ws True in simp_all)
    then show ?thesis using guard ws w True Suc.prems(2) resume_unit [of w "s\<lparr>waiters := ws\<rparr>"] by (simp add: Let_def)
  next
    case False
    then show ?thesis using guard ws w Suc.prems(2) resume_unit [of w "s\<lparr>waiters := ws\<rparr>"] by (simp add: Let_def)
  qed
qed simp

text \<open>
  A state in which the coroutines \<open>W\<close> wait, every free unit is gone into part payments of theirs,
  and nobody holds any.  It is stable under the steps in which no call of \<open>W\<close> ends other
  than by success.
\<close>

definition patient_step :: "nat set \<Rightarrow> int \<Rightarrow> nat set \<Rightarrow> config \<Rightarrow> config \<Rightarrow> bool" where
  "patient_step C m W cf cf' \<longleftrightarrow> sem_step C m cf cf' \<and>
     (\<forall>w\<in>W. cf_frames cf w \<noteq> None \<longrightarrow> cf_frames cf' w = None \<longrightarrow> cf_held cf' w > cf_held cf w)"

definition stuck :: "nat set \<Rightarrow> config \<Rightarrow> bool" where
  "stuck W cf \<longleftrightarrow> counter (cf_sem cf) = 0 \<and> \<not> notified (cf_sem cf) \<and> \<not> cf_running cf
     \<and> (\<forall>c. cf_held cf c = 0) \<and> W \<subseteq> set (waiters (cf_sem cf)) \<and> W \<subseteq> dom (cf_frames cf)
     \<and> (\<forall>c g r. c \<notin> W \<longrightarrow> cf_frames cf c = Some (g, r) \<longrightarrow> g = 0)"

lemma stuck_leave:
  assumes "stuck W cf" "c \<notin> W" "cf_frames cf c = Some (g, r)"
  shows "stuck W (settle c v (Refused, sem_release ((cf_sem cf)\<lparr>waiters := removeAll c (waiters (cf_sem cf))\<rparr>) g) cf)"
proof -
  have "g = 0" using assms by (auto simp: stuck_def)
  then show ?thesis using assms(1,2) by (auto simp: stuck_def sem_release_def)
qed

lemma stuck_acquire:
  assumes "stuck W cf" "cf_frames cf c = None" "1 \<le> v"
  shows "stuck W (settle c v (acquireMany (cf_sem cf) c v msecs) cf)"
proof -
  have "c \<notin> W" using assms by (auto simp: stuck_def)
  then show ?thesis using assms by (auto simp: stuck_def acquireMany_def sem_acquire_def waitLoop_def)
qed

lemma stuck_step:
  assumes "patient_step C m W cf cf'" "stuck W cf"
  shows "stuck W cf'"
proof -
  have step: "sem_step C m cf cf'" and pat: "\<And>w. w \<in> W \<Longrightarrow> cf_frames cf' w = None \<Longrightarrow> cf_held cf' w > 0"
    using assms by (auto simp: patient_step_def stuck_def)
  from step show ?thesis
  proof cases
    case (acquire c v msecs)
    then show ?thesis using stuck_acquire [OF assms(2)] by blast
  next
    case (timeout c g r)
    have "resume (cf_sem cf) c g r = (Refused, sem_release ((cf_sem cf)\<lparr>waiters := removeAll c (waiters (cf_sem cf))\<rparr>) g)"
      using timeout by (simp add: resume_def)
    moreover from this have "c \<notin> W" using pat [of c] timeout assms(2) by (auto simp: stuck_def)
    ultimately show ?thesis using stuck_leave [OF assms(2)] timeout by simp
  next
    case (cancel c g r)
    then have "c \<notin> W" using pat [of c] assms(2) by (auto simp: stuck_def)
    then show ?thesis using stuck_leave [OF assms(2)] cancel by (simp add: sem_cancel_def)
  qed (use assms(2) in \<open>auto simp: stuck_def\<close>)
qed

lemma stuck_forever:
  assumes "(patient_step C m W)\<^sup>*\<^sup>* cf cf'" "stuck W cf"
  shows "stuck W cf'"
  using assms by (induction rule: rtranclp_induct) (auto dest: stuck_step)

text \<open>Concrete runs are built one call at a time.\<close>

definition runAcquire :: "nat \<Rightarrow> int \<Rightarrow> config \<Rightarrow> config" where
  "runAcquire c v cf = settle c v (acquireMany (cf_sem cf) c v (- 1)) cf"

definition runRelease :: "nat \<Rightarrow> int \<Rightarrow> config \<Rightarrow> config" where
  "runRelease c v cf = cf\<lparr>cf_sem := sem_release (cf_sem cf) v, cf_held := (cf_held cf)(c := cf_held cf c - v)\<rparr>"

definition runNotify :: "config \<Rightarrow> config" where
  "runNotify cf = (let w = hd (waiters (cf_sem cf)); (g, r) = the (cf_frames cf w);
     cf = settle w (g + r) (resume ((cf_sem cf)\<lparr>waiters := tl (waiters (cf_sem cf))\<rparr>) w g r) cf
     in cf\<lparr>cf_sem := (cf_sem cf)\<lparr>notified := False\<rparr>, cf_running := False\<rparr>)"

lemma reach_acquire:
  "(sem_step C m)\<^sup>*\<^sup>* s cf \<Longrightarrow> c \<in> C \<Longrightarrow> cf_frames cf c = None \<Longrightarrow> 1 \<le> v \<Longrightarrow> v \<le> m \<Longrightarrow>
    (sem_step C m)\<^sup>*\<^sup>* s (runAcquire c v cf)"
  unfolding runAcquire_def by (rule rtranclp.rtrancl_into_rtrancl) (auto intro: sem_step.acquire)

lemma reach_release:
  "(sem_step C m)\<^sup>*\<^sup>* s cf \<Longrightarrow> c \<in> C \<Longrightarrow> cf_frames cf c = None \<Longrightarrow> 1 \<le> v \<Longrightarrow> v \<le> cf_held cf c \<Longrightarrow>
    (sem_step C m)\<^sup>*\<^sup>* s (runRelease c v cf)"
  unfolding runRelease_def by (rule rtranclp.rtrancl_into_rtrancl) (auto intro: sem_step.release)

lemma reach_notify:
  assumes "(sem_step C m)\<^sup>*\<^sup>* s cf" "\<not> cf_running cf" "notifyGuard False (cf_sem cf)"
    "cf_frames cf (hd (waiters (cf_sem cf))) = Some (g, r)" "\<not> notifyGuard False (cf_sem (runNotify cf)\<lparr>notified := True\<rparr>)"
  shows "(sem_step C m)\<^sup>*\<^sup>* s (runNotify cf)"
proof -
  define cf1 where "cf1 = cf\<lparr>cf_running := True\<rparr>"
  define w ws where "w = hd (waiters (cf_sem cf))" and "ws = tl (waiters (cf_sem cf))"
  define cf2 where "cf2 = settle w (g + r) (resume ((cf_sem cf1)\<lparr>waiters := ws\<rparr>) w g r) cf1"
  have nt: "notified (cf_sem cf)" "waiters (cf_sem cf) = w # ws" using assms(3) by (auto simp: notifyGuard_def w_def ws_def)
  have s1: "sem_step C m cf cf1" unfolding cf1_def by (rule sem_step.start [OF nt(1) assms(2)])
  have s2: "sem_step C m cf1 cf2"
    unfolding cf2_def by (rule sem_step.wake) (use assms(3,4) nt in \<open>simp_all add: cf1_def flip: w_def\<close>)
  have run: "runNotify cf = cf2\<lparr>cf_sem := (cf_sem cf2)\<lparr>notified := False\<rparr>, cf_running := False\<rparr>"
    using assms(4) by (simp add: runNotify_def cf2_def cf1_def settle_def Let_def flip: w_def ws_def)
  have "sem_step C m cf2 (runNotify cf)"
    unfolding run by (rule sem_step.stop) (use assms(5) in \<open>auto simp: run notifyGuard_def cf2_def cf1_def\<close>)
  with s1 s2 assms(1) show ?thesis by (meson rtranclp.rtrancl_into_rtrancl)
qed

lemmas run_eval = runAcquire_def runRelease_def runNotify_def startConfig_def newSemaphore_def acquireMany_def
  sem_acquire_def waitLoop_def resume_def sem_release_def settle_def notifyGuard_def

section \<open>Properties of the semaphore\<close>

text \<open>
  C17. The units of a semaphore are never duplicated or lost: in every interleaving of calls,
  timeouts, kills and notifications, what is free, what suspended calls have taken so far and
  what coroutines hold add up to the initial value, none of it negative; and a free unit with a
  coroutine waiting always has a notification scheduled.
\<close>

theorem semaphore_conserves_units:
  assumes "finite C" "1 \<le> n" "n \<le> 2 ^ 31 - 1" "(sem_step C m)\<^sup>*\<^sup>* (startConfig n) cf"
  shows "counter (cf_sem cf) + (\<Sum>c\<in>C. hoard cf c) + (\<Sum>c\<in>C. cf_held cf c) = n
    \<and> 0 \<le> counter (cf_sem cf) \<and> (\<forall>c\<in>C. 0 \<le> hoard cf c \<and> 0 \<le> cf_held cf c)
    \<and> (waiters (cf_sem cf) = [] \<or> counter (cf_sem cf) = 0 \<or> notified (cf_sem cf))"
proof -
  have inv: "queueOk C m cf" "booksOk C n cf" "wakeupOk cf" using semInv_reachable [OF assms] by (auto simp: semInv_def)
  then have "counter (cf_sem cf) + ((\<Sum>c\<in>C. hoard cf c) + (\<Sum>c\<in>C. cf_held cf c)) = n"
    by (simp add: booksOk_def owned_def sum.distrib [symmetric])
  then show ?thesis using inv owned_nonneg [OF inv(1,2)] by (auto simp: booksOk_def wakeupOk_def)
qed

theorem semaphore_conserves_units_witness:
  "let cf = settle 7 2 (acquireMany (newSemaphore 3) 7 2 0) (startConfig 3)
   in counter (cf_sem cf) = 1 \<and> cf_held cf 7 = 2
     \<and> counter (cf_sem cf) + (\<Sum>c\<in>{7}. hoard cf c) + (\<Sum>c\<in>{7}. cf_held cf c) = 3"
proof -
  define cf where "cf = settle 7 2 (acquireMany (newSemaphore 3) 7 2 0) (startConfig 3)"
  have "sem_step {7} 3 (startConfig 3) cf"
    using sem_step.acquire [of 7 "{7}" "startConfig 3" 2 3 0] by (simp add: startConfig_def cf_def)
  then have "(sem_step {7} 3)\<^sup>*\<^sup>* (startConfig 3) cf" by (rule r_into_rtranclp)
  from semaphore_conserves_units [OF _ _ _ this] show ?thesis
    by (simp add: cf_def [symmetric]) (simp add: cf_def acquireMany_def sem_acquire_def newSemaphore_def settle_def startConfig_def)
qed

text \<open>
  C19. No single-unit waiter is forgotten.  When every coroutine asks for one unit at a time and
  all units have been given back while some wait, the notification is scheduled, its run ends
  without a failed assertion, and it completes the calls of as many waiters as there are units,
  longest wait first.  The run is the one in which every woken coroutine yields back to the loop
  at once.
\<close>

theorem semaphore_serves_waiters:
  assumes "finite C" "1 \<le> n" "n \<le> 2 ^ 31 - 1" "(sem_step C 1)\<^sup>*\<^sup>* (startConfig n) cf"
    "\<forall>c\<in>C. cf_held cf c = 0" "waiters (cf_sem cf) \<noteq> []"
  shows "notified (cf_sem cf) \<and> (\<exists>fr s. notifyLoop (Suc (length (waiters (cf_sem cf)))) False (cf_frames cf) (cf_sem cf)
      = Some (Finished (take (nat n) (waiters (cf_sem cf)), fr, s)) \<and> waiters s = drop (nat n) (waiters (cf_sem cf)))"
proof -
  have inv: "queueOk C 1 cf" "booksOk C n cf" "wakeupOk cf"
    using semInv_reachable [OF assms(1-4)] by (auto simp: semInv_def)
  have unit: "cf_frames cf c = Some (g, r) \<Longrightarrow> g = 0 \<and> r = 1" for c g r
    using queueOk_frame [OF inv(1)] by fastforce
  then have "hoard cf c = 0" for c by (auto simp: hoard_def split: option.splits)
  then have "sum (owned cf) C = 0" using assms(5) by (intro sum.neutral) (simp add: owned_def)
  then have k: "counter (cf_sem cf) = n" using inv(2) by (simp add: booksOk_def)
  then have nt: "notified (cf_sem cf)" using inv(3) assms(2,6) by (simp add: wakeupOk_def)
  have "unitQueue (cf_frames cf) (cf_sem cf)"
    using inv(1,2) unit by (fastforce simp: unitQueue_def queueOk_def booksOk_def)
  from notifyLoop_unit [OF this nt, of "Suc (length (waiters (cf_sem cf)))"] show ?thesis using nt k by auto
qed

theorem semaphore_serves_waiters_witness:
  "let cf = runRelease 7 1 (runAcquire 8 1 (runAcquire 7 1 (startConfig 1)))
   in notified (cf_sem cf) \<and> (\<exists>fr s. notifyLoop 2 False (cf_frames cf) (cf_sem cf) = Some (Finished ([8], fr, s)))"
proof -
  define cf where "cf = runRelease 7 1 (runAcquire 8 1 (runAcquire 7 1 (startConfig 1)))"
  have "(sem_step {7, 8} 1)\<^sup>*\<^sup>* (startConfig 1) cf"
    unfolding cf_def by (intro reach_release reach_acquire rtranclp.rtrancl_refl) (simp_all add: run_eval)
  moreover have "\<forall>c\<in>{7, 8}. cf_held cf c = 0" and w: "waiters (cf_sem cf) = [8]" by (simp_all add: cf_def run_eval)
  ultimately have "notified (cf_sem cf) \<and> (\<exists>fr s. notifyLoop (Suc (length [8 :: nat])) False (cf_frames cf) (cf_sem cf)
      = Some (Finished (take (nat 1) [8], fr, s)) \<and> waiters s = drop (nat 1) [8])"
    using semaphore_serves_waiters [of "{7, 8}" 1 cf] by (simp add: w del: notifyLoop.simps)
  then show ?thesis unfolding Let_def by (auto simp: numeral_2_eq_2 simp del: notifyLoop.simps simp flip: cf_def)
qed

text \<open>
  C37. With requests for several units the waiters can block each other for good: on a semaphore
  of 3 units a reachable state has coroutines 1 and 2 waiting and nobody holding a unit, because
  the units given back one by one were taken as part payments by both.  However the program
  continues from there, as long as neither call is timed out or killed, both keep waiting and
  nobody ever gets a unit again, coroutine 0 included.
\<close>

theorem semaphore_hoarding_deadlock:
  "\<exists>cf. (sem_step {0, 1, 2} 3)\<^sup>*\<^sup>* (startConfig 3) cf \<and> waiters (cf_sem cf) = [1, 2]
     \<and> {cf'. (patient_step {0, 1, 2} 3 {1, 2})\<^sup>*\<^sup>* cf cf'}
       \<subseteq> {cf'. {1, 2} \<subseteq> set (waiters (cf_sem cf')) \<and> \<not> notified (cf_sem cf') \<and> (\<forall>c. cf_held cf' c = 0)}"
proof -
  define a where "a = runAcquire 2 3 (runAcquire 1 3 (runAcquire 0 2 (startConfig 3)))"
  define b where "b = runNotify (runRelease 0 1 a)"
  define cf where "cf = runNotify (runRelease 0 1 b)"
  have a: "(sem_step {0, 1, 2} 3)\<^sup>*\<^sup>* (startConfig 3) a"
    unfolding a_def by (intro reach_acquire rtranclp.rtrancl_refl) (simp_all add: run_eval)
  then have ra: "(sem_step {0, 1, 2} 3)\<^sup>*\<^sup>* (startConfig 3) (runRelease 0 1 a)"
    by (rule reach_release) (simp_all add: a_def run_eval)
  have b: "(sem_step {0, 1, 2} 3)\<^sup>*\<^sup>* (startConfig 3) b"
    unfolding b_def by (rule reach_notify [OF ra]) (simp_all add: a_def run_eval)
  then have rb: "(sem_step {0, 1, 2} 3)\<^sup>*\<^sup>* (startConfig 3) (runRelease 0 1 b)"
    by (rule reach_release) (simp_all add: b_def a_def run_eval)
  have reach: "(sem_step {0, 1, 2} 3)\<^sup>*\<^sup>* (startConfig 3) cf"
    unfolding cf_def by (rule reach_notify [OF rb]) (simp_all add: b_def a_def run_eval)
  have w: "waiters (cf_sem cf) = [1, 2]" by (simp add: cf_def b_def a_def run_eval)
  have "stuck {1, 2} cf" by (auto simp: stuck_def cf_def b_def a_def run_eval)
  then have "stuck {1, 2} cf'" if "(patient_step {0, 1, 2} 3 {1, 2})\<^sup>*\<^sup>* cf cf'" for cf'
    using stuck_forever [OF that] by blast
  then show ?thesis using reach w unfolding stuck_def by blast
qed

text \<open>
  Destroying a semaphore on which more coroutines wait than it has units ends the program:
  the functor of \<open>scheduleDelete\<close> wakes waiters until the queue is empty, whatever the
  counter, so after one waiter per unit has been served the next one fails the assertion that a
  woken coroutine finds a unit.
\<close>

theorem semaphore_delete_aborts:
  assumes "distinct (waiters s)" "\<forall>w \<in> set (waiters s). fr w = Some (0, 1)"
    "0 \<le> init_value s" "init_value s < int (length (waiters s))"
  shows "notifyLoop (Suc (nat (init_value s))) True fr (scheduleDelete s) = Some AssertFailed"
  by (rule notifyLoop_delete) (use assms in \<open>auto simp: unitQueue_def scheduleDelete_def\<close>)

theorem semaphore_delete_aborts_witness:
  "notifyLoop 2 True (\<lambda>_. Some (0, 1)) (scheduleDelete (newLock\<lparr>counter := 0, waiters := [1, 2]\<rparr>)) = Some AssertFailed"
  using semaphore_delete_aborts [of "newLock\<lparr>counter := 0, waiters := [1, 2]\<rparr>" "\<lambda>_. Some (0, 1)"]
  by (simp add: newLock_def newSemaphore_def numeral_2_eq_2)

end
