(* ===== verification/Lock_Clients.thy ===== *)
theory Lock_Clients
  imports Coroutine_Locks
begin

text \<open>
  The clients of the coroutine lock: the reentrant lock \<open>RLock\<close>, as a step relation over the
  steps of its \<open>Lock\<close>, and \<open>Gate\<close>, whose waiters pass one after another in a single run of
  the notification loop.  Coroutine ids are positive and 0 stands for no holder.
\<close>

section \<open>RLock\<close>

record rlock =
  rl_lock :: sem
  rl_holder :: nat
  rl_counter :: int

definition newRLock :: rlock where
  "newRLock = \<lparr> rl_lock = newLock, rl_holder = 0, rl_counter = 0 \<rparr>"

text \<open>The code after \<open>lock.tryAcquire\<close> returned, or suspended.\<close>

definition rlock_settle :: "rlock \<Rightarrow> nat \<Rightarrow> outcome \<times> sem \<Rightarrow> outcome \<times> rlock" where
  "rlock_settle r c res =
     (fst res, if fst res = Granted then r\<lparr> rl_lock := snd res, rl_counter := 1, rl_holder := c \<rparr>
               else r\<lparr> rl_lock := snd res \<rparr>)"

definition rlock_acquire :: "rlock \<Rightarrow> nat \<Rightarrow> u32 \<Rightarrow> outcome \<times> rlock" where
  "rlock_acquire r c msecs =
     (if rl_holder r = c then (Granted, r\<lparr> rl_counter := rl_counter r + 1 \<rparr>)
      else rlock_settle r c (tryAcquire (rl_lock r) c msecs))"

definition rlock_resume :: "rlock \<Rightarrow> nat \<Rightarrow> int \<Rightarrow> int \<Rightarrow> outcome \<times> rlock" where
  "rlock_resume r c gotNum remain = rlock_settle r c (resume (rl_lock r) c gotNum remain)"

definition rlock_release :: "rlock \<Rightarrow> nat \<Rightarrow> rlock" where
  "rlock_release r c =
     (if rl_holder r \<noteq> c then r
      else
        let r = r\<lparr> rl_counter := rl_counter r - 1 \<rparr>
        in if rl_counter r = 0 then r\<lparr> rl_holder := 0, rl_lock := sem_release (rl_lock r) 1 \<rparr> else r)"

text \<open>\<open>reset\<close> gives the lock up whatever the depth and returns the state for \<open>set\<close>.\<close>

definition rlock_reset :: "rlock \<Rightarrow> (nat \<times> int) \<times> rlock" where
  "rlock_reset r =
     (let st = (rl_holder r, rl_counter r);
          r = r\<lparr> rl_counter := 0, rl_holder := 0 \<rparr>
      in (st, if snd st > 0 then r\<lparr> rl_lock := sem_release (rl_lock r) 1 \<rparr> else r))"

definition rlock_set :: "rlock \<Rightarrow> nat \<Rightarrow> nat \<times> int \<Rightarrow> outcome \<times> rlock" where
  "rlock_set r c st =
     (let r = r\<lparr> rl_counter := snd st, rl_holder := fst st \<rparr>
      in if rl_counter r > 0 then
           let (x, s) = tryAcquire (rl_lock r) c (- 1) in (x, r\<lparr> rl_lock := s \<rparr>)
         else (Granted, r))"

definition rlock_isLocked :: "rlock \<Rightarrow> bool" where
  "rlock_isLocked r \<longleftrightarrow> isLocked (rl_lock r)"

definition rlock_isOwned :: "rlock \<Rightarrow> nat \<Rightarrow> bool" where
  "rlock_isOwned r c \<longleftrightarrow> rl_holder r = c"

text \<open>The calls of all coroutines, with the depth each believes to have.\<close>

record rconfig =
  rc_lock :: rlock
  rc_frames :: frames
  rc_depth :: "nat \<Rightarrow> int"
  rc_running :: bool

definition rsettle :: "nat \<Rightarrow> outcome \<times> rlock \<Rightarrow> rconfig \<Rightarrow> rconfig" where
  "rsettle c res cf =
     cf\<lparr> rc_lock := snd res, rc_frames := settleFrame c (fst res) (rc_frames cf),
         rc_depth := (if fst res = Granted then (rc_depth cf)(c := rc_depth cf c + 1) else rc_depth cf) \<rparr>"

definition rstart :: rconfig where
  "rstart = \<lparr> rc_lock = newRLock, rc_frames = (\<lambda>_. None), rc_depth = (\<lambda>_. 0), rc_running = False \<rparr>"

text \<open>
  \<open>release\<close> may be called by any coroutine; only the call of the holder lowers a depth.  A
  coroutine killed while it waits leaves \<open>acquire\<close> by the exception, so nothing but the
  semaphore changes.
\<close>

inductive rlock_step :: "nat set \<Rightarrow> rconfig \<Rightarrow> rconfig \<Rightarrow> bool" for C where
  acquire: "c \<in> C \<Longrightarrow> rc_frames cf c = None \<Longrightarrow>
    rlock_step C cf (rsettle c (rlock_acquire (rc_lock cf) c msecs) cf)"
| release: "c \<in> C \<Longrightarrow> rc_frames cf c = None \<Longrightarrow>
    rlock_step C cf (cf\<lparr> rc_lock := rlock_release (rc_lock cf) c,
      rc_depth := (if rl_holder (rc_lock cf) = c then (rc_depth cf)(c := rc_depth cf c - 1) else rc_depth cf) \<rparr>)"
| timeout: "rc_frames cf c = Some (g, r) \<Longrightarrow> c \<in> set (waiters (rl_lock (rc_lock cf))) \<Longrightarrow>
    rlock_step C cf (rsettle c (rlock_resume (rc_lock cf) c g r) cf)"
| cancel: "rc_frames cf c = Some (g, r) \<Longrightarrow> c \<in> set (waiters (rl_lock (rc_lock cf))) \<Longrightarrow>
    rlock_step C cf (rsettle c (rlock_settle (rc_lock cf) c (Refused, sem_cancel (rl_lock (rc_lock cf)) c g)) cf)"
| start: "notified (rl_lock (rc_lock cf)) \<Longrightarrow> \<not> rc_running cf \<Longrightarrow> rlock_step C cf (cf\<lparr> rc_running := True \<rparr>)"
| wake: "rc_running cf \<Longrightarrow> notifyGuard False (rl_lock (rc_lock cf)) \<Longrightarrow> waiters (rl_lock (rc_lock cf)) = w # ws \<Longrightarrow>
    rc_frames cf w = Some (g, r) \<Longrightarrow>
    rlock_step C cf (rsettle w (rlock_resume ((rc_lock cf)\<lparr> rl_lock := (rl_lock (rc_lock cf))\<lparr> waiters := ws \<rparr> \<rparr>) w g r) cf)"
| stop: "rc_running cf \<Longrightarrow> \<not> notifyGuard False (rl_lock (rc_lock cf)) \<Longrightarrow>
    rlock_step C cf (cf\<lparr> rc_lock := (rc_lock cf)\<lparr> rl_lock := (rl_lock (rc_lock cf))\<lparr> notified := False \<rparr> \<rparr>, rc_running := False \<rparr>)"

section \<open>Gate\<close>

definition gate_tryWait :: "sem \<Rightarrow> nat \<Rightarrow> u32 \<Rightarrow> outcome \<times> sem" where
  "gate_tryWait s c msecs =
     (if \<not> isLocked s then (Granted, s)
      else case tryAcquire s c msecs of
          (Granted, s) \<Rightarrow> (Granted, sem_release s 1)
        | (x, s) \<Rightarrow> (x, s))"

definition gate_resume :: "sem \<Rightarrow> nat \<Rightarrow> int \<Rightarrow> int \<Rightarrow> outcome \<times> sem" where
  "gate_resume s c gotNum remain =
     (case resume s c gotNum remain of
        (Granted, s) \<Rightarrow> (Granted, sem_release s 1)
      | (x, s) \<Rightarrow> (x, s))"

definition gate_open :: "sem \<Rightarrow> sem" where
  "gate_open s = (if isLocked s then sem_release s 1 else s)"

definition gate_close :: "sem \<Rightarrow> nat \<Rightarrow> outcome \<times> sem" where
  "gate_close s c = (if \<not> isLocked s then tryAcquire s c (- 1) else (Granted, s))"

text \<open>The notification loop when the woken coroutines are waiting at the gate.\<close>

fun gateLoop :: "nat \<Rightarrow> frames \<Rightarrow> sem \<Rightarrow> (nat list \<times> sem) loopEnd option" where
  "gateLoop 0 fr s = None"
| "gateLoop (Suc fuel) fr s =
     (if notifyGuard False s then
        let w = hd (waiters s); s = s\<lparr> waiters := tl (waiters s) \<rparr> in
        case fr w of
          None \<Rightarrow> gateLoop fuel fr s
        | Some (g, r) \<Rightarrow>
            let (x, s) = gate_resume s w g r in
            if x = Aborted then Some AssertFailed
            else map_option (served w x) (gateLoop fuel (settleFrame w x fr) s)
      else Some (Finished ([], s\<lparr> notified := False \<rparr>)))"

section \<open>RLock: every step is a step of its lock, or none\<close>

definition proj :: "rconfig \<Rightarrow> config" where
  "proj cf = \<lparr> cf_sem = rl_lock (rc_lock cf), cf_frames = rc_frames cf,
     cf_held = (\<lambda>c. of_bool (c = rl_holder (rc_lock cf) \<and> c \<noteq> 0)), cf_running = rc_running cf \<rparr>"

definition rlockInv :: "nat set \<Rightarrow> rconfig \<Rightarrow> bool" where
  "rlockInv C cf \<longleftrightarrow> semInv C 1 1 (proj cf) \<and> rl_holder (rc_lock cf) \<in> insert 0 C
     \<and> 0 \<le> rl_counter (rc_lock cf) \<and> (rl_holder (rc_lock cf) = 0 \<longleftrightarrow> rl_counter (rc_lock cf) = 0)
     \<and> (\<forall>c. rc_depth cf c = (if c = rl_holder (rc_lock cf) then rl_counter (rc_lock cf) else 0))"

lemma proj_simps [simp]:
  "cf_sem (proj cf) = rl_lock (rc_lock cf)" "cf_frames (proj cf) = rc_frames cf" "cf_running (proj cf) = rc_running cf"
  "cf_held (proj cf) c = of_bool (c = rl_holder (rc_lock cf) \<and> c \<noteq> 0)"
  by (simp_all add: proj_def)

lemma free_lock_no_holder:
  assumes "finite C" "rlockInv C cf" "counter (rl_lock (rc_lock cf)) > 0"
  shows "rl_holder (rc_lock cf) = 0" "rl_counter (rc_lock cf) = 0"
proof -
  have inv: "queueOk C 1 (proj cf)" "booksOk C 1 (proj cf)" using assms(2) by (auto simp: rlockInv_def semInv_def)
  show h: "rl_holder (rc_lock cf) = 0"
  proof (rule ccontr)
    assume h: "rl_holder (rc_lock cf) \<noteq> 0"
    then have C: "rl_holder (rc_lock cf) \<in> C" using assms(2) by (auto simp: rlockInv_def)
    have "owned (proj cf) (rl_holder (rc_lock cf)) \<ge> 1"
      using owned_nonneg [OF inv C] h by (simp add: owned_def)
    then show False using owned_le [OF assms(1) inv C] assms(3) by simp
  qed
  show "rl_counter (rc_lock cf) = 0" using h assms(2) by (simp add: rlockInv_def)
qed

text \<open>Completing, refusing or suspending a call on the lock.\<close>

lemma rlockInv_settle:
  assumes fin: "finite C" "0 \<notin> C" and inv: "rlockInv C cf" and c: "c \<in> C"
    and step: "sem_step C 1 (proj cf) (settle c 1 res (proj cf))"
    and granted: "fst res = Granted \<Longrightarrow> counter (rl_lock (rc_lock cf)) > 0"
  shows "rlockInv C (rsettle c (rlock_settle (rc_lock cf) c res) cf)"
proof -
  have free: "fst res = Granted \<Longrightarrow> rl_holder (rc_lock cf) = 0 \<and> rl_counter (rc_lock cf) = 0"
    using free_lock_no_holder [OF fin(1) inv] granted by blast
  have "proj (rsettle c (rlock_settle (rc_lock cf) c res) cf) = settle c 1 res (proj cf)"
    using free c fin(2) by (auto simp: proj_def rsettle_def rlock_settle_def settle_def fun_eq_iff)
  moreover have "semInv C 1 1 (settle c 1 res (proj cf))"
    using semInv_step [OF fin(1) _ step] inv by (simp add: rlockInv_def)
  ultimately show ?thesis
    using inv free c fin(2) by (auto simp: rlockInv_def rsettle_def rlock_settle_def)
qed

lemma rlock_settle_lock: "rlock_settle (r\<lparr>rl_lock := x\<rparr>) c res = rlock_settle r c res"
  by (simp add: rlock_settle_def)

lemma rlockInv_step:
  assumes fin: "finite C" "0 \<notin> C" and step: "rlock_step C cf cf'" and inv: "rlockInv C cf"
  shows "rlockInv C cf'"
proof -
  have q: "queueOk C 1 (proj cf)" and b: "booksOk C 1 (proj cf)" using inv by (auto simp: rlockInv_def semInv_def)
  have init: "init_value (rl_lock (rc_lock cf)) = 1" using b by (simp add: booksOk_def)
  have unit: "c \<in> C \<and> g = 0 \<and> r = 1" if "rc_frames cf c = Some (g, r)" for c g r
    using queueOk_frame [OF q, of c g r] that by auto
  from step show ?thesis
  proof cases
    case (acquire c msecs)
    show ?thesis
    proof (cases "rl_holder (rc_lock cf) = c")
      case True
      have "proj cf' = proj cf" using acquire True by (simp add: proj_def rsettle_def rlock_acquire_def fun_upd_idem)
      then show ?thesis
        using inv acquire True fin(2) by (auto simp: rlockInv_def rsettle_def rlock_acquire_def)
    next
      case False
      have "acquireMany (rl_lock (rc_lock cf)) c 1 msecs = tryAcquire (rl_lock (rc_lock cf)) c msecs"
        by (simp add: acquireMany_def tryAcquire_def init)
      then have st: "sem_step C 1 (proj cf) (settle c 1 (tryAcquire (rl_lock (rc_lock cf)) c msecs) (proj cf))"
        using sem_step.acquire [of c C "proj cf" 1 1 msecs] acquire by simp
      have "counter (rl_lock (rc_lock cf)) > 0" if "fst (tryAcquire (rl_lock (rc_lock cf)) c msecs) = Granted"
        using that by (auto simp: tryAcquire_def sem_acquire_def waitLoop_def split: if_splits)
      from rlockInv_settle [OF fin inv acquire(2) st this] show ?thesis
        using acquire False by (simp add: rlock_acquire_def)
    qed
  next
    case (release c)
    show ?thesis
    proof (cases "rl_holder (rc_lock cf) = c")
      case True
      then have "c \<noteq> 0" "1 \<le> rl_counter (rc_lock cf)" using inv release fin(2) by (auto simp: rlockInv_def)
      show ?thesis
      proof (cases "rl_counter (rc_lock cf) = 1")
        case one: True
        have "sem_step C 1 (proj cf) (proj cf')"
        proof -
          have "proj cf' = (proj cf)\<lparr>cf_sem := sem_release (cf_sem (proj cf)) 1, cf_held := (cf_held (proj cf))(c := cf_held (proj cf) c - 1)\<rparr>"
            using release True one \<open>c \<noteq> 0\<close> by (auto simp: proj_def rlock_release_def fun_eq_iff)
          then show ?thesis
            using sem_step.release [of c C "proj cf" 1 1] release True \<open>c \<noteq> 0\<close> by simp
        qed
        then have "semInv C 1 1 (proj cf')" using semInv_step [OF fin(1)] inv by (auto simp: rlockInv_def)
        then show ?thesis using inv release True one by (auto simp: rlockInv_def rlock_release_def)
      next
        case more: False
        have "proj cf' = proj cf" using release True more by (simp add: proj_def rlock_release_def)
        then show ?thesis
          using inv release True more \<open>1 \<le> rl_counter (rc_lock cf)\<close> \<open>c \<noteq> 0\<close> by (auto simp: rlockInv_def rlock_release_def)
      qed
    next
      case False
      then have "cf' = cf" using release by (simp add: rlock_release_def)
      then show ?thesis using inv by simp
    qed
  next
    case (timeout c g r)
    have st: "sem_step C 1 (proj cf) (settle c 1 (resume (rl_lock (rc_lock cf)) c g r) (proj cf))"
      using sem_step.timeout [of "proj cf" c g r C 1] timeout unit [OF timeout(2)] by simp
    have "fst (resume (rl_lock (rc_lock cf)) c g r) \<noteq> Granted" using timeout by (simp add: resume_def)
    with rlockInv_settle [OF fin inv _ st] unit [OF timeout(2)] show ?thesis
      using timeout by (simp add: rlock_resume_def)
  next
    case (cancel c g r)
    have st: "sem_step C 1 (proj cf) (settle c 1 (Refused, sem_cancel (rl_lock (rc_lock cf)) c g) (proj cf))"
      using sem_step.cancel [of "proj cf" c g r C 1] cancel unit [OF cancel(2)] by simp
    with rlockInv_settle [OF fin inv _ st] unit [OF cancel(2)] show ?thesis using cancel by simp
  next
    case start
    then have "sem_step C 1 (proj cf) (proj cf')"
      using sem_step.start [of "proj cf" C 1] by (simp add: proj_def)
    then have "semInv C 1 1 (proj cf')" using semInv_step [OF fin(1)] inv by (auto simp: rlockInv_def)
    then show ?thesis using inv start by (auto simp: rlockInv_def)
  next
    case (wake w ws g r)
    have st: "sem_step C 1 (proj cf) (settle w 1 (resume ((rl_lock (rc_lock cf))\<lparr>waiters := ws\<rparr>) w g r) (proj cf))"
      using sem_step.wake [of "proj cf" w ws g r C 1] wake unit [OF wake(5)] by simp
    have "counter (rl_lock (rc_lock cf)) > 0" using wake(3) by (simp add: notifyGuard_def)
    with rlockInv_settle [OF fin inv _ st] unit [OF wake(5)] show ?thesis
      using wake by (simp add: rlock_resume_def rlock_settle_lock)
  next
    case stop
    then have "sem_step C 1 (proj cf) (proj cf')"
      using sem_step.stop [of "proj cf" C 1] by (simp add: proj_def)
    then have "semInv C 1 1 (proj cf')" using semInv_step [OF fin(1)] inv by (auto simp: rlockInv_def)
    then show ?thesis using inv stop by (auto simp: rlockInv_def)
  qed
qed

lemma rlockInv_start: "rlockInv C rstart"
proof -
  have "proj rstart = startConfig 1"
    by (auto simp: proj_def rstart_def startConfig_def newRLock_def newLock_def newSemaphore_def fun_eq_iff)
  then show ?thesis using semInv_start [of 1 C 1] by (simp add: rlockInv_def) (auto simp: rstart_def newRLock_def)
qed

lemma rlockInv_reachable:
  assumes "finite C" "0 \<notin> C" "(rlock_step C)\<^sup>*\<^sup>* rstart cf"
  shows "rlockInv C cf"
  using assms(3) by (induction rule: rtranclp_induct) (use rlockInv_start rlockInv_step [OF assms(1,2)] in blast)+

section \<open>Gate: one run of the loop lets everybody through\<close>

lemma gate_resume_unit:
  assumes "w \<notin> set (waiters s)" "counter s = 1" "init_value s = 1" "notified s"
  shows "gate_resume s w 0 1 = (Granted, s)"
  using assms by (simp add: gate_resume_def resume_unit sem_release_def)

lemma gateLoop_all:
  assumes "unitQueue fr s" "counter s = 1" "init_value s = 1" "notified s" "length (waiters s) < fuel"
  shows "gateLoop fuel fr s = Some (Finished (waiters s, s\<lparr>waiters := [], notified := False\<rparr>))"
  using assms
proof (induction fuel arbitrary: fr s)
  case (Suc fuel)
  show ?case
  proof (cases "waiters s")
    case Nil
    then show ?thesis using Suc.prems by (simp add: notifyGuard_def)
  next
    case (Cons w ws)
    have w: "fr w = Some (0, 1)" "w \<notin> set ws" using Suc.prems(1) Cons by (auto simp: unitQueue_def)
    have "unitQueue (fr(w := None)) (s\<lparr>waiters := ws\<rparr>)" using Suc.prems(1) Cons by (auto simp: unitQueue_def)
    then have "gateLoop fuel (fr(w := None)) (s\<lparr>waiters := ws\<rparr>) = Some (Finished (waiters (s\<lparr>waiters := ws\<rparr>), s\<lparr>waiters := ws, waiters := [], notified := False\<rparr>))"
      by (rule Suc.IH) (use Suc.prems Cons in simp_all)
    moreover have "notifyGuard False s" using Suc.prems Cons by (simp add: notifyGuard_def)
    moreover have "gate_resume (s\<lparr>waiters := ws\<rparr>) w 0 1 = (Granted, s\<lparr>waiters := ws\<rparr>)"
      by (rule gate_resume_unit) (use w Suc.prems in simp_all)
    ultimately show ?thesis using Cons w by (simp add: Let_def)
  qed
qed simp

section \<open>Properties\<close>

text \<open>
  C20. The reentrant lock is exclusive and counts its depth: in every interleaving of calls,
  timeouts, kills and notifications a coroutine is
  inside exactly when it is the recorded holder, the counter is the depth of that coroutine, no
  two coroutines are inside, and the lock reads as locked exactly when somebody is.
\<close>

theorem rlock_mutual_exclusion:
  assumes "finite C" "0 \<notin> C" "(rlock_step C)\<^sup>*\<^sup>* rstart cf"
  shows "(\<forall>c\<in>C. (rc_depth cf c > 0 \<longleftrightarrow> rlock_isOwned (rc_lock cf) c)
      \<and> (rc_depth cf c > 0 \<longrightarrow> rl_counter (rc_lock cf) = rc_depth cf c \<and> (\<forall>d\<in>C. d \<noteq> c \<longrightarrow> rc_depth cf d = 0)))
    \<and> (rlock_isLocked (rc_lock cf) \<longleftrightarrow> (\<exists>c\<in>C. rc_depth cf c > 0))"
proof
  have inv: "rlockInv C cf" by (rule rlockInv_reachable [OF assms])
  show "\<forall>c\<in>C. (rc_depth cf c > 0 \<longleftrightarrow> rlock_isOwned (rc_lock cf) c)
      \<and> (rc_depth cf c > 0 \<longrightarrow> rl_counter (rc_lock cf) = rc_depth cf c \<and> (\<forall>d\<in>C. d \<noteq> c \<longrightarrow> rc_depth cf d = 0))"
    using inv assms(2) by (auto simp: rlockInv_def rlock_isOwned_def)
  have q: "queueOk C 1 (proj cf)" and b: "booksOk C 1 (proj cf)" using inv by (auto simp: rlockInv_def semInv_def)
  have "hoard (proj cf) c = 0" for c
    using queueOk_frame [OF q, of c] by (fastforce simp: hoard_def split: option.splits)
  then have own: "owned (proj cf) c = of_bool (c = rl_holder (rc_lock cf) \<and> c \<noteq> 0)" for c by (simp add: owned_def)
  show "rlock_isLocked (rc_lock cf) \<longleftrightarrow> (\<exists>c\<in>C. rc_depth cf c > 0)"
  proof (cases "rl_holder (rc_lock cf) = 0")
    case True
    then have "sum (owned (proj cf)) C = 0" by (intro sum.neutral) (auto simp: own)
    then show ?thesis using b inv True by (auto simp: booksOk_def rlock_isLocked_def isLocked_def rlockInv_def)
  next
    case False
    then have C: "rl_holder (rc_lock cf) \<in> C" using inv by (auto simp: rlockInv_def)
    have "counter (rl_lock (rc_lock cf)) \<le> 0" using owned_le [OF assms(1) q b C] own False by simp
    then show ?thesis using C inv False by (auto simp: rlockInv_def rlock_isLocked_def isLocked_def)
  qed
qed

theorem rlock_mutual_exclusion_witness:
  "let cf = rsettle 8 (rlock_acquire (snd (rlock_acquire newRLock 7 0)) 8 (- 1)) (rsettle 7 (rlock_acquire newRLock 7 0) rstart)
   in rc_depth cf 7 = 1 \<and> rc_depth cf 8 = 0 \<and> rlock_isLocked (rc_lock cf)"
proof -
  define cf1 where "cf1 = rsettle 7 (rlock_acquire newRLock 7 0) rstart"
  define cf where "cf = rsettle 8 (rlock_acquire (rc_lock cf1) 8 (- 1)) cf1"
  have "rlock_step {7, 8} rstart cf1"
    using rlock_step.acquire [of 7 "{7, 8}" rstart 0] by (simp add: cf1_def rstart_def)
  moreover have "rlock_step {7, 8} cf1 cf"
    unfolding cf_def by (rule rlock_step.acquire)
      (simp_all add: cf1_def rsettle_def rlock_acquire_def rlock_settle_def tryAcquire_def sem_acquire_def newRLock_def newLock_def newSemaphore_def rstart_def)
  ultimately have reach: "(rlock_step {7, 8})\<^sup>*\<^sup>* rstart cf" by (meson rtranclp.intros)
  have "rc_depth cf 7 = 1" by (simp add: cf_def cf1_def rsettle_def rlock_acquire_def rlock_settle_def tryAcquire_def
      sem_acquire_def waitLoop_def newRLock_def newLock_def newSemaphore_def rstart_def)
  then have "rc_depth cf 7 = 1 \<and> rc_depth cf 8 = 0 \<and> rlock_isLocked (rc_lock cf)"
    using rlock_mutual_exclusion [OF _ _ reach] by auto
  moreover have "cf = rsettle 8 (rlock_acquire (snd (rlock_acquire newRLock 7 0)) 8 (- 1)) cf1"
    by (simp add: cf_def cf1_def rsettle_def)
  ultimately show ?thesis by (simp add: cf1_def)
qed

text \<open>
  C35. Opening a closed gate lets every waiting coroutine through: the notification is scheduled,
  its one run ends after all of them have passed in the order of their arrival, nobody is left
  in the queue and the gate stays open.  The run is the one in which every woken coroutine
  yields back to the loop at once.
\<close>

theorem gate_open_passes_all:
  assumes "init_value s = 1" "counter s = 0" "distinct (waiters s)" "\<forall>w \<in> set (waiters s). fr w = Some (0, 1)" "waiters s \<noteq> []"
  shows "notified (gate_open s) \<and> (\<exists>s'. gateLoop (Suc (length (waiters s))) fr (gate_open s) = Some (Finished (waiters s, s'))
    \<and> waiters s' = [] \<and> \<not> isLocked s')"
proof -
  have open_s: "gate_open s = s\<lparr>counter := 1, notified := True\<rparr>"
    using assms by (simp add: gate_open_def isLocked_def sem_release_def Let_def)
  have "gateLoop (Suc (length (waiters s))) fr (gate_open s)
      = Some (Finished (waiters (gate_open s), (gate_open s)\<lparr>waiters := [], notified := False\<rparr>))"
    by (rule gateLoop_all) (use assms in \<open>simp_all add: open_s unitQueue_def\<close>)
  then show ?thesis by (simp add: open_s isLocked_def del: gateLoop.simps)
qed

theorem gate_open_passes_all_witness:
  "let s = newLock\<lparr>counter := 0, waiters := [4, 9]\<rparr>
   in notified (gate_open s) \<and> (\<exists>s'. gateLoop 3 (\<lambda>_. Some (0, 1)) (gate_open s) = Some (Finished ([4, 9], s')) \<and> waiters s' = [] \<and> \<not> isLocked s')"
  using gate_open_passes_all [of "newLock\<lparr>counter := 0, waiters := [4, 9]\<rparr>" "\<lambda>_. Some (0, 1)"]
  by (simp add: newLock_def newSemaphore_def numeral_3_eq_3 del: gateLoop.simps)

end
