(* ===== verification/Text_Codecs.thy ===== *)
theory Text_Codecs
  imports Qtng_Prelude
begin

unbundle bit_operations_syntax

text \<open>
  The text conversions of \<open>utils/string_utils.cpp\<close>: UTF-8 with its validation, base64,
  hexadecimal, splitting and joining, and HTML escaping.  Code points are 32-bit words; the
  \<open>int\<close> that \<open>base64ToBytes\<close> shifts left without masking is a 32-bit word too, so that its
  upper bits are lost as on the hardware.
\<close>

section \<open>UTF-8\<close>

text \<open>The payload bits of a leading byte and the number of bytes that follow.\<close>

definition utf8Lead :: "byte \<Rightarrow> (u32 \<times> nat) option" where
  "utf8Lead c =
     (if c \<le> 0x7F then Some (ucast c, 0)
      else if c AND 0xE0 = 0xC0 then Some (ucast (c AND 0x1F), 1)
      else if c AND 0xF0 = 0xE0 then Some (ucast (c AND 0x0F), 2)
      else if c AND 0xF8 = 0xF0 then Some (ucast (c AND 0x07), 3)
      else None)"

fun utf8Tail :: "u32 \<Rightarrow> bytes \<Rightarrow> u32 option" where
  "utf8Tail cp [] = Some cp"
| "utf8Tail cp (cc # rest) =
     (if cc AND 0xC0 \<noteq> 0x80 then None else utf8Tail (push_bit 6 cp OR ucast (cc AND 0x3F)) rest)"

definition utf8Bad :: "u32 \<Rightarrow> nat \<Rightarrow> bool" where
  "utf8Bad cp extra \<longleftrightarrow>
     cp > 0x10FFFF \<or> cp \<ge> 0xD800 \<and> cp \<le> 0xDFFF
     \<or> extra = 1 \<and> cp < 0x80 \<or> extra = 2 \<and> cp < 0x800 \<or> extra = 3 \<and> cp < 0x10000"

function utf8ToCodepoints :: "bytes \<Rightarrow> u32 list option" where
  "utf8ToCodepoints [] = Some []"
| "utf8ToCodepoints (c # text) =
     (case utf8Lead c of
        None \<Rightarrow> None
      | Some (cp, extra) \<Rightarrow>
          if extra > length text then None
          else case utf8Tail cp (take extra text) of
              None \<Rightarrow> None
            | Some cp \<Rightarrow>
                if utf8Bad cp extra then None
                else map_option (\<lambda>cps. cp # cps) (utf8ToCodepoints (drop extra text)))"
  by pat_completeness auto
termination by (relation "measure length") auto

definition codepointToUtf8 :: "u32 \<Rightarrow> bytes" where
  "codepointToUtf8 cp =
     (if cp \<le> 0x7F then [ucast cp]
      else if cp \<le> 0x7FF then [ucast (0xC0 OR drop_bit 6 cp), ucast (0x80 OR (cp AND 0x3F))]
      else if cp \<le> 0xFFFF then
        [ucast (0xE0 OR drop_bit 12 cp), ucast (0x80 OR (drop_bit 6 cp AND 0x3F)), ucast (0x80 OR (cp AND 0x3F))]
      else
        [ucast (0xF0 OR drop_bit 18 cp), ucast (0x80 OR (drop_bit 12 cp AND 0x3F)),
         ucast (0x80 OR (drop_bit 6 cp AND 0x3F)), ucast (0x80 OR (cp AND 0x3F))])"

definition codepointsToUtf8 :: "u32 list \<Rightarrow> bytes" where
  "codepointsToUtf8 cps = concat (map codepointToUtf8 cps)"

definition isValidUtf8 :: "bytes \<Rightarrow> bool" where
  "isValidUtf8 text \<longleftrightarrow> utf8ToCodepoints text \<noteq> None"

section \<open>Hexadecimal and base64\<close>

definition bytesToHex :: "bytes \<Rightarrow> bytes" where
  "bytesToHex dat =
     (let hex = asciiBytes ''0123456789abcdef''
      in concat (map (\<lambda>ch. [hex ! unat (drop_bit 4 ch), hex ! unat (ch AND 0x0f)]) dat))"

definition base64Chars :: bytes where
  "base64Chars = asciiBytes ''ABCDEFGHIJKLMNOPQRSTUVWXYZabcdefghijklmnopqrstuvwxyz0123456789+/''"

definition b64char :: "u32 \<Rightarrow> byte" where
  "b64char n = base64Chars ! unat (n AND 63)"

fun bytesToBase64 :: "bytes \<Rightarrow> bytes" where
  "bytesToBase64 (a # b # c # dat) =
     (let n = push_bit 16 (ucast a) OR push_bit 8 (ucast b) OR ucast c
      in [b64char (drop_bit 18 n), b64char (drop_bit 12 n), b64char (drop_bit 6 n), b64char n] @ bytesToBase64 dat)"
| "bytesToBase64 [a, b] =
     (let n = push_bit 16 (ucast a) OR push_bit 8 (ucast b)
      in [b64char (drop_bit 18 n), b64char (drop_bit 12 n), b64char (drop_bit 6 n), 0x3d])"
| "bytesToBase64 [a] =
     (let n = push_bit 16 (ucast a)
      in [b64char (drop_bit 18 n), b64char (drop_bit 12 n), 0x3d, 0x3d])"
| "bytesToBase64 [] = []"

text \<open>The rows of \<open>table\<close> by range; every entry not listed is \<open>-1\<close>.\<close>

definition base64Value :: "byte \<Rightarrow> int" where
  "base64Value ch =
     (if ch = 0x2b then 62 else if ch = 0x2f then 63
      else if 0x30 \<le> ch \<and> ch \<le> 0x39 then uint ch + 4
      else if 0x41 \<le> ch \<and> ch \<le> 0x5a then uint ch - 65
      else if 0x61 \<le> ch \<and> ch \<le> 0x7a then uint ch - 71
      else - 1)"

fun base64Loop :: "u32 \<Rightarrow> nat \<Rightarrow> bytes \<Rightarrow> bytes" where
  "base64Loop buffer bits [] = []"
| "base64Loop buffer bits (ch # dat) =
     (if ch = 0x3d \<or> ch = 0x0a \<or> ch = 0x0d \<or> ch = 0x20 \<or> ch = 0x09 then base64Loop buffer bits dat
      else if base64Value ch < 0 then base64Loop buffer bits dat
      else
        let buffer = push_bit 6 buffer OR word_of_int (base64Value ch);
            bits = bits + 6
        in if bits \<ge> 8
           then ucast (drop_bit (bits - 8) buffer AND 0xff) # base64Loop buffer (bits - 8) dat
           else base64Loop buffer bits dat)"

definition base64ToBytes :: "bytes \<Rightarrow> bytes" where
  "base64ToBytes dat = base64Loop 0 0 dat"

section \<open>Splitting, joining and escaping\<close>

fun splitLoop :: "bytes \<Rightarrow> byte \<Rightarrow> bytes \<Rightarrow> bytes list" where
  "splitLoop part sep [] = [part]"
| "splitLoop part sep (ch # text) =
     (if ch = sep then part # splitLoop [] sep text else splitLoop (part @ [ch]) sep text)"

definition split_text :: "bytes \<Rightarrow> byte \<Rightarrow> bytes list" where
  "split_text text sep = splitLoop [] sep text"

text \<open>\<open>string::find\<close>: the first position at which \<open>sep\<close> stands.\<close>

fun find_sub :: "bytes \<Rightarrow> bytes \<Rightarrow> nat option" where
  "find_sub sep [] = (if sep = [] then Some 0 else None)"
| "find_sub sep (ch # text) =
     (if take (length sep) (ch # text) = sep then Some 0 else map_option Suc (find_sub sep text))"

function split_str :: "bytes \<Rightarrow> bytes \<Rightarrow> bytes list" where
  "split_str text sep =
     (if sep = [] then [text]
      else case find_sub sep text of
          None \<Rightarrow> [text]
        | Some pos \<Rightarrow> take pos text # split_str (drop (pos + length sep) text) sep)"
  by pat_completeness auto
termination
proof (relation "measure (length \<circ> fst)")
  fix str sep :: bytes and pos
  assume "sep \<noteq> []" "find_sub sep str = Some pos"
  then show "((drop (pos + length sep) str, sep), (str, sep)) \<in> measure (length \<circ> fst)"
    by (cases str) auto
qed simp

declare split_str.simps [simp del]

fun join_text :: "bytes list \<Rightarrow> bytes \<Rightarrow> bytes" where
  "join_text [] sep = []"
| "join_text [p] sep = p"
| "join_text (p # q # ps) sep = p @ sep @ join_text (q # ps) sep"

definition htmlEscape :: "bytes \<Rightarrow> bytes" where
  "htmlEscape text = concat (map (\<lambda>ch.
     if ch = 0x26 then asciiBytes ''&amp;''
     else if ch = 0x3c then asciiBytes ''&lt;''
     else if ch = 0x3e then asciiBytes ''&gt;''
     else if ch = 0x22 then asciiBytes ''&quot;''
     else [ch]) text)"

definition startsWith :: "bytes \<Rightarrow> bytes \<Rightarrow> bool" where
  "startsWith text pre \<longleftrightarrow> length text \<ge> length pre \<and> take (length pre) text = pre"

definition endsWith :: "bytes \<Rightarrow> bytes \<Rightarrow> bool" where
  "endsWith text suf \<longleftrightarrow> length text \<ge> length suf \<and> drop (length text - length suf) text = suf"

text \<open>Character classes of the default locale.\<close>

definition isspace :: "byte \<Rightarrow> bool" where
  "isspace ch \<longleftrightarrow> ch = 0x20 \<or> 0x09 \<le> ch \<and> ch \<le> 0x0d"

definition trimmed :: "bytes \<Rightarrow> bytes" where
  "trimmed text = rev (dropWhile isspace (rev (dropWhile isspace text)))"

definition toLower :: "bytes \<Rightarrow> bytes" where
  "toLower text = map (\<lambda>ch. if 0x41 \<le> ch \<and> ch \<le> 0x5a then ch + 0x20 else ch) text"

definition toUpper :: "bytes \<Rightarrow> bytes" where
  "toUpper text = map (\<lambda>ch. if 0x61 \<le> ch \<and> ch \<le> 0x7a then ch - 0x20 else ch) text"

definition equalsIgnoreCase :: "bytes \<Rightarrow> bytes \<Rightarrow> bool" where
  "equalsIgnoreCase a b \<longleftrightarrow> toLower a = toLower b"

text \<open>
  \<open>formatMessage\<close>: the third argument is \<open>argIndex\<close>.  The source tests the marker for
  \<open>'1'\<close> once more beside \<open>'d'\<close> and \<open>'s'\<close>, where it can no longer occur.
\<close>

fun formatMessage :: "bytes \<Rightarrow> bytes list \<Rightarrow> nat \<Rightarrow> bytes" where
  "formatMessage [] args argIndex = []"
| "formatMessage [ch] args argIndex = [ch]"
| "formatMessage (ch # marker # pattern) args argIndex =
     (if ch = 0x25 then
        if 0x31 \<le> marker \<and> marker \<le> 0x39 then
          let idx = unat (marker - 0x31)
          in (if idx < length args then args ! idx else []) @ formatMessage pattern args argIndex
        else if marker = 0x25 then 0x25 # formatMessage pattern args argIndex
        else if (marker = 0x31 \<or> marker = 0x64 \<or> marker = 0x73) \<and> argIndex < length args then
          args ! argIndex @ formatMessage pattern args (Suc argIndex)
        else 0x25 # marker # formatMessage pattern args argIndex
      else ch # formatMessage (marker # pattern) args argIndex)"

section \<open>Bits of bytes and code points\<close>


lemma bit_248: "bit (248 :: int) n \<longleftrightarrow> n = 3 \<or> n = 4 \<or> n = 5 \<or> n = 6 \<or> n = 7"
proof -
  have "(248 :: int) = 8 OR 240" by simp
  moreover have "bit (8 :: int) n \<longleftrightarrow> n = 3"
    using bit_exp_iff [where 'a = int, of 3 n] by (auto simp: possible_bit_def)
  ultimately show ?thesis by (simp only: bit_or_iff bit_high_masks)
qed

lemma byte_all: "(\<forall>n < 8. P n) \<longleftrightarrow> P 0 \<and> P 1 \<and> P 2 \<and> P 3 \<and> P 4 \<and> P 5 \<and> P 6 \<and> P (7 :: nat)"
  by (simp add: eval_nat_numeral All_less_Suc) blast

lemma byte_eq_iff: "a = b \<longleftrightarrow> (\<forall>n < 8. bit a n = bit b n)" for a b :: byte
  by (auto simp: bit_eq_iff)

lemma less_bits:
  assumes "w \<le> m" "unat m < 2 ^ k" "bit w n"
  shows "n < k"
proof -
  have "unat w < 2 ^ k" using assms by (meson le_less_trans word_le_nat_alt)
  then have "take_bit k w = w" by (simp add: word_unat_eq_iff unat_take_bit)
  then show ?thesis using assms(3) by (metis bit_take_bit_iff)
qed

text \<open>The classes of leading and following bytes.\<close>

lemma utf8_class:
  "c AND 0xE0 = 0xC0 \<longleftrightarrow> bit c 7 \<and> bit c 6 \<and> \<not> bit c 5"
  "c AND 0xF0 = 0xE0 \<longleftrightarrow> bit c 7 \<and> bit c 6 \<and> bit c 5 \<and> \<not> bit c 4"
  "c AND 0xF8 = 0xF0 \<longleftrightarrow> bit c 7 \<and> bit c 6 \<and> bit c 5 \<and> bit c 4 \<and> \<not> bit c 3"
  "c AND 0xC0 = 0x80 \<longleftrightarrow> bit c 7 \<and> \<not> bit c 6" for c :: byte
  unfolding byte_eq_iff byte_all by (auto simp: bit_simps bit_const bit_248)

lemma ascii_class: "c \<le> 0x7F \<longleftrightarrow> \<not> bit c 7" for c :: byte
proof
  assume "c \<le> 0x7F"
  then show "\<not> bit c 7" using less_bits [of c "0x7F" 7 7] by auto
next
  assume "\<not> bit c 7"
  then have "n < 7" if "bit c n" for n
    using that bit_imp_le_length [OF that] by (cases "n = 7") auto
  from unat_bit_bound [of c 7, OF this] show "c \<le> 0x7F" by (simp add: word_le_nat_alt)
qed

section \<open>UTF-8 is read back exactly\<close>

definition scalarValue :: "u32 \<Rightarrow> bool" where
  "scalarValue cp \<longleftrightarrow> cp \<le> 0x10FFFF \<and> \<not> (0xD800 \<le> cp \<and> cp \<le> 0xDFFF)"

text \<open>The three multi-byte forms of a code point, assembled and taken apart.\<close>

lemmas utf8_bits = bit_simps bit_const bit_248

lemma sextet_tail: "ucast (ucast (0x80 OR (y AND 0x3F)) AND (0x3F :: byte)) = y AND 0x3F" for y :: u32
  by (rule bit_eqI) (auto simp: utf8_bits)

lemma sextet_join: "push_bit 6 (drop_bit 6 y) OR (y AND 0x3F) = y" for y :: u32
proof (rule bit_eqI)
  show "bit (push_bit 6 (drop_bit 6 y) OR (y AND 0x3F)) n = bit y n" if "possible_bit TYPE(u32) n" for n
    using that by (cases "n < 6") (auto simp: utf8_bits)
qed

lemma sextet_joins:
  "push_bit 6 (drop_bit 12 y) OR (drop_bit 6 y AND 0x3F) = drop_bit 6 y"
  "push_bit 6 (drop_bit 18 y) OR (drop_bit 12 y AND 0x3F) = drop_bit 12 y" for y :: u32
  using sextet_join [of "drop_bit 6 y"] sextet_join [of "drop_bit 12 y"] by (simp_all add: drop_bit_drop_bit)

lemma utf8_join2:
  assumes "(cp :: u32) \<le> 0x7FF"
  defines "a \<equiv> ucast (0xC0 OR drop_bit 6 cp) :: byte" and "b \<equiv> ucast (0x80 OR (cp AND 0x3F)) :: byte"
  shows "utf8Lead a = Some (ucast (a AND 0x1F), 1)" "b AND 0xC0 = 0x80"
    "push_bit 6 (ucast (a AND 0x1F)) OR ucast (b AND 0x3F) = cp"
proof -
  note cp = less_bits [OF assms(1), of 11, simplified]
  show "utf8Lead a = Some (ucast (a AND 0x1F), 1)"
    unfolding utf8Lead_def ascii_class utf8_class a_def by (auto simp: utf8_bits dest: cp)
  show "b AND 0xC0 = 0x80"
    unfolding utf8_class b_def by (auto simp: utf8_bits)
  have "ucast (a AND 0x1F) = drop_bit 6 cp"
    unfolding a_def by (rule bit_eqI) (auto simp: utf8_bits dest: cp)
  then show "push_bit 6 (ucast (a AND 0x1F)) OR ucast (b AND 0x3F) = cp"
    unfolding b_def by (simp add: sextet_tail sextet_joins sextet_join)
qed

lemma utf8_join3:
  assumes "(cp :: u32) \<le> 0xFFFF"
  defines "a \<equiv> ucast (0xE0 OR drop_bit 12 cp) :: byte" and "b \<equiv> ucast (0x80 OR (drop_bit 6 cp AND 0x3F)) :: byte"
    and "c \<equiv> ucast (0x80 OR (cp AND 0x3F)) :: byte"
  shows "utf8Lead a = Some (ucast (a AND 0x0F), 2)" "b AND 0xC0 = 0x80" "c AND 0xC0 = 0x80"
    "push_bit 6 (push_bit 6 (ucast (a AND 0x0F)) OR ucast (b AND 0x3F)) OR ucast (c AND 0x3F) = cp"
proof -
  note cp = less_bits [OF assms(1), of 16, simplified]
  show "utf8Lead a = Some (ucast (a AND 0x0F), 2)"
    unfolding utf8Lead_def ascii_class utf8_class a_def by (auto simp: utf8_bits dest: cp)
  show "b AND 0xC0 = 0x80" "c AND 0xC0 = 0x80"
    unfolding utf8_class b_def c_def by (auto simp: utf8_bits)
  have "ucast (a AND 0x0F) = drop_bit 12 cp"
    unfolding a_def by (rule bit_eqI) (auto simp: utf8_bits dest: cp)
  then show "push_bit 6 (push_bit 6 (ucast (a AND 0x0F)) OR ucast (b AND 0x3F)) OR ucast (c AND 0x3F) = cp"
    unfolding b_def c_def by (simp add: sextet_tail sextet_joins sextet_join)
qed

lemma utf8_join4:
  assumes "(cp :: u32) \<le> 0x10FFFF"
  defines "a \<equiv> ucast (0xF0 OR drop_bit 18 cp) :: byte" and "b \<equiv> ucast (0x80 OR (drop_bit 12 cp AND 0x3F)) :: byte"
    and "c \<equiv> ucast (0x80 OR (drop_bit 6 cp AND 0x3F)) :: byte" and "d \<equiv> ucast (0x80 OR (cp AND 0x3F)) :: byte"
  shows "utf8Lead a = Some (ucast (a AND 0x07), 3)" "b AND 0xC0 = 0x80" "c AND 0xC0 = 0x80" "d AND 0xC0 = 0x80"
    "push_bit 6 (push_bit 6 (push_bit 6 (ucast (a AND 0x07)) OR ucast (b AND 0x3F)) OR ucast (c AND 0x3F))
       OR ucast (d AND 0x3F) = cp"
proof -
  note cp = less_bits [OF assms(1), of 21, simplified]
  show "utf8Lead a = Some (ucast (a AND 0x07), 3)"
    unfolding utf8Lead_def ascii_class utf8_class a_def by (auto simp: utf8_bits dest: cp)
  show "b AND 0xC0 = 0x80" "c AND 0xC0 = 0x80" "d AND 0xC0 = 0x80"
    unfolding utf8_class b_def c_def d_def by (auto simp: utf8_bits)
  have "ucast (a AND 0x07) = drop_bit 18 cp"
    unfolding a_def by (rule bit_eqI) (auto simp: utf8_bits dest: cp)
  then show "push_bit 6 (push_bit 6 (push_bit 6 (ucast (a AND 0x07)) OR ucast (b AND 0x3F)) OR ucast (c AND 0x3F))
       OR ucast (d AND 0x3F) = cp"
    unfolding b_def c_def d_def by (simp add: sextet_tail sextet_joins sextet_join)
qed

lemma utf8_join1:
  assumes "(cp :: u32) \<le> 0x7F"
  defines "a \<equiv> ucast cp :: byte"
  shows "utf8Lead a = Some (cp, 0)"
proof -
  note cp = less_bits [OF assms(1), of 7, simplified]
  have "ucast a = cp" unfolding a_def by (rule bit_eqI) (auto simp: utf8_bits dest: cp)
  moreover have "a \<le> 0x7F" unfolding ascii_class a_def by (auto simp: utf8_bits dest: cp)
  ultimately show ?thesis by (simp add: utf8Lead_def)
qed

lemma utf8_read_one:
  assumes "scalarValue cp"
  shows "utf8ToCodepoints (codepointToUtf8 cp @ text) = map_option (\<lambda>cps. cp # cps) (utf8ToCodepoints text)"
proof -
  have big: "\<not> cp > 0x10FFFF" "\<not> (cp \<ge> 0xD800 \<and> cp \<le> 0xDFFF)" using assms by (auto simp: scalarValue_def)
  consider "cp \<le> 0x7F" | "\<not> cp \<le> 0x7F" "cp \<le> 0x7FF" | "\<not> cp \<le> 0x7FF" "cp \<le> 0xFFFF" | "\<not> cp \<le> 0xFFFF" "cp \<le> 0x10FFFF"
    using big by force
  then show ?thesis
  proof cases
    case 1
    then have "\<not> utf8Bad cp 0" using big by (auto simp: utf8Bad_def)
    with 1 show ?thesis by (simp add: codepointToUtf8_def utf8_join1)
  next
    case 2
    then have "\<not> utf8Bad cp 1" using big by (auto simp: utf8Bad_def word_le_nat_alt word_less_nat_alt)
    with 2 show ?thesis using utf8_join2 [OF 2(2)] by (simp add: codepointToUtf8_def)
  next
    case 3
    then have "\<not> cp \<le> 0x7F" "\<not> utf8Bad cp 2"
      using big by (auto simp: utf8Bad_def word_le_nat_alt word_less_nat_alt)
    with 3 show ?thesis using utf8_join3 [OF 3(2)] by (simp add: codepointToUtf8_def numeral_2_eq_2)
  next
    case 4
    then have "\<not> cp \<le> 0x7F" "\<not> cp \<le> 0x7FF" "\<not> utf8Bad cp 3"
      using big by (auto simp: utf8Bad_def word_le_nat_alt word_less_nat_alt)
    with 4 show ?thesis using utf8_join4 [OF 4(2)] by (simp add: codepointToUtf8_def numeral_3_eq_3)
  qed
qed

lemma utf8_read_all:
  "list_all scalarValue cps \<Longrightarrow> utf8ToCodepoints (codepointsToUtf8 cps) = Some cps"
  by (induction cps) (auto simp: codepointsToUtf8_def utf8_read_one)

text \<open>Conversely, every byte string that is accepted is the encoding of what was read.\<close>

definition fits :: "nat \<Rightarrow> u32 \<Rightarrow> bool" where
  "fits k x \<longleftrightarrow> unat x < 2 ^ k"

lemma fitsD: "fits k x \<Longrightarrow> bit x n \<Longrightarrow> n < k"
  using less_bits [of x x k n] by (simp add: fits_def)

lemma fits_bits: "(\<And>n. bit x n \<Longrightarrow> n < k) \<Longrightarrow> fits k x"
  unfolding fits_def by (rule unat_bit_bound)

lemma fits_mono: "fits k x \<Longrightarrow> k \<le> m \<Longrightarrow> fits m x"
  unfolding fits_def by (erule less_le_trans) simp

lemma fits_sextet: "fits k x \<Longrightarrow> k \<le> 26 \<Longrightarrow> fits (k + 6) (push_bit 6 x OR ucast ((d :: byte) AND 0x3F))"
  by (rule fits_bits) (auto simp: utf8_bits dest!: fitsD)

lemma sextet_split:
  assumes "fits 26 x"
  shows "drop_bit 6 (push_bit 6 x OR ucast ((d :: byte) AND 0x3F)) = x"
    "(push_bit 6 x OR ucast (d AND 0x3F)) AND 0x3F = ucast (d AND 0x3F)"
  by (rule bit_eqI, use fitsD [OF assms] in \<open>force simp: utf8_bits\<close>)+

lemma utf8_tail_byte: "d AND 0xC0 = 0x80 \<Longrightarrow> ucast (0x80 OR (ucast (d AND 0x3F) :: u32)) = d" for d :: byte
  unfolding utf8_class byte_eq_iff byte_all by (auto simp: utf8_bits)

lemma utf8_lead_byte:
  "c AND 0xE0 = 0xC0 \<Longrightarrow> ucast (0xC0 OR (ucast (c AND 0x1F) :: u32)) = c"
  "c AND 0xF0 = 0xE0 \<Longrightarrow> ucast (0xE0 OR (ucast (c AND 0x0F) :: u32)) = c"
  "c AND 0xF8 = 0xF0 \<Longrightarrow> ucast (0xF0 OR (ucast (c AND 0x07) :: u32)) = c" for c :: byte
  unfolding utf8_class byte_eq_iff byte_all by (auto simp: utf8_bits)

lemma lead_fits:
  "fits 5 (ucast ((c :: byte) AND 0x1F))" "fits 4 (ucast ((c :: byte) AND 0x0F))" "fits 3 (ucast ((c :: byte) AND 0x07))"
  by (rule fits_bits, simp add: utf8_bits)+

text \<open>The bytes of each accepted form are the encoding of the code point read.\<close>

lemma utf8_take2:
  assumes "c AND 0xE0 = 0xC0" "d AND 0xC0 = 0x80"
  defines "cp \<equiv> push_bit 6 (ucast (c AND 0x1F)) OR ucast (d AND 0x3F)"
  assumes "\<not> utf8Bad cp 1"
  shows "codepointToUtf8 cp = [c, d]"
proof -
  let ?x = "ucast (c AND 0x1F) :: u32"
  have "fits 11 cp" using fits_sextet [OF lead_fits(1)] by (simp add: cp_def)
  then have "cp \<le> 0x7FF" by (simp add: fits_def word_le_nat_alt)
  moreover have "\<not> cp \<le> 0x7F" using assms(4) by (auto simp: utf8Bad_def word_le_nat_alt word_less_nat_alt)
  moreover have "drop_bit 6 cp = ?x" "cp AND 0x3F = ucast (d AND 0x3F)"
    unfolding cp_def by (rule sextet_split, rule fits_mono [OF lead_fits(1)], simp)+
  ultimately show ?thesis
    using assms(1,2) by (simp add: codepointToUtf8_def utf8_tail_byte utf8_lead_byte)
qed

lemma utf8_take3:
  assumes "c AND 0xF0 = 0xE0" "d AND 0xC0 = 0x80" "e AND 0xC0 = 0x80"
  defines "y \<equiv> push_bit 6 (ucast (c AND 0x0F)) OR ucast (d AND 0x3F)"
  defines "cp \<equiv> push_bit 6 y OR ucast (e AND 0x3F)"
  assumes "\<not> utf8Bad cp 2"
  shows "codepointToUtf8 cp = [c, d, e]"
proof -
  let ?x = "ucast (c AND 0x0F) :: u32"
  have y: "fits 10 y" using fits_sextet [OF lead_fits(2)] by (simp add: y_def)
  then have "fits 16 cp" using fits_sextet [OF y] by (simp add: cp_def)
  then have "cp \<le> 0xFFFF" by (simp add: fits_def word_le_nat_alt)
  moreover have "\<not> cp \<le> 0x7F" "\<not> cp \<le> 0x7FF"
    using assms(6) by (auto simp: utf8Bad_def word_le_nat_alt word_less_nat_alt)
  moreover have "drop_bit 6 cp = y" "cp AND 0x3F = ucast (e AND 0x3F)"
    unfolding cp_def by (rule sextet_split, rule fits_mono [OF y], simp)+
  moreover have "drop_bit 6 y = ?x" "y AND 0x3F = ucast (d AND 0x3F)"
    unfolding y_def by (rule sextet_split, rule fits_mono [OF lead_fits(2)], simp)+
  moreover have "drop_bit 12 cp = drop_bit 6 (drop_bit 6 cp)" by (simp add: drop_bit_drop_bit)
  ultimately show ?thesis
    using assms(1-3) by (simp add: codepointToUtf8_def utf8_tail_byte utf8_lead_byte)
qed

lemma utf8_take4:
  assumes "c AND 0xF8 = 0xF0" "d AND 0xC0 = 0x80" "e AND 0xC0 = 0x80" "f AND 0xC0 = 0x80"
  defines "y \<equiv> push_bit 6 (ucast (c AND 0x07)) OR ucast (d AND 0x3F)"
  defines "z \<equiv> push_bit 6 y OR ucast (e AND 0x3F)"
  defines "cp \<equiv> push_bit 6 z OR ucast (f AND 0x3F)"
  assumes "\<not> utf8Bad cp 3"
  shows "codepointToUtf8 cp = [c, d, e, f]"
proof -
  let ?x = "ucast (c AND 0x07) :: u32"
  have y: "fits 9 y" using fits_sextet [OF lead_fits(3)] by (simp add: y_def)
  have z: "fits 15 z" using fits_sextet [OF y] by (simp add: z_def)
  have "\<not> cp \<le> 0x7F" "\<not> cp \<le> 0x7FF" "\<not> cp \<le> 0xFFFF"
    using assms(8) by (auto simp: utf8Bad_def word_le_nat_alt word_less_nat_alt)
  moreover have "drop_bit 6 cp = z" "cp AND 0x3F = ucast (f AND 0x3F)"
    unfolding cp_def by (rule sextet_split, rule fits_mono [OF z], simp)+
  moreover have "drop_bit 6 z = y" "z AND 0x3F = ucast (e AND 0x3F)"
    unfolding z_def by (rule sextet_split, rule fits_mono [OF y], simp)+
  moreover have "drop_bit 6 y = ?x" "y AND 0x3F = ucast (d AND 0x3F)"
    unfolding y_def by (rule sextet_split, rule fits_mono [OF lead_fits(3)], simp)+
  moreover have "drop_bit 12 cp = drop_bit 6 (drop_bit 6 cp)" "drop_bit 18 cp = drop_bit 6 (drop_bit 6 (drop_bit 6 cp))"
    by (simp_all add: drop_bit_drop_bit)
  ultimately show ?thesis
    using assms(1-4) by (simp add: codepointToUtf8_def utf8_tail_byte utf8_lead_byte)
qed

lemma utf8_take_apart:
  assumes "utf8Lead c = Some (x, extra)" "length ts = extra" "utf8Tail x ts = Some cp" "\<not> utf8Bad cp extra"
  shows "codepointToUtf8 cp = c # ts"
proof -
  from assms(1) consider
    (one) "c \<le> 0x7F" "x = ucast c" "extra = 0"
  | (two) "c AND 0xE0 = 0xC0" "x = ucast (c AND 0x1F)" "extra = 1"
  | (three) "c AND 0xF0 = 0xE0" "x = ucast (c AND 0x0F)" "extra = 2"
  | (four) "c AND 0xF8 = 0xF0" "x = ucast (c AND 0x07)" "extra = 3"
    by (auto simp: utf8Lead_def split: if_splits)
  then show ?thesis
  proof cases
    case one
    moreover have "fits 7 (ucast c)"
      by (rule fits_bits) (auto simp: utf8_bits dest: less_bits [OF one(1), of 7, simplified])
    then have "(ucast c :: u32) \<le> 0x7F" by (simp add: fits_def word_le_nat_alt)
    moreover have "ucast (ucast c :: u32) = c" by (rule bit_eqI) (auto simp: utf8_bits)
    ultimately show ?thesis using assms by (auto simp: codepointToUtf8_def)
  next
    case two
    then obtain d where ts: "ts = [d]" using assms(2) by (auto simp: length_Suc_conv)
    then show ?thesis using two assms(3,4) utf8_take2 by (auto split: if_splits)
  next
    case three
    then obtain d e where ts: "ts = [d, e]" using assms(2) by (auto simp: length_Suc_conv numeral_2_eq_2)
    then show ?thesis using three assms(3,4) utf8_take3 by (auto split: if_splits)
  next
    case four
    then obtain d e f where ts: "ts = [d, e, f]" using assms(2) by (auto simp: length_Suc_conv numeral_3_eq_3)
    then show ?thesis using four assms(3,4) utf8_take4 by (auto split: if_splits)
  qed
qed

lemma utf8_written_back:
  "utf8ToCodepoints str = Some cps \<Longrightarrow> codepointsToUtf8 cps = str \<and> list_all scalarValue cps"
proof (induction str arbitrary: cps rule: utf8ToCodepoints.induct)
  case 1
  then show ?case by (simp add: codepointsToUtf8_def)
next
  case (2 c str)
  from "2.prems" obtain x extra cp cps' where
    a: "utf8Lead c = Some (x, extra)" "extra \<le> length str" "utf8Tail x (take extra str) = Some cp" "\<not> utf8Bad cp extra"
    and r: "utf8ToCodepoints (drop extra str) = Some cps'" "cps = cp # cps'"
    by (auto split: option.splits if_splits)
  have "codepointToUtf8 cp = c # take extra str" using utf8_take_apart [OF a(1) _ a(3,4)] a(2) by simp
  moreover have "codepointsToUtf8 cps' = drop extra str \<and> list_all scalarValue cps'"
    by (rule "2.IH" [OF a(1) refl _ a(3,4) r(1)]) (use a(2) in \<open>simp\<close>)
  moreover have "scalarValue cp" using a(4) by (auto simp: utf8Bad_def scalarValue_def)
  ultimately show ?case using r(2) by (simp add: codepointsToUtf8_def)
qed

section \<open>Base64 is read back\<close>

lemma base64Value_char:
  "list_all (\<lambda>k. base64Value (base64Chars ! k) = int k \<and> base64Chars ! k \<notin> {0x3d, 0x0a, 0x0d, 0x20, 0x09}) [0..<64]"
  by (simp add: base64Chars_def asciiBytes_def base64Value_def upt_rec)

lemma base64_char:
  "base64Value (b64char n) = int (unat (n AND 63))" "b64char n \<notin> {0x3d, 0x0a, 0x0d, 0x20, 0x09}"
proof -
  have "unat (n AND 63) < 2 ^ 6" by (rule unat_bit_bound) (simp add: bit_simps)
  then show "base64Value (b64char n) = int (unat (n AND 63))" "b64char n \<notin> {0x3d, 0x0a, 0x0d, 0x20, 0x09}"
    using base64Value_char by (simp_all add: list_all_iff b64char_def)
qed

lemma base64_step:
  fixes w n dat
  defines "v \<equiv> push_bit 6 w OR (n AND 63)"
  shows "base64Loop w 0 (b64char n # dat) = base64Loop v 6 dat"
    "base64Loop w 6 (b64char n # dat) = ucast (drop_bit 4 v AND 0xff) # base64Loop v 4 dat"
    "base64Loop w 4 (b64char n # dat) = ucast (drop_bit 2 v AND 0xff) # base64Loop v 2 dat"
    "base64Loop w 2 (b64char n # dat) = ucast (v AND 0xff) # base64Loop v 0 dat"
  using base64_char [of n] by (simp_all add: v_def Let_def)

lemma base64_padding: "base64Loop w bits (0x3d # dat) = base64Loop w bits dat"
  by simp

text \<open>Whatever is left in the upper bits of the buffer, each byte comes from two adjacent groups of six bits.\<close>

lemma base64_out:
  "ucast (drop_bit 4 (push_bit 6 (push_bit 6 w OR (drop_bit 18 n AND 63)) OR (drop_bit 12 n AND 63)) AND 0xff)
     = (ucast (drop_bit 16 n) :: byte)"
  "ucast (drop_bit 2 (push_bit 6 (push_bit 6 w OR (drop_bit 12 n AND 63)) OR (drop_bit 6 n AND 63)) AND 0xff)
     = (ucast (drop_bit 8 n) :: byte)"
  "ucast ((push_bit 6 (push_bit 6 w OR (drop_bit 6 n AND 63)) OR (n AND 63)) AND 0xff) = (ucast n :: byte)"
  for w n :: u32
  unfolding byte_eq_iff byte_all by (simp_all add: utf8_bits)

lemma byte_high: "8 \<le> n \<Longrightarrow> \<not> bit (b :: byte) n"
  using bit_imp_le_length [of b n] by auto

lemma base64_group:
  "ucast (drop_bit 16 (push_bit 16 (ucast a) OR push_bit 8 (ucast b) OR ucast c :: u32)) = a"
  "ucast (drop_bit 8 (push_bit 16 (ucast a) OR push_bit 8 (ucast b) OR ucast c :: u32)) = b"
  "ucast (push_bit 16 (ucast a) OR push_bit 8 (ucast b) OR ucast c :: u32) = c"
  "ucast (drop_bit 16 (push_bit 16 (ucast a) OR push_bit 8 (ucast b) :: u32)) = a"
  "ucast (drop_bit 8 (push_bit 16 (ucast a) OR push_bit 8 (ucast b) :: u32)) = b"
  "ucast (drop_bit 16 (push_bit 16 (ucast a) :: u32)) = a" for a b c :: byte
  unfolding byte_eq_iff byte_all by (simp_all add: utf8_bits byte_high)

lemma base64_read_all: "base64Loop w 0 (bytesToBase64 dat) = dat"
  by (induction dat arbitrary: w rule: bytesToBase64.induct)
    (simp_all only: bytesToBase64.simps Let_def append.simps base64_step base64_padding base64_out base64_group
      base64Loop.simps(1))

section \<open>Splitting and joining\<close>

lemma split_join_char: "splitLoop part sep str \<noteq> [] \<and> join_text (splitLoop part sep str) [sep] = part @ str"
proof (induction str arbitrary: part)
  case (Cons ch str)
  show ?case
  proof (cases "ch = sep")
    case True
    then show ?thesis using Cons.IH [of "[]"] by (cases "splitLoop [] sep str") auto
  next
    case False
    then show ?thesis using Cons.IH [of "part @ [ch]"] by simp
  qed
qed simp

lemma split_parts_char: "sep \<notin> set part \<Longrightarrow> p \<in> set (splitLoop part sep str) \<Longrightarrow> sep \<notin> set p"
proof (induction str arbitrary: part)
  case (Cons ch str)
  then show ?case using Cons.IH [of "[]"] Cons.IH [of "part @ [ch]"] by (auto split: if_splits)
qed simp

text \<open>What \<open>find\<close> returns is the first occurrence.\<close>

lemma take_prefix: "take (length sep) str = sep \<longleftrightarrow> prefix sep str"
  by (metis append_eq_conv_conj prefix_def take_is_prefix)

lemma find_sub_None: "find_sub sep str = None \<longleftrightarrow> \<not> sublist sep str"
  by (induction sep str rule: find_sub.induct) (auto simp: take_prefix sublist_Cons_right simp del: take_Cons_numeral)

lemma find_sub_Some:
  "find_sub sep str = Some pos \<Longrightarrow> sep \<noteq> [] \<Longrightarrow>
     str = take pos str @ sep @ drop (pos + length sep) str \<and> \<not> sublist sep (take pos str)"
proof (induction sep str arbitrary: pos rule: find_sub.induct)
  case (2 sep ch str)
  show ?case
  proof (cases "prefix sep (ch # str)")
    case True
    then show ?thesis using 2 by (auto simp: take_prefix elim!: prefixE)
  next
    case False
    then obtain p where p: "find_sub sep str = Some p" "pos = Suc p"
      using "2.prems" by (auto simp: take_prefix)
    have "\<not> prefix sep (ch # take p str)"
      using False prefix_order.trans [of sep "ch # take p str" "ch # str"] by (auto simp: take_is_prefix)
    then show ?thesis using "2.IH" [OF _ p(1)] False "2.prems"(2) p by (auto simp: take_prefix sublist_Cons_right)
  qed
qed simp

lemma split_str_join: "split_str str sep \<noteq> [] \<and> join_text (split_str str sep) sep = str"
proof (induction str sep rule: split_str.induct)
  case (1 str sep)
  show ?case
  proof (cases "sep = [] \<or> find_sub sep str = None")
    case False
    then obtain pos where pos: "find_sub sep str = Some pos" "sep \<noteq> []" by auto
    let ?rest = "drop (pos + length sep) str"
    have rest: "split_str ?rest sep \<noteq> []" "join_text (split_str ?rest sep) sep = ?rest" using 1 pos by auto
    have "split_str str sep = take pos str # split_str ?rest sep" using pos by (subst split_str.simps) simp
    then show ?thesis using rest find_sub_Some [OF pos] by (cases "split_str ?rest sep") auto
  qed (auto simp: split_str.simps [of str])
qed

lemma split_str_parts: "sep \<noteq> [] \<Longrightarrow> p \<in> set (split_str str sep) \<Longrightarrow> \<not> sublist sep p"
proof (induction str sep rule: split_str.induct)
  case (1 str sep)
  then show ?case using find_sub_Some [of sep str] find_sub_None [of sep str]
    by (subst (asm) (2) split_str.simps) (auto split: option.splits)
qed

text \<open>
  Splitting loses nothing and splits everywhere: joining the parts with the separator gives the
  text back, for a separator character and for a separator string, and no part contains the
  separator (a separator string must not be empty for that).
\<close>

lemma split_join_roundtrip:
  assumes "sep \<noteq> []"
  shows "join_text (split_text str ch) [ch] = str \<and> (\<forall>p \<in> set (split_text str ch). ch \<notin> set p)
    \<and> join_text (split_str str sep) sep = str \<and> (\<forall>p \<in> set (split_str str sep). find_sub sep p = None)"
  using split_join_char [of "[]" ch str] split_parts_char [of ch "[]" _ str] split_str_join [of str sep]
    split_str_parts [OF assms] by (auto simp: split_text_def find_sub_None)

section \<open>The smaller conversions\<close>

lemma startsWith_prefix: "startsWith str pre \<longleftrightarrow> prefix pre str"
  by (auto simp: startsWith_def take_prefix dest: prefix_length_le)

lemma endsWith_suffix: "endsWith str suf \<longleftrightarrow> suffix suf str"
  unfolding endsWith_def by (metis append_take_drop_id suffix_def suffix_length_le suffix_take append_eq_append_conv length_drop diff_diff_cancel)

lemma htmlEscape_safe: "ch \<in> set (htmlEscape str) \<Longrightarrow> ch \<noteq> 0x3c \<and> ch \<noteq> 0x3e \<and> ch \<noteq> 0x22"
  by (auto simp: htmlEscape_def asciiBytes_def split: if_splits)

lemma formatMessage_plain: "0x25 \<notin> set pattern \<Longrightarrow> formatMessage pattern args i = pattern"
  by (induction pattern args i rule: formatMessage.induct) auto

lemma trimmed_ends:
  assumes "trimmed str \<noteq> []"
  shows "\<not> isspace (hd (trimmed str)) \<and> \<not> isspace (last (trimmed str))"
proof -
  let ?xs = "dropWhile isspace str"
  have "suffix (rev (trimmed str)) (rev ?xs)" by (simp add: trimmed_def suffix_dropWhile)
  then obtain ys where "?xs = trimmed str @ ys" by (auto simp: suffix_to_prefix elim: prefixE)
  then have "?xs \<noteq> []" "hd ?xs = hd (trimmed str)" using assms by auto
  then show ?thesis
    using hd_dropWhile [of isspace str] hd_dropWhile [of isspace "rev ?xs"] assms
    by (auto simp: trimmed_def last_rev)
qed

lemma toLower_toUpper: "toLower (toUpper str) = toLower str" "toLower (toLower str) = toLower str"
  by (auto simp: toLower_def toUpper_def word_le_nat_alt unat_word_ariths unat_sub)

section \<open>Properties\<close>

text \<open>
  C25. UTF-8 validation and decoding accept exactly the canonical encodings: decoding a byte string
  gives the code points \<open>cps\<close> if and only if all of them are Unicode scalar values (at most
  \<open>0x10FFFF\<close>, no surrogates) and the byte string is what \<open>codepointsToUtf8\<close> writes for them.
  Overlong forms, surrogates, truncated and stray bytes are rejected.
\<close>

theorem utf8_canonical:
  "utf8ToCodepoints str = Some cps \<longleftrightarrow> list_all scalarValue cps \<and> str = codepointsToUtf8 cps"
  using utf8_read_all utf8_written_back by blast

text \<open>
  C27. Base64 decoding returns every byte string that was encoded, whatever its length: the groups
  with one and two padding characters are handled, and the bits that the decoder never clears from
  its buffer do not reach the output.
\<close>

theorem base64_roundtrip: "base64ToBytes (bytesToBase64 dat) = dat"
  unfolding base64ToBytes_def by (rule base64_read_all)

end
