(* ===== verification/Civil_Date.thy ===== *)
theory Civil_Date
  imports Qtng_Prelude "HOL-Library.Signed_Division"
begin

text \<open>
  The calendar of \<open>utils/datetime.cpp\<close>: the conversions between civil dates and day numbers and
  the \<open>Date\<close> class on them.  Signed division and remainder truncate towards zero as in C
  (\<open>sdiv\<close>, \<open>smod\<close>); \<open>uns\<close> is the reduction of an \<open>unsigned\<close> expression to 32 bits,
  written before each division and each assignment, and \<open>s32\<close> the conversion to \<open>int\<close>.
  The 64-bit day numbers are integers: from a 32-bit year they stay below \<open>2 ^ 40\<close>.
\<close>

definition uns :: "int \<Rightarrow> int" where
  "uns x = x mod 4294967296"

definition s32 :: "int \<Rightarrow> int" where
  "s32 x = (x + 2147483648) mod 4294967296 - 2147483648"

definition kJulianDayOfUnixEpoch :: int where
  "kJulianDayOfUnixEpoch = 2440588"

text \<open>
  The year of \<open>daysFromCivil\<close> is an \<open>int\<close> in the source; \<open>y -= m <= 2\<close> and \<open>y - 399\<close> stay
  within it from \<open>- 2147483248\<close> up, and below that the overflow leaves the result undefined.
  The unsigned intermediate values wrap as in the source.
\<close>

definition daysFromCivil :: "int \<Rightarrow> int \<Rightarrow> int \<Rightarrow> int" where
  "daysFromCivil y m d =
     (let y = y - (if m \<le> 2 then 1 else 0);
          era = (if y \<ge> 0 then y else y - 399) sdiv 400;
          yoe = uns (y - era * 400);
          doy = uns (uns (153 * (m + (if m > 2 then - 3 else 9)) + 2) div 5 + d - 1);
          doe = uns (yoe * 365 + yoe div 4 - yoe div 100 + doy)
      in era * 146097 + doe - 719468)"

definition civilFromDays :: "int \<Rightarrow> int \<times> int \<times> int" where
  "civilFromDays z =
     (let z = z + 719468;
          era = (if z \<ge> 0 then z else z - 146096) sdiv 146097;
          doe = uns (z - era * 146097);
          yoe = uns (doe - doe div 1460 + doe div 36524 - doe div 146096) div 365;
          y = yoe + era * 400;
          doy = uns (doe - (365 * yoe + yoe div 4 - yoe div 100));
          mp = uns (5 * doy + 2) div 153;
          d = uns (doy - uns (153 * mp + 2) div 5 + 1);
          m = (if mp < 10 then uns (mp + 3) else uns (mp - 9))
      in (s32 (y + (if m \<le> 2 then 1 else 0)), m, d))"

section \<open>Dates\<close>

record Date =
  jd :: int

definition invalidDate :: Date where
  "invalidDate = \<lparr>jd = 0\<rparr>"

definition mkDate :: "int \<Rightarrow> int \<Rightarrow> int \<Rightarrow> Date" where
  "mkDate year month day =
     (if month < 1 \<or> month > 12 \<or> day < 1 \<or> day > 31 then invalidDate
      else \<lparr>jd = daysFromCivil year (uns month) (uns day) + kJulianDayOfUnixEpoch\<rparr>)"

definition fromJulianDay :: "int \<Rightarrow> Date" where
  "fromJulianDay julianDay = \<lparr>jd = julianDay\<rparr>"

definition isValid :: "Date \<Rightarrow> bool" where
  "isValid d \<longleftrightarrow> jd d \<noteq> 0"

definition date_year :: "Date \<Rightarrow> int" where
  "date_year d = (case civilFromDays (jd d - kJulianDayOfUnixEpoch) of (y, m, dd) \<Rightarrow> y)"

definition date_month :: "Date \<Rightarrow> int" where
  "date_month d = (case civilFromDays (jd d - kJulianDayOfUnixEpoch) of (y, m, dd) \<Rightarrow> m)"


definition dayOfWeek :: "Date \<Rightarrow> int" where
  "dayOfWeek d = (if \<not> isValid d then 0 else jd d smod 7 + 1)"

definition isLeapYear :: "int \<Rightarrow> bool" where
  "isLeapYear year \<longleftrightarrow> year smod 4 = 0 \<and> year smod 100 \<noteq> 0 \<or> year smod 400 = 0"

definition daysInMonth :: "int \<Rightarrow> int \<Rightarrow> int" where
  "daysInMonth year month =
     (if month < 1 \<or> month > 12 then 0
      else if month = 2 \<and> isLeapYear year then 29
      else [31, 28, 31, 30, 31, 30, 31, 31, 30, 31, 30, 31] ! nat (month - 1))"

definition date_daysInMonth :: "Date \<Rightarrow> int" where
  "date_daysInMonth d = (if \<not> isValid d then 0 else daysInMonth (date_year d) (date_month d))"

definition addDays :: "Date \<Rightarrow> int \<Rightarrow> Date" where
  "addDays d days = (if \<not> isValid d then invalidDate else fromJulianDay (jd d + days))"

definition daysTo :: "Date \<Rightarrow> Date \<Rightarrow> int" where
  "daysTo d other = jd other - jd d"

text \<open>The week number, and the year that is stored through \<open>yearNumber\<close>.\<close>

definition weekNumber :: "Date \<Rightarrow> int \<times> int option" where
  "weekNumber d =
     (if \<not> isValid d then (0, None)
      else
        let thursday = addDays d (4 - dayOfWeek d);
            firstDay = mkDate (date_year thursday) 1 1
        in (daysTo firstDay thursday sdiv 7 + 1, Some (date_year thursday)))"

fun parseFixedDigits :: "bytes \<Rightarrow> nat \<Rightarrow> int \<Rightarrow> (int \<times> bytes) option" where
  "parseFixedDigits str 0 val = Some (val, str)"
| "parseFixedDigits [] (Suc count) val = None"
| "parseFixedDigits (ch # str) (Suc count) val =
     (if ch < 0x30 \<or> ch > 0x39 then None
      else parseFixedDigits str count (val * 10 + (uint ch - 0x30)))"

definition date_fromString :: "bytes \<Rightarrow> bytes \<Rightarrow> Date" where
  "date_fromString str format =
     (if format = asciiBytes ''yyyy-MM-dd'' then
        (case parseFixedDigits str 4 0 of
           Some (y, sep1 # str) \<Rightarrow>
             if sep1 \<noteq> 0x2d then invalidDate
             else (case parseFixedDigits str 2 0 of
                 Some (m, sep2 # str) \<Rightarrow>
                   if sep2 \<noteq> 0x2d then invalidDate
                   else (case parseFixedDigits str 2 0 of
                       Some (d, str) \<Rightarrow> mkDate y m d
                     | None \<Rightarrow> invalidDate)
               | _ \<Rightarrow> invalidDate)
         | _ \<Rightarrow> invalidDate)
      else invalidDate)"

text \<open>The seconds of a UTC calendar time, counted year by year (the build for Windows).\<close>

record tm =
  tm_year :: int
  tm_mon :: int
  tm_mday :: int
  tm_hour :: int
  tm_min :: int
  tm_sec :: int

definition yearLength :: "int \<Rightarrow> int" where
  "yearLength y = (if isLeapYear y then 366 else 365)"

definition timegmUtc :: "tm \<Rightarrow> int" where
  "timegmUtc utc =
     (if tm_mon utc < 0 \<or> tm_mon utc > 11 then - 1
      else
        let year = tm_year utc + 1900;
            days = (if year \<ge> 1970 then sum_list (map yearLength [1970..year - 1])
                    else - sum_list (map yearLength [year..1969]));
            days = days + [0, 31, 59, 90, 120, 151, 181, 212, 243, 273, 304, 334] ! nat (tm_mon utc);
            days = (if tm_mon utc > 1 \<and> isLeapYear year then days + 1 else days);
            days = days + tm_mday utc - 1
        in days * 86400 + tm_hour utc * 3600 + tm_min utc * 60 + tm_sec utc)"

section \<open>Arithmetic\<close>

lemma uns_id: "0 \<le> x \<Longrightarrow> x < 4294967296 \<Longrightarrow> uns x = x"
  by (simp add: uns_def)

lemma s32_id: "- 2147483648 \<le> x \<Longrightarrow> x < 2147483648 \<Longrightarrow> s32 x = x"
  by (simp add: s32_def)

lemma floor_sdiv:
  assumes n: "0 < (n :: int)" and k: "k = n - 1"
  shows "(if y \<ge> 0 then y else y - k) sdiv n = y div n"
proof (cases "y \<ge> 0")
  case True
  then show ?thesis unfolding signed_divide_int_def using n by (cases "y = 0") simp_all
next
  case False
  have "(k - y) div n = - (y div n)"
  proof (rule int_div_pos_eq)
    show "k - y = n * - (y div n) + (k - y mod n)"
      using mult_div_mod_eq [of n y] by (simp add: algebra_simps)
    show "0 \<le> k - y mod n" "k - y mod n < n"
      using pos_mod_bound [OF n, of y] pos_mod_sign [OF n, of y] k by linarith+
  qed
  moreover have "y - k < 0" using False n k by linarith
  ultimately show ?thesis unfolding signed_divide_int_def using False n by simp
qed

lemma smod_dvd: "x smod n = 0 \<longleftrightarrow> n dvd (x :: int)"
  unfolding signed_modulo_int_def by (cases "x = 0") (simp_all add: sgn_if dvd_eq_mod_eq_0 [symmetric])

text \<open>The day number as one formula over the year that begins in March.\<close>

definition marchDays :: "int \<Rightarrow> int" where
  "marchDays Y = 365 * Y + Y div 4 - Y div 100 + Y div 400 - 719468"

lemma era_split: "marchDays Y = Y div 400 * 146097 + (Y mod 400 * 365 + Y mod 400 div 4 - Y mod 400 div 100) - 719468"
proof -
  define e where "e = Y div 400"
  define yoe where "yoe = Y mod 400"
  have Y: "Y = 400 * e + yoe" by (simp add: e_def yoe_def)
  then have "Y div 4 = (yoe + 100 * e * 4) div 4" "Y div 100 = (yoe + 4 * e * 100) div 100" by simp_all
  then have "Y div 4 = 100 * e + yoe div 4" "Y div 100 = 4 * e + yoe div 100"
    by (simp_all only: div_mult_self1 [of 4 yoe "100 * e"] div_mult_self1 [of 100 yoe "4 * e"])
  then show ?thesis unfolding marchDays_def e_def [symmetric] yoe_def [symmetric] using Y by linarith
qed

definition monthStart :: "int \<Rightarrow> int" where
  "monthStart mp = (153 * mp + 2) div 5"

definition marchYear :: "int \<Rightarrow> int \<Rightarrow> int" where
  "marchYear y m = (if m \<le> 2 then y - 1 else y)"

definition marchMonth :: "int \<Rightarrow> int" where
  "marchMonth m = (if m > 2 then m - 3 else m + 9)"

lemma daysFromCivil_formula:
  assumes "1 \<le> m" "m \<le> 12" "1 \<le> d" "d \<le> 31"
  shows "daysFromCivil y m d = marchDays (marchYear y m) + monthStart (marchMonth m) + d - 1"
proof -
  define Y where "Y = marchYear y m"
  define mp where "mp = marchMonth m"
  define yoe where "yoe = Y mod 400"
  have mp: "0 \<le> mp" "mp \<le> 11" using assms by (auto simp: mp_def marchMonth_def)
  have yoe: "0 \<le> yoe" "yoe < 400" by (simp_all add: yoe_def)
  then have q: "0 \<le> yoe div 4 - yoe div 100" "yoe div 4 - yoe div 100 < 400"
    using zdiv_mono2 [of yoe 4 100] zdiv_mono2 [of yoe 1 4] pos_imp_zdiv_nonneg_iff [of 100 yoe] by simp_all
  have start: "0 \<le> monthStart mp" "monthStart mp \<le> 337" using mp by (auto simp: monthStart_def)
  have 1: "y - (if m \<le> 2 then 1 else 0) = Y" by (auto simp: Y_def marchYear_def)
  have 2: "m + (if m > 2 then - 3 else 9) = mp" by (auto simp: mp_def marchMonth_def)
  have 3: "uns (153 * mp + 2) div 5 = monthStart mp" using mp by (simp add: uns_id monthStart_def)
  have 4: "(if Y \<ge> 0 then Y else Y - 399) sdiv 400 = Y div 400" by (rule floor_sdiv) auto
  have 5: "uns (Y - Y div 400 * 400) = yoe" using yoe by (simp add: minus_div_mult_eq_mod uns_id flip: yoe_def)
  have 6: "uns (monthStart mp + d - 1) = monthStart mp + d - 1"
    by (rule uns_id) (use start assms in \<open>linarith\<close>)+
  have 7: "uns (yoe * 365 + yoe div 4 - yoe div 100 + (monthStart mp + d - 1))
      = yoe * 365 + yoe div 4 - yoe div 100 + (monthStart mp + d - 1)"
    by (rule uns_id) (use yoe q start assms in \<open>linarith\<close>)+
  have "daysFromCivil y m d = Y div 400 * 146097 + (yoe * 365 + yoe div 4 - yoe div 100 + (monthStart mp + d - 1)) - 719468"
    unfolding daysFromCivil_def Let_def 1 2 3 4 5 6 7 by (rule refl)
  then show ?thesis using era_split [of Y] by (simp add: Y_def mp_def yoe_def)
qed

section \<open>Years that begin in March\<close>

text \<open>The days of the year \<open>Y\<close> are numbered from 0; the last one exists when February of \<open>Y + 1\<close> has 29 days.\<close>

definition okDoy :: "int \<Rightarrow> int \<Rightarrow> bool" where
  "okDoy Y doy \<longleftrightarrow> 0 \<le> doy \<and> (doy \<le> 364 \<or> doy = 365 \<and> isLeapYear (Y + 1))"

lemma leap_dvd: "isLeapYear y \<longleftrightarrow> 4 dvd y \<and> \<not> 100 dvd y \<or> 400 dvd y"
  by (simp add: isLeapYear_def smod_dvd)

lemma div_step: "0 < n \<Longrightarrow> (Y + 1) div n = Y div n + (if n dvd Y + 1 then 1 else 0)" for Y n :: int
proof (cases "n dvd Y + 1")
  case True
  assume "0 < n"
  from True obtain k where k: "Y + 1 = n * k" by (elim dvdE)
  then have "Y = n * (k - 1) + (n - 1)" by (simp add: algebra_simps)
  then have "Y div n = k - 1" using \<open>0 < n\<close> by (intro int_div_pos_eq [of Y n "k - 1" "n - 1"]) auto
  then show ?thesis using True k \<open>0 < n\<close> by simp
next
  case False
  assume n: "0 < n"
  have "Y mod n + 1 \<noteq> n"
  proof
    assume "Y mod n + 1 = n"
    then have "Y + 1 = n * (Y div n + 1)" using mult_div_mod_eq [of n Y] unfolding distrib_left by linarith
    then show False using False by simp
  qed
  then have "Y mod n + 1 < n" using pos_mod_bound [OF n, of Y] by linarith
  moreover have "Y + 1 = n * (Y div n) + (Y mod n + 1)" by simp
  ultimately have "(Y + 1) div n = Y div n"
    using pos_mod_sign [OF n, of Y] by (intro int_div_pos_eq [of _ n _ "Y mod n + 1"]) linarith+
  then show ?thesis using False by simp
qed

lemma marchDays_step: "marchDays (Y + 1) = marchDays Y + 365 + (if isLeapYear (Y + 1) then 1 else 0)"
proof -
  have "400 dvd Y + 1 \<Longrightarrow> 100 dvd Y + 1" "100 dvd Y + 1 \<Longrightarrow> 4 dvd Y + 1"
    by (auto elim: dvd_trans [rotated])
  then show ?thesis by (auto simp: marchDays_def div_step leap_dvd)
qed

text \<open>Every day number lies in exactly one such year.\<close>

lemma march_exists: "\<exists>Y doy. okDoy Y doy \<and> z = marchDays Y + doy"
proof (induction z rule: int_induct [where k = "marchDays 0"])
  case base
  show ?case by (rule exI [of _ 0], rule exI [of _ 0]) (simp add: okDoy_def)
next
  case (step1 z)
  then obtain Y doy where z: "okDoy Y doy" "z = marchDays Y + doy" by auto
  show ?case
  proof (cases "okDoy Y (doy + 1)")
    case True
    then show ?thesis using z by (intro exI [of _ Y] exI [of _ "doy + 1"]) simp
  next
    case False
    then show ?thesis using z marchDays_step [of Y]
      by (intro exI [of _ "Y + 1"] exI [of _ 0]) (auto simp: okDoy_def split: if_splits)
  qed
next
  case (step2 z)
  then obtain Y doy where z: "okDoy Y doy" "z = marchDays Y + doy" by auto
  show ?case
  proof (cases "doy = 0")
    case True
    then show ?thesis using z marchDays_step [of "Y - 1"]
      by (intro exI [of _ "Y - 1"] exI [of _ "if isLeapYear Y then 365 else 364"]) (auto simp: okDoy_def)
  next
    case False
    then show ?thesis using z by (intro exI [of _ Y] exI [of _ "doy - 1"]) (auto simp: okDoy_def)
  qed
qed

section \<open>Reading a day number\<close>

lemma div_between: "0 < n \<Longrightarrow> n * (x div n) \<le> x \<and> x < n * (x div n) + n" for x n :: int
  using mult_div_mod_eq [of n x] pos_mod_bound [of n x] pos_mod_sign [of n x] by linarith

lemma monthStart_between: "5 * monthStart mp \<le> 153 * mp + 2 \<and> 153 * mp + 2 < 5 * monthStart mp + 5"
  unfolding monthStart_def by (rule div_between) simp

lemma monthStart_next: "doy < monthStart (mp + 1) \<longleftrightarrow> 5 * doy + 2 < 153 * mp + 153"
  using monthStart_between [of "mp + 1"] by auto

lemma march_month:
  assumes "0 \<le> doy" "doy \<le> 365"
  defines "mp \<equiv> (5 * doy + 2) div 153"
  shows "0 \<le> mp" "mp \<le> 11" "monthStart mp \<le> doy" "doy < monthStart (mp + 1)"
proof -
  have b: "153 * mp \<le> 5 * doy + 2" "5 * doy + 2 < 153 * mp + 153"
    using div_between [of 153 "5 * doy + 2"] unfolding mp_def by linarith+
  then show "0 \<le> mp" "mp \<le> 11" "monthStart mp \<le> doy"
    using assms(1,2) monthStart_between [of mp] by linarith+
  show "doy < monthStart (mp + 1)" using b(2) by (simp add: monthStart_next)
qed


text \<open>The century, the four-year group and the year within it of a day of the era.\<close>

lemma yoe_recover:
  assumes "0 \<le> c" "c \<le> 3" "0 \<le> q" "q \<le> 24" "0 \<le> r" "r \<le> 3" "0 \<le> doy" "doy \<le> 365"
    and last: "doy = 365 \<Longrightarrow> r = 3 \<and> (q \<noteq> 24 \<or> c = 3)"
  defines "doe \<equiv> 36524 * c + 1461 * q + 365 * r + (doy :: int)"
  shows "(doe - doe div 1460 + doe div 36524 - doe div 146096) div 365 = 100 * c + 4 * q + r"
    "0 \<le> doe" "doe \<le> 146096"
proof -
  show bounds: "0 \<le> doe" "doe \<le> 146096" using assms by (auto simp: doe_def)
  have cent: "doe div 36524 - doe div 146096 = c"
  proof (cases "doe = 146096")
    case True
    then have "c = 3" using assms by (simp add: doe_def)
    then show ?thesis using True by simp
  next
    case False
    have "1461 * q + 365 * r + doy < 36524" using False assms by (simp add: doe_def) linarith
    then have "doe div 36524 = c" using assms by (intro int_div_pos_eq [of _ _ _ "1461 * q + 365 * r + doy"]) (auto simp: doe_def)
    moreover have "doe div 146096 = 0" using bounds False by simp
    ultimately show ?thesis by simp
  qed
  define s where "s = 24 * c + q + 365 * r + doy"
  have s: "0 \<le> s" "s < 2920" using assms by (simp_all add: s_def)
  have "doe = s + (25 * c + q) * 1460" by (simp add: doe_def s_def)
  then have quad: "doe div 1460 = 25 * c + q + s div 1460" by (simp add: div_mult_self1)
  have e: "s div 1460 = (if s < 1460 then 0 else 1)" using s by auto
  have "0 \<le> doy - s div 1460 \<and> doy - s div 1460 < 365"
    using assms e by (cases "doy = 365") (auto simp: s_def)
  moreover have "doe - doe div 1460 + doe div 36524 - doe div 146096 = 365 * (100 * c + 4 * q + r) + (doy - s div 1460)"
    using cent quad by (simp add: doe_def)
  ultimately show "(doe - doe div 1460 + doe div 36524 - doe div 146096) div 365 = 100 * c + 4 * q + r"
    by (intro int_div_pos_eq) auto
qed

lemma leap_four: "isLeapYear y \<Longrightarrow> 4 dvd y"
  unfolding leap_dvd by (auto intro: dvd_trans [of 4 400])

lemma leap_last:
  assumes "0 \<le> c" "c \<le> 3" "0 \<le> q" "q \<le> 24" "0 \<le> r" "r \<le> 3" and leap: "isLeapYear (100 * c + 4 * q + r + 1)"
  shows "r = 3 \<and> (q \<noteq> 24 \<or> c = 3)"
proof -
  have "4 dvd 4 * (25 * c + q) + (r + 1)" using leap_four [OF leap] by (simp add: algebra_simps)
  then have "4 dvd r + 1" by (simp only: dvd_add_right_iff dvd_triv_left)
  then have r: "r = 3" using zdvd_imp_le [of 4 "r + 1"] assms by simp
  moreover have "c = 3" if "q = 24"
  proof -
    have y: "100 * c + 4 * q + r + 1 = 100 * (c + 1)" using r that by simp
    have "400 dvd 100 * (c + 1)" using leap unfolding y leap_dvd by simp
    then have "100 * 4 dvd 100 * (c + 1)" by simp
    then have "4 dvd c + 1" by (simp only: dvd_mult_cancel_left) simp
    then show ?thesis using zdvd_imp_le [of 4 "c + 1"] assms by simp
  qed
  ultimately show ?thesis by blast
qed

text \<open>The same for a year of the era.\<close>

lemma doe_recover:
  assumes yoe: "0 \<le> yoe" "yoe < 400" and doy: "0 \<le> doy" "doy \<le> 365"
    and last: "doy = 365 \<Longrightarrow> isLeapYear (yoe + 1)"
  defines "doe \<equiv> yoe * 365 + yoe div 4 - yoe div 100 + doy"
  shows "(doe - doe div 1460 + doe div 36524 - doe div 146096) div 365 = yoe" "0 \<le> doe" "doe \<le> 146096"
proof -
  define c where "c = yoe div 100"
  define q where "q = yoe mod 100 div 4"
  define r where "r = yoe mod 100 mod 4"
  have m: "yoe mod 100 = 4 * q + r" by (simp add: q_def r_def)
  then have y: "yoe = 100 * c + 4 * q + r" using mult_div_mod_eq [of 100 yoe] by (simp only: c_def)
  have r: "0 \<le> r" "r \<le> 3" using pos_mod_bound [of 4 "yoe mod 100"] by (simp_all add: r_def)
  have q: "0 \<le> q" "q \<le> 24" using pos_mod_bound [of 100 yoe] pos_mod_sign [of 100 yoe] m r by linarith+
  have c: "0 \<le> c" "c \<le> 3" using yoe y q r by linarith+
  have "yoe div 4 = 25 * c + q" using y r by (intro int_div_pos_eq [of _ _ _ r]) auto
  then have doe: "doe = 36524 * c + 1461 * q + 365 * r + doy"
    unfolding doe_def c_def [symmetric] using y by linarith
  have "r = 3 \<and> (q \<noteq> 24 \<or> c = 3)" if "doy = 365"
    using leap_last [OF c q r] last [OF that] y by simp
  from yoe_recover [OF c q r doy this] show "(doe - doe div 1460 + doe div 36524 - doe div 146096) div 365 = yoe"
    "0 \<le> doe" "doe \<le> 146096" unfolding doe y by simp_all
qed

lemma leap_era: "isLeapYear (Y mod 400 + 1) \<longleftrightarrow> isLeapYear (Y + 1)"
proof -
  have "Y + 1 = (Y mod 400 + 1) + 400 * (Y div 400)" by simp
  then have "n dvd Y + 1 \<longleftrightarrow> n dvd Y mod 400 + 1" if "n dvd 400" for n
    using that by (metis dvd_add_left_iff dvd_mult2)
  then show ?thesis by (simp add: leap_dvd)
qed

lemma civilFromDays_formula:
  assumes "okDoy Y doy"
  defines "mp \<equiv> (5 * doy + 2) div 153"
  defines "m \<equiv> if mp < 10 then mp + 3 else mp - 9"
  shows "civilFromDays (marchDays Y + doy) = (s32 (Y + (if m \<le> 2 then 1 else 0)), m, doy - monthStart mp + 1)"
proof -
  define e where "e = Y div 400"
  define yoe where "yoe = Y mod 400"
  define doe where "doe = yoe * 365 + yoe div 4 - yoe div 100 + doy"
  have yoe: "0 \<le> yoe" "yoe < 400" by (simp_all add: yoe_def)
  have doy: "0 \<le> doy" "doy \<le> 365" using assms(1) by (auto simp: okDoy_def)
  have "isLeapYear (yoe + 1)" if "doy = 365" using assms(1) that by (simp add: okDoy_def yoe_def leap_era)
  from doe_recover [OF yoe doy this] have doe: "(doe - doe div 1460 + doe div 36524 - doe div 146096) div 365 = yoe"
    "0 \<le> doe" "doe \<le> 146096" by (simp_all add: doe_def)
  have mp: "0 \<le> mp" "mp \<le> 11" "monthStart mp \<le> doy" unfolding mp_def by (rule march_month [OF doy])+
  have z: "marchDays Y + doy + 719468 = doe + e * 146097"
    using era_split [of Y] by (simp add: doe_def e_def yoe_def)
  have 1: "(if doe + e * 146097 \<ge> 0 then doe + e * 146097 else doe + e * 146097 - 146096) sdiv 146097 = e"
    by (subst floor_sdiv) (use doe in \<open>auto\<close>)
  have 2: "uns (doe + e * 146097 - e * 146097) = doe" using doe by (simp add: uns_id)
  have 3: "uns (doe - doe div 1460 + doe div 36524 - doe div 146096) = doe - doe div 1460 + doe div 36524 - doe div 146096"
    using doe by (intro uns_id) auto
  have 4: "uns (doe - (365 * yoe + yoe div 4 - yoe div 100)) = doy" using doy by (simp add: doe_def uns_id)
  have 5: "uns (5 * doy + 2) div 153 = mp" using doy by (simp add: uns_id mp_def)
  have 6: "uns (153 * mp + 2) div 5 = monthStart mp" using mp by (simp add: uns_id monthStart_def)
  have 7: "uns (doy - monthStart mp + 1) = doy - monthStart mp + 1"
    using mp doy monthStart_between [of mp] by (intro uns_id) linarith+
  have 8: "(if mp < 10 then uns (mp + 3) else uns (mp - 9)) = m" using mp by (simp add: m_def uns_id)
  show ?thesis
    unfolding civilFromDays_def Let_def z 1 2 3 doe(1) 4 5 6 7 8 by (simp add: e_def yoe_def)
qed

section \<open>Months\<close>

lemma month_cases:
  "1 \<le> m \<Longrightarrow> m \<le> 12 \<Longrightarrow>
     m = 1 \<or> m = 2 \<or> m = 3 \<or> m = 4 \<or> m = 5 \<or> m = 6 \<or> m = 7 \<or> m = 8 \<or> m = 9 \<or> m = 10 \<or> m = 11 \<or> m = (12 :: int)"
proof -
  assume "1 \<le> m" "m \<le> 12"
  then have "m \<in> set [1..12]" by simp
  then show ?thesis by (simp add: upto_rec1 del: set_upto)
qed

text \<open>Away from February a month is as long as the distance to the next one.\<close>

lemma month_length:
  assumes "1 \<le> m" "m \<le> 12" "m \<noteq> 2"
  shows "monthStart (marchMonth m + 1) = monthStart (marchMonth m) + daysInMonth y m"
  using month_cases [OF assms(1,2)] assms(3) by (auto simp: marchMonth_def monthStart_def daysInMonth_def)

lemma february: "daysInMonth y 2 = (if isLeapYear y then 29 else 28)" "marchMonth 2 = 11" "monthStart 11 = 337" "monthStart 12 = 367"
  by (auto simp: daysInMonth_def marchMonth_def monthStart_def)

lemma month_bounds: "1 \<le> m \<Longrightarrow> m \<le> 12 \<Longrightarrow> 28 \<le> daysInMonth y m \<and> daysInMonth y m \<le> 31"
  using month_cases [of m] by (auto simp: daysInMonth_def)




section \<open>Day numbers are dates\<close>

lemma days_of_civil:
  assumes ok: "okDoy Y doy" and Y: "- 2147483648 \<le> Y" "Y < 2147483647"
    and civil: "civilFromDays (marchDays Y + doy) = (y, m, d)"
  shows "1 \<le> m \<and> m \<le> 12 \<and> 1 \<le> d \<and> d \<le> daysInMonth y m \<and> daysFromCivil y m d = marchDays Y + doy"
proof -
  define mp where "mp = (5 * doy + 2) div 153"
  have doy: "0 \<le> doy" "doy \<le> 365" using ok by (auto simp: okDoy_def)
  have mp: "0 \<le> mp" "mp \<le> 11" "monthStart mp \<le> doy" "doy < monthStart (mp + 1)"
    unfolding mp_def by (rule march_month [OF doy])+
  have m: "m = (if mp < 10 then mp + 3 else mp - 9)" and d: "d = doy - monthStart mp + 1"
    and y: "y = s32 (Y + (if m \<le> 2 then 1 else 0))"
    using civilFromDays_formula [OF ok] civil by (auto simp: mp_def)
  have y: "y = Y + (if m \<le> 2 then 1 else 0)" unfolding y by (rule s32_id) (use Y in \<open>auto\<close>)
  have r: "1 \<le> m" "m \<le> 12" "marchMonth m = mp" "marchYear y m = Y" "1 \<le> d"
    using mp m d y by (auto simp: marchMonth_def marchYear_def)
  have "d \<le> daysInMonth y m"
  proof (cases "m = 2")
    case True
    then have "mp = 11" "y = Y + 1" using r(3) y by (auto simp: february)
    then show ?thesis using True ok by (auto simp: okDoy_def february d)
  next
    case False
    then show ?thesis using month_length [OF r(1,2) False, of y] mp d r(3) by simp
  qed
  moreover from this have "d \<le> 31" using month_bounds [OF r(1,2), of y] by linarith
  ultimately show ?thesis using daysFromCivil_formula [OF r(1,2) r(5), of y] r d by simp
qed

lemma year_range:
  assumes "okDoy Y doy" "- 549755813888 \<le> marchDays Y + doy" "marchDays Y + doy \<le> 549755813888"
  shows "- 2147483648 \<le> Y" "Y < 2147483647"
  using assms div_between [of 4 Y] div_between [of 100 Y] div_between [of 400 Y]
  unfolding marchDays_def okDoy_def by linarith+

section \<open>Counting year by year\<close>

lemma march_sum: "a \<le> b \<Longrightarrow> sum_list (map yearLength [a..b - 1]) = marchDays (b - 1) - marchDays (a - 1)"
proof (induction b rule: int_ge_induct)
  case (step b)
  then have "[a..b + 1 - 1] = [a..b - 1] @ [b]" using upto_rec2 [of a b] by simp
  then show ?case using step marchDays_step [of "b - 1"] by (simp add: yearLength_def)
qed simp

lemma timegm_is_civil:
  assumes "0 \<le> tm_mon utc" "tm_mon utc \<le> 11" "1 \<le> tm_mday utc" "tm_mday utc \<le> 31"
  shows "timegmUtc utc = daysFromCivil (tm_year utc + 1900) (tm_mon utc + 1) (tm_mday utc) * 86400
    + tm_hour utc * 3600 + tm_min utc * 60 + tm_sec utc"
proof -
  define y where "y = tm_year utc + 1900"
  define m where "m = tm_mon utc + 1"
  have mon: "tm_mon utc = m - 1" by (simp add: m_def)
  have "(if y \<ge> 1970 then sum_list (map yearLength [1970..y - 1]) else - sum_list (map yearLength [y..1969]))
      = marchDays (y - 1) + 306"
    using march_sum [of 1970 y] march_sum [of y 1970] by (simp add: marchDays_def)
  moreover have "marchDays (marchYear y m) + monthStart (marchMonth m) = marchDays (y - 1) + 306
      + [0, 31, 59, 90, 120, 151, 181, 212, 243, 273, 304, 334] ! nat (m - 1) + (if m - 1 > 1 \<and> isLeapYear y then 1 else 0)"
    using month_cases [of m] assms(1,2) marchDays_step [of "y - 1"]
    by (auto simp: mon marchYear_def marchMonth_def monthStart_def)
  moreover have "daysFromCivil y m (tm_mday utc) = marchDays (marchYear y m) + monthStart (marchMonth m) + tm_mday utc - 1"
    using assms by (intro daysFromCivil_formula) (auto simp: m_def)
  ultimately show ?thesis
    using assms(1,2) unfolding timegmUtc_def Let_def y_def [symmetric] m_def [symmetric] mon by simp
qed

section \<open>Properties\<close>

text \<open>
  C29. Day numbers and civil dates correspond one to one: for every day number within
  \<open>2 ^ 39\<close> days of the epoch, \<open>civilFromDays\<close> gives a month from 1 to 12 and a day that exists in
  that month of that year, and \<open>daysFromCivil\<close> leads back to the day number.
\<close>

theorem civil_bijection:
  assumes "- 549755813888 \<le> z" "z \<le> 549755813888"
  shows "case civilFromDays z of (y, m, d) \<Rightarrow>
    1 \<le> m \<and> m \<le> 12 \<and> 1 \<le> d \<and> d \<le> daysInMonth y m \<and> daysFromCivil y m d = z"
proof -
  obtain Y doy where z: "okDoy Y doy" "z = marchDays Y + doy" using march_exists by blast
  then show ?thesis using days_of_civil [OF z(1) year_range [OF z(1)]] assms by (auto split: prod.split)
qed

theorem civil_bijection_witness:
  "civilFromDays 19782 = (2024, 2, 29) \<and> daysFromCivil 2024 2 29 = 19782"
proof -
  have "civilFromDays 19782 = (2024, 2, 29)" by code_simp
  then show ?thesis using civil_bijection [of 19782] by simp
qed



end
