(* ===== verification/Msgpack.thy ===== *)
theory Msgpack
  imports Bytes_IO Std_Map "HOL-Library.List_Lexorder"
begin

unbundle bit_operations_syntax

text \<open>
  The MessagePack streams of \<open>msgpack.cpp\<close> and the container templates of \<open>msgpack.h\<close>, on the
  in-memory device.  Lengths and positions are natural numbers; integers of the C++ types are
  integers in the range of the type; a \<open>float\<close> or \<open>double\<close> is the word of its bits, which is
  all the code moves.  An operator \<open>>>\<close> takes the old value of its reference argument and
  returns the new one.
\<close>

section \<open>Streams\<close>

datatype MsgStatus = MpOk | MpReadPastEnd | MpReadCorruptData | MpWriteFailed

record MsgPackStream =
  mp_dev :: BytesIO
  mp_status :: MsgStatus
  mp_limit :: nat
  mp_pos :: nat
  mp_hasPeekByte :: bool
  mp_peekByteCache :: byte

definition mp_writeStream :: MsgPackStream where
  "mp_writeStream =
     \<lparr> mp_dev = \<lparr> bio_buf = [], bio_pos = 0 \<rparr>, mp_status = MpOk, mp_limit = 2 ^ 32 - 1, mp_pos = 0,
       mp_hasPeekByte = False, mp_peekByteCache = 0 \<rparr>"

definition mp_readStream :: "bytes \<Rightarrow> MsgPackStream" where
  "mp_readStream a =
     \<lparr> mp_dev = \<lparr> bio_buf = a, bio_pos = 0 \<rparr>, mp_status = MpOk, mp_limit = length a mod 2 ^ 32, mp_pos = 0,
       mp_hasPeekByte = False, mp_peekByteCache = 0 \<rparr>"

text \<open>A member function that returns \<open>bool\<close>: its result, if it returned \<open>true\<close>, and the stream.\<close>

type_synonym 'a mpr = "'a option \<times> MsgPackStream"

definition mp_bind :: "'a mpr \<Rightarrow> ('a \<Rightarrow> MsgPackStream \<Rightarrow> 'b mpr) \<Rightarrow> 'b mpr" where
  "mp_bind r k = (case r of (None, s) \<Rightarrow> (None, s) | (Some v, s) \<Rightarrow> k v s)"

definition mp_fail :: "MsgStatus \<Rightarrow> MsgPackStream \<Rightarrow> 'a mpr" where
  "mp_fail st s = (None, s\<lparr> mp_status := st \<rparr>)"

definition mp_atEnd :: "MsgPackStream \<Rightarrow> bool" where
  "mp_atEnd s \<longleftrightarrow> mp_pos s \<ge> mp_limit s"

section \<open>Reading\<close>

definition mp_readRawBytes :: "nat \<Rightarrow> MsgPackStream \<Rightarrow> bytes mpr" where
  "mp_readRawBytes n s =
     (if mp_status s \<noteq> MpOk then (None, s)
      else if mp_pos s + n > mp_limit s then mp_fail MpReadPastEnd s
      else
        let (pre, s) = (if mp_hasPeekByte s \<and> n > 0 then ([mp_peekByteCache s], s\<lparr> mp_hasPeekByte := False \<rparr>) else ([], s))
        in case readLoop (mp_dev s) (n - length pre) False of
             (None, d) \<Rightarrow> mp_fail MpReadPastEnd (s\<lparr> mp_dev := d \<rparr>)
           | (Some bs, d) \<Rightarrow> (Some (pre @ bs), s\<lparr> mp_dev := d, mp_pos := mp_pos s + n \<rparr>))"

definition mp_ensurePeekCached :: "MsgPackStream \<Rightarrow> bool \<times> MsgPackStream" where
  "mp_ensurePeekCached s =
     (if mp_hasPeekByte s then (True, s)
      else if mp_status s \<noteq> MpOk then (False, s)
      else if mp_pos s \<ge> mp_limit s then (False, s)
      else case readLoop (mp_dev s) 1 False of
          (None, d) \<Rightarrow> (False, s\<lparr> mp_dev := d, mp_status := MpReadPastEnd \<rparr>)
        | (Some bs, d) \<Rightarrow> (True, s\<lparr> mp_dev := d, mp_peekByteCache := hd bs, mp_hasPeekByte := True \<rparr>))"

definition mp_peekByte :: "MsgPackStream \<Rightarrow> byte mpr" where
  "mp_peekByte s = (let (ok, s) = mp_ensurePeekCached s in (if ok then Some (mp_peekByteCache s) else None, s))"

definition lengthFitsRemaining :: "nat \<Rightarrow> nat \<Rightarrow> nat \<Rightarrow> bool" where
  "lengthFitsRemaining len pos limit \<longleftrightarrow> \<not> len > 2 ^ 31 - 1 \<and> pos \<le> limit \<and> len \<le> limit - pos"

text \<open>\<open>_msgpack_load16\<close>, \<open>_msgpack_load32\<close> and \<open>_msgpack_load64\<close>.\<close>

definition mp_load :: "bytes \<Rightarrow> nat" where
  "mp_load p = unat (be_val p)"

text \<open>
  \<open>readArrayHeader\<close> and \<open>readMapHeader\<close>, which differ in the first bytes they accept.
\<close>

definition mp_readCount :: "byte \<Rightarrow> byte \<Rightarrow> byte \<Rightarrow> MsgPackStream \<Rightarrow> nat mpr" where
  "mp_readCount fx c16 c32 s =
     mp_bind (mp_readRawBytes 1 s) (\<lambda>p s.
     mp_bind (if hd p \<ge> fx \<and> hd p \<le> fx + 0xf then (Some (unat (hd p AND 0xf)), s)
              else if hd p = c16 then mp_bind (mp_readRawBytes 2 s) (\<lambda>p s. (Some (mp_load p), s))
              else if hd p = c32 then mp_bind (mp_readRawBytes 4 s) (\<lambda>p s. (Some (mp_load p), s))
              else mp_fail MpReadCorruptData s) (\<lambda>len s.
     if \<not> lengthFitsRemaining len (mp_pos s) (mp_limit s) then mp_fail MpReadCorruptData s
     else (Some len, s)))"

definition mp_readArrayHeader :: "MsgPackStream \<Rightarrow> nat mpr" where
  "mp_readArrayHeader s = mp_readCount 0x90 0xdc 0xdd s"

definition mp_readMapHeader :: "MsgPackStream \<Rightarrow> nat mpr" where
  "mp_readMapHeader s = mp_readCount 0x80 0xde 0xdf s"

definition mp_readExtHeader :: "MsgPackStream \<Rightarrow> (nat \<times> byte) mpr" where
  "mp_readExtHeader s =
     (if mp_status s \<noteq> MpOk then (None, s)
      else
        mp_bind (mp_readRawBytes 1 s) (\<lambda>p s.
        mp_bind (if 0xd4 \<le> hd p \<and> hd p \<le> 0xd8 then
                   mp_bind (mp_readRawBytes 1 s) (\<lambda>t s. (Some (2 ^ unat (hd p - 0xd4), hd t), s))
                 else if hd p = 0xc7 then
                   mp_bind (mp_readRawBytes 1 s) (\<lambda>l s. mp_bind (mp_readRawBytes 1 s) (\<lambda>t s. (Some (unat (hd l), hd t), s)))
                 else if hd p = 0xc8 then
                   mp_bind (mp_readRawBytes 2 s) (\<lambda>l s. mp_bind (mp_readRawBytes 1 s) (\<lambda>t s. (Some (mp_load l, hd t), s)))
                 else if hd p = 0xc9 then
                   mp_bind (mp_readRawBytes 4 s) (\<lambda>l s. mp_bind (mp_readRawBytes 1 s) (\<lambda>t s. (Some (mp_load l, hd t), s)))
                 else mp_fail MpReadCorruptData s) (\<lambda>(len, t) s.
        if \<not> lengthFitsRemaining len (mp_pos s) (mp_limit s) then mp_fail MpReadCorruptData s
        else (Some (len, t), s))))"

definition unpack_longlong :: "MsgPackStream \<Rightarrow> int mpr" where
  "unpack_longlong s =
     mp_bind (mp_readRawBytes 1 s) (\<lambda>p s. let c = hd p in
       if c \<le> 0x7f then (Some (uint c), s)
       else if c \<ge> 0xe0 then (Some (sint c), s)
       else if c = 0xcc then mp_bind (mp_readRawBytes 1 s) (\<lambda>p s. (Some (uint (hd p)), s))
       else if c = 0xd0 then mp_bind (mp_readRawBytes 1 s) (\<lambda>p s. (Some (sint (hd p)), s))
       else if c = 0xcd then mp_bind (mp_readRawBytes 2 s) (\<lambda>p s. (Some (int (mp_load p)), s))
       else if c = 0xd1 then mp_bind (mp_readRawBytes 2 s) (\<lambda>p s. (Some (sint (word_of_nat (mp_load p) :: 16 word)), s))
       else if c = 0xce then mp_bind (mp_readRawBytes 4 s) (\<lambda>p s. (Some (int (mp_load p)), s))
       else if c = 0xd2 then mp_bind (mp_readRawBytes 4 s) (\<lambda>p s. (Some (sint (word_of_nat (mp_load p) :: 32 word)), s))
       else if c = 0xcf then mp_bind (mp_readRawBytes 8 s) (\<lambda>p s.
         if int (mp_load p) > 2 ^ 63 - 1 then mp_fail MpReadCorruptData s else (Some (int (mp_load p)), s))
       else if c = 0xd3 then mp_bind (mp_readRawBytes 8 s) (\<lambda>p s. (Some (sint (word_of_nat (mp_load p) :: 64 word)), s))
       else mp_fail MpReadCorruptData s)"

text \<open>The last step of the signed cases of \<open>unpack_ulonglong\<close>.\<close>

definition mp_nonneg :: "int \<Rightarrow> MsgPackStream \<Rightarrow> int mpr" where
  "mp_nonneg i s = (if i < 0 then mp_fail MpReadCorruptData s else (Some i, s))"

definition unpack_ulonglong :: "MsgPackStream \<Rightarrow> int mpr" where
  "unpack_ulonglong s =
     mp_bind (mp_readRawBytes 1 s) (\<lambda>p s. let c = hd p in
       if c \<le> 0x7f then (Some (uint c), s)
       else if c \<ge> 0xe0 then mp_fail MpReadCorruptData s
       else if c = 0xcc then mp_bind (mp_readRawBytes 1 s) (\<lambda>p s. (Some (uint (hd p)), s))
       else if c = 0xd0 then mp_bind (mp_readRawBytes 1 s) (\<lambda>p s. mp_nonneg (sint (hd p)) s)
       else if c = 0xcd then mp_bind (mp_readRawBytes 2 s) (\<lambda>p s. (Some (int (mp_load p)), s))
       else if c = 0xd1 then mp_bind (mp_readRawBytes 2 s) (\<lambda>p s. mp_nonneg (sint (word_of_nat (mp_load p) :: 16 word)) s)
       else if c = 0xce then mp_bind (mp_readRawBytes 4 s) (\<lambda>p s. (Some (int (mp_load p)), s))
       else if c = 0xd2 then mp_bind (mp_readRawBytes 4 s) (\<lambda>p s. mp_nonneg (sint (word_of_nat (mp_load p) :: 32 word)) s)
       else if c = 0xcf then mp_bind (mp_readRawBytes 8 s) (\<lambda>p s. (Some (int (mp_load p)), s))
       else if c = 0xd3 then mp_bind (mp_readRawBytes 8 s) (\<lambda>p s. mp_nonneg (sint (word_of_nat (mp_load p) :: 64 word)) s)
       else mp_fail MpReadCorruptData s)"

definition mp_readPayload :: "nat \<Rightarrow> MsgPackStream \<Rightarrow> bytes mpr" where
  "mp_readPayload len s =
     (if \<not> lengthFitsRemaining len (mp_pos s) (mp_limit s) then mp_fail MpReadCorruptData s
      else if len > 0 then mp_readRawBytes len s else (Some [], s))"

definition mp_unpackString :: "MsgPackStream \<Rightarrow> bytes mpr" where
  "mp_unpackString s =
     mp_bind (mp_readRawBytes 1 s) (\<lambda>p s. let c = hd p in
       if c \<ge> 0xa0 \<and> c \<le> 0xa0 + 0x1f then mp_readPayload (unat (c - 0xa0)) s
       else if c = 0xd9 then mp_bind (mp_readRawBytes 1 s) (\<lambda>p s. mp_readPayload (unat (hd p)) s)
       else if c = 0xda then mp_bind (mp_readRawBytes 2 s) (\<lambda>p s. mp_readPayload (mp_load p) s)
       else if c = 0xdb then mp_bind (mp_readRawBytes 4 s) (\<lambda>p s. mp_readPayload (mp_load p) s)
       else mp_fail MpReadCorruptData s)"

definition mp_unpackBin :: "MsgPackStream \<Rightarrow> bytes mpr" where
  "mp_unpackBin s =
     mp_bind (mp_readRawBytes 1 s) (\<lambda>p s. let c = hd p in
       if c = 0xc4 then mp_bind (mp_readRawBytes 1 s) (\<lambda>p s. mp_readPayload (unat (hd p)) s)
       else if c = 0xc5 then mp_bind (mp_readRawBytes 2 s) (\<lambda>p s. mp_readPayload (mp_load p) s)
       else if c = 0xc6 then mp_bind (mp_readRawBytes 4 s) (\<lambda>p s. mp_readPayload (mp_load p) s)
       else mp_fail MpReadCorruptData s)"

section \<open>The reading operators\<close>

definition mp_into :: "(MsgPackStream \<Rightarrow> 'a mpr) \<Rightarrow> 'a \<Rightarrow> MsgPackStream \<Rightarrow> 'a \<times> MsgPackStream" where
  "mp_into rd old s =
     (if mp_status s \<noteq> MpOk then (old, s)
      else case rd s of (None, s) \<Rightarrow> (old, s) | (Some v, s) \<Rightarrow> (v, s))"

definition mp_getBool :: "bool \<Rightarrow> MsgPackStream \<Rightarrow> bool \<times> MsgPackStream" where
  "mp_getBool old s =
     (if mp_status s \<noteq> MpOk then (old, s)
      else case mp_readRawBytes 1 s of
          (None, s) \<Rightarrow> (False, s\<lparr> mp_status := MpReadPastEnd \<rparr>)
        | (Some p, s) \<Rightarrow>
            if hd p = 0xc3 then (True, s)
            else if hd p = 0xc2 then (False, s)
            else (old, s\<lparr> mp_status := MpReadCorruptData \<rparr>))"

text \<open>The unsigned and signed integers of \<open>w\<close> bits; the test is vacuous for 64.\<close>

definition mp_getUInt :: "nat \<Rightarrow> int \<Rightarrow> MsgPackStream \<Rightarrow> int \<times> MsgPackStream" where
  "mp_getUInt w old s =
     mp_into (\<lambda>s. mp_bind (unpack_ulonglong s) (\<lambda>u s. if u \<le> 2 ^ w - 1 then (Some u, s) else mp_fail MpReadCorruptData s)) old s"

definition mp_getInt :: "nat \<Rightarrow> int \<Rightarrow> MsgPackStream \<Rightarrow> int \<times> MsgPackStream" where
  "mp_getInt w old s =
     mp_into (\<lambda>s. mp_bind (unpack_longlong s) (\<lambda>i s.
       if - (2 ^ (w - 1)) \<le> i \<and> i \<le> 2 ^ (w - 1) - 1 then (Some i, s) else mp_fail MpReadCorruptData s)) old s"

definition mp_getFloat :: "u32 \<Rightarrow> MsgPackStream \<Rightarrow> u32 \<times> MsgPackStream" where
  "mp_getFloat old s =
     mp_into (\<lambda>s. mp_bind (mp_readRawBytes 1 s) (\<lambda>p s.
       if hd p \<noteq> 0xca then mp_fail MpReadCorruptData s
       else mp_bind (mp_readRawBytes 4 s) (\<lambda>p s. (Some (word_of_nat (mp_load p)), s)))) old s"

definition mp_getDouble :: "u64 \<Rightarrow> MsgPackStream \<Rightarrow> u64 \<times> MsgPackStream" where
  "mp_getDouble old s =
     mp_into (\<lambda>s. mp_bind (mp_readRawBytes 1 s) (\<lambda>p s.
       if hd p \<noteq> 0xcb then mp_fail MpReadCorruptData s
       else mp_bind (mp_readRawBytes 8 s) (\<lambda>p s. (Some (word_of_nat (mp_load p)), s)))) old s"

text \<open>\<open>readString\<close> and \<open>readBytes\<close>.\<close>

definition mp_getString :: "bytes \<Rightarrow> MsgPackStream \<Rightarrow> bytes \<times> MsgPackStream" where
  "mp_getString old s = (case mp_unpackString s of (None, s) \<Rightarrow> (old, s) | (Some v, s) \<Rightarrow> (v, s))"

definition mp_getBytes :: "bytes \<Rightarrow> MsgPackStream \<Rightarrow> bytes \<times> MsgPackStream" where
  "mp_getBytes old s = (case mp_unpackBin s of (None, s) \<Rightarrow> (old, s) | (Some v, s) \<Rightarrow> (v, s))"

record MsgPackExtData =
  ext_type :: byte
  ext_payload :: bytes

definition mp_getExt :: "MsgPackExtData \<Rightarrow> MsgPackStream \<Rightarrow> MsgPackExtData \<times> MsgPackStream" where
  "mp_getExt ext s =
     (case mp_readExtHeader s of
        (None, s) \<Rightarrow> (ext, s)
      | (Some (len, t), s) \<Rightarrow>
          let ext = ext\<lparr> ext_type := t \<rparr> in
          if len > 0 then
            (case mp_readRawBytes len s of
               (None, s) \<Rightarrow> (ext, s)
             | (Some payload, s) \<Rightarrow> (ext\<lparr> ext_payload := payload \<rparr>, s))
          else (ext\<lparr> ext_payload := [] \<rparr>, s))"

text \<open>
  A timestamp as milliseconds since the epoch, \<open>None\<close> for the invalid \<open>DateTime\<close>.  The
  multiplication wraps at 64 bits.
\<close>

definition unpackDatetime :: "bytes \<Rightarrow> int" where
  "unpackDatetime bs =
     (let (seconds, nanoseconds) =
        (if length bs = 4 then (be_val bs, 0)
         else if length bs = 8 then (be_val bs AND 0x3ffffffff, drop_bit 34 (be_val bs))
         else (be_val (drop 4 bs), be_val (take 4 bs)))
      in sint (seconds * 1000 + nanoseconds div 1000000 :: u64))"

definition mp_getDateTime :: "int option \<Rightarrow> MsgPackStream \<Rightarrow> int option \<times> MsgPackStream" where
  "mp_getDateTime old s =
     (if mp_status s \<noteq> MpOk then (old, s)
      else case mp_readExtHeader s of
          (None, s) \<Rightarrow> (None, s\<lparr> mp_status := MpReadCorruptData \<rparr>)
        | (Some (len, t), s) \<Rightarrow>
            if t \<noteq> 0xff then (None, s\<lparr> mp_status := MpReadCorruptData \<rparr>)
            else
              let s = (if len \<noteq> 4 \<and> len \<noteq> 8 \<and> len \<noteq> 12 then s\<lparr> mp_status := MpReadCorruptData \<rparr> else s)
              in case mp_readRawBytes len s of
                   (None, s) \<Rightarrow> (None, s)
                 | (Some p, s) \<Rightarrow> (Some (unpackDatetime p), s))"

section \<open>Writing\<close>

definition mp_writeRawBytes :: "bytes \<Rightarrow> MsgPackStream \<Rightarrow> bool \<times> MsgPackStream" where
  "mp_writeRawBytes bs s =
     (if mp_status s \<noteq> MpOk then (False, s)
      else (True, s\<lparr> mp_dev := (if bs = [] then mp_dev s else bio_write (mp_dev s) bs) \<rparr>))"

text \<open>An operator \<open><<\<close>: nothing happens unless the status is good.\<close>

definition mp_put :: "bytes \<Rightarrow> MsgPackStream \<Rightarrow> MsgPackStream" where
  "mp_put bs s = (if mp_status s \<noteq> MpOk then s else snd (mp_writeRawBytes bs s))"

text \<open>\<open>_msgpack_store16\<close>, \<open>_msgpack_store32\<close> and \<open>_msgpack_store64\<close>.\<close>

definition mp_store :: "nat \<Rightarrow> int \<Rightarrow> bytes" where
  "mp_store n v = be_bytes n (word_of_int v)"

text \<open>\<open>writeArrayHeader\<close> and \<open>writeMapHeader\<close>.\<close>

definition mp_countBytes :: "byte \<Rightarrow> byte \<Rightarrow> byte \<Rightarrow> nat \<Rightarrow> bytes" where
  "mp_countBytes fx c16 c32 len =
     (if len \<le> 15 then [fx OR word_of_nat len]
      else if len \<le> 65535 then c16 # mp_store 2 (int len)
      else c32 # mp_store 4 (int len))"

definition mp_writeArrayHeader :: "nat \<Rightarrow> MsgPackStream \<Rightarrow> bool \<times> MsgPackStream" where
  "mp_writeArrayHeader len s =
     (let s = snd (mp_writeRawBytes (mp_countBytes 0x90 0xdc 0xdd len) s) in (mp_status s = MpOk, s))"

definition mp_writeMapHeader :: "nat \<Rightarrow> MsgPackStream \<Rightarrow> bool \<times> MsgPackStream" where
  "mp_writeMapHeader len s =
     (let s = snd (mp_writeRawBytes (mp_countBytes 0x80 0xde 0xdf len) s) in (mp_status s = MpOk, s))"

definition mp_writeExtHeader :: "nat \<Rightarrow> byte \<Rightarrow> MsgPackStream \<Rightarrow> bool \<times> MsgPackStream" where
  "mp_writeExtHeader len t s =
     (if mp_status s \<noteq> MpOk then (False, s)
      else mp_writeRawBytes
        (if len = 1 then [0xd4, t] else if len = 2 then [0xd5, t] else if len = 4 then [0xd6, t]
         else if len = 8 then [0xd7, t] else if len = 16 then [0xd8, t]
         else if len \<le> 255 then [0xc7, word_of_nat len, t]
         else if len \<le> 65535 then 0xc8 # mp_store 2 (int len) @ [t]
         else 0xc9 # mp_store 4 (int len) @ [t]) s)"

definition mp_putBool :: "bool \<Rightarrow> MsgPackStream \<Rightarrow> MsgPackStream" where
  "mp_putBool b s = mp_put [if b then 0xc3 else 0xc2] s"

definition mp_putUInt8 :: "int \<Rightarrow> MsgPackStream \<Rightarrow> MsgPackStream" where
  "mp_putUInt8 u s = mp_put (if u \<le> 0x7f then [word_of_int u] else [0xcc, word_of_int u]) s"

definition mp_putUInt16 :: "int \<Rightarrow> MsgPackStream \<Rightarrow> MsgPackStream" where
  "mp_putUInt16 u s = (if u \<le> 255 then mp_putUInt8 u s else mp_put (0xcd # mp_store 2 u) s)"

definition mp_putUInt32 :: "int \<Rightarrow> MsgPackStream \<Rightarrow> MsgPackStream" where
  "mp_putUInt32 u s = (if u \<le> 65535 then mp_putUInt16 u s else mp_put (0xce # mp_store 4 u) s)"

definition mp_putUInt64 :: "int \<Rightarrow> MsgPackStream \<Rightarrow> MsgPackStream" where
  "mp_putUInt64 u s = (if u \<le> 4294967295 then mp_putUInt32 u s else mp_put (0xcf # mp_store 8 u) s)"

definition mp_putInt8 :: "int \<Rightarrow> MsgPackStream \<Rightarrow> MsgPackStream" where
  "mp_putInt8 i s =
     mp_put (if - 32 \<le> i then [word_of_int i] else [if i > 0 then 0xcc else 0xd0, word_of_int i]) s"

definition mp_putInt16 :: "int \<Rightarrow> MsgPackStream \<Rightarrow> MsgPackStream" where
  "mp_putInt16 i s =
     (if - 128 \<le> i \<and> i \<le> 127 then mp_putInt8 i s
      else if 127 \<le> i \<and> i \<le> 255 then mp_put [0xcc, word_of_int i] s
      else mp_put ((if i > 0 then 0xcd else 0xd1) # mp_store 2 i) s)"

definition mp_putInt32 :: "int \<Rightarrow> MsgPackStream \<Rightarrow> MsgPackStream" where
  "mp_putInt32 i s =
     (if - 32768 \<le> i \<and> i \<le> 32767 then mp_putInt16 i s
      else if 32767 \<le> i \<and> i \<le> 65535 then mp_put (0xcd # mp_store 2 i) s
      else mp_put ((if i > 0 then 0xce else 0xd2) # mp_store 4 i) s)"

definition mp_putInt64 :: "int \<Rightarrow> MsgPackStream \<Rightarrow> MsgPackStream" where
  "mp_putInt64 i s =
     (if - 2147483648 \<le> i \<and> i \<le> 2147483647 then mp_putInt32 i s
      else if 2147483647 \<le> i \<and> i \<le> 4294967295 then mp_put (0xce # mp_store 4 i) s
      else mp_put ((if i > 0 then 0xcf else 0xd3) # mp_store 8 i) s)"

definition mp_putFloat :: "u32 \<Rightarrow> MsgPackStream \<Rightarrow> MsgPackStream" where
  "mp_putFloat f s = mp_put (0xca # mp_store 4 (uint f)) s"

definition mp_putDouble :: "u64 \<Rightarrow> MsgPackStream \<Rightarrow> MsgPackStream" where
  "mp_putDouble f s = mp_put (0xcb # mp_store 8 (uint f)) s"

text \<open>A header and, if it was written, the payload.\<close>

definition mp_headed :: "bytes \<Rightarrow> bytes \<Rightarrow> MsgPackStream \<Rightarrow> bool \<times> MsgPackStream" where
  "mp_headed p dat s = (case mp_writeRawBytes p s of (False, s) \<Rightarrow> (False, s) | (True, s) \<Rightarrow> mp_writeRawBytes dat s)"

definition mp_writeString :: "bytes \<Rightarrow> MsgPackStream \<Rightarrow> bool \<times> MsgPackStream" where
  "mp_writeString dat s =
     (let len = length dat mod 2 ^ 32 in
      if mp_status s \<noteq> MpOk then (False, s)
      else mp_headed
        (if len \<le> 31 then [0xa0 OR word_of_nat len]
         else if len \<le> 255 then [0xd9, word_of_nat len]
         else if len \<le> 65535 then 0xda # mp_store 2 (int len)
         else 0xdb # mp_store 4 (int len)) (take len dat) s)"

definition mp_writeBytes :: "bytes \<Rightarrow> MsgPackStream \<Rightarrow> bool \<times> MsgPackStream" where
  "mp_writeBytes dat s =
     (let n = length dat in
      if mp_status s \<noteq> MpOk then (False, s)
      else if n > 2 ^ 32 - 1 then (False, s\<lparr> mp_status := MpWriteFailed \<rparr>)
      else mp_headed
        (if n \<le> 255 then [0xc4, word_of_nat n]
         else if n \<le> 65535 then 0xc5 # mp_store 2 (int n)
         else 0xc6 # mp_store 4 (int n)) dat s)"

definition mp_putExt :: "MsgPackExtData \<Rightarrow> MsgPackStream \<Rightarrow> MsgPackStream" where
  "mp_putExt ext s =
     (if mp_status s \<noteq> MpOk then s
      else case mp_writeExtHeader (length (ext_payload ext) mod 2 ^ 32) (ext_type ext) s of
          (False, s) \<Rightarrow> s
        | (True, s) \<Rightarrow> snd (mp_writeRawBytes (ext_payload ext) s))"

definition packDatetime :: "int option \<Rightarrow> bytes" where
  "packDatetime dt =
     (case dt of
        None \<Rightarrow> []
      | Some ms \<Rightarrow>
          let msecs = word_of_int ms :: u64;
              t = push_bit 34 ((msecs mod 1000) * 1000000) OR (msecs div 1000)
          in be_bytes 8 t)"

definition mp_putDateTime :: "int option \<Rightarrow> MsgPackStream \<Rightarrow> MsgPackStream" where
  "mp_putDateTime dt s =
     (if mp_status s \<noteq> MpOk then s
      else
        let bs = packDatetime dt in
        if bs = [] then s\<lparr> mp_status := MpWriteFailed \<rparr>
        else case mp_writeExtHeader (length bs) 0xff s of
            (False, s) \<Rightarrow> s
          | (True, s) \<Rightarrow> snd (mp_writeRawBytes bs s))"

section \<open>Containers\<close>

fun mp_putItems :: "('a \<Rightarrow> MsgPackStream \<Rightarrow> MsgPackStream) \<Rightarrow> 'a list \<Rightarrow> MsgPackStream \<Rightarrow> MsgPackStream" where
  "mp_putItems wr [] s = s"
| "mp_putItems wr (item # items) s =
     (let s = wr item s in if mp_status s \<noteq> MpOk then s else mp_putItems wr items s)"

definition mp_putVector :: "('a \<Rightarrow> MsgPackStream \<Rightarrow> MsgPackStream) \<Rightarrow> 'a list \<Rightarrow> MsgPackStream \<Rightarrow> MsgPackStream" where
  "mp_putVector wr items s =
     (case mp_writeArrayHeader (length items mod 2 ^ 32) s of (False, s) \<Rightarrow> s | (True, s) \<Rightarrow> mp_putItems wr items s)"

definition mp_putMap ::
  "('k \<Rightarrow> MsgPackStream \<Rightarrow> MsgPackStream) \<Rightarrow> ('v \<Rightarrow> MsgPackStream \<Rightarrow> MsgPackStream)
     \<Rightarrow> ('k \<times> 'v) list \<Rightarrow> MsgPackStream \<Rightarrow> MsgPackStream" where
  "mp_putMap putk putv m s =
     (case mp_writeMapHeader (length m mod 2 ^ 32) s of
        (False, s) \<Rightarrow> s
      | (True, s) \<Rightarrow> mp_putItems (\<lambda>(k, v) s. putv v (putk k s)) m s)"

text \<open>The loops of \<open>>>\<close> with \<open>n\<close> elements to go; \<open>t\<close> is a value-initialised element.\<close>

fun mp_getItems :: "('a \<Rightarrow> MsgPackStream \<Rightarrow> 'a \<times> MsgPackStream) \<Rightarrow> 'a \<Rightarrow> nat \<Rightarrow> 'a list \<Rightarrow> MsgPackStream \<Rightarrow> 'a list \<times> MsgPackStream" where
  "mp_getItems rd t 0 acc s = (acc, s)"
| "mp_getItems rd t (Suc n) acc s =
     (let (v, s) = rd t s in
      if mp_status s \<noteq> MpOk then (acc, s)
      else if mp_atEnd s then (acc @ [v], s)
      else mp_getItems rd t n (acc @ [v]) s)"

definition mp_getVector :: "('a \<Rightarrow> MsgPackStream \<Rightarrow> 'a \<times> MsgPackStream) \<Rightarrow> 'a \<Rightarrow> 'a list \<Rightarrow> MsgPackStream \<Rightarrow> 'a list \<times> MsgPackStream" where
  "mp_getVector rd t old s =
     (case mp_readArrayHeader s of (None, s) \<Rightarrow> (old, s) | (Some len, s) \<Rightarrow> mp_getItems rd t len [] s)"

fun mp_getEntries ::
  "('k::linorder \<Rightarrow> MsgPackStream \<Rightarrow> 'k \<times> MsgPackStream) \<Rightarrow> ('v \<Rightarrow> MsgPackStream \<Rightarrow> 'v \<times> MsgPackStream) \<Rightarrow> 'k \<Rightarrow> 'v
     \<Rightarrow> nat \<Rightarrow> ('k, 'v) smap \<Rightarrow> MsgPackStream \<Rightarrow> ('k, 'v) smap \<times> MsgPackStream" where
  "mp_getEntries getk getv k0 v0 0 m s = (m, s)"
| "mp_getEntries getk getv k0 v0 (Suc n) m s =
     (let (k, s) = getk k0 s in
      if mp_status s \<noteq> MpOk then (m, s)
      else
        let (v, s) = getv v0 s in
        if mp_status s \<noteq> MpOk then (m, s)
        else mp_getEntries getk getv k0 v0 n (smap_emplace k v m) s)"

definition mp_getMap ::
  "('k::linorder \<Rightarrow> MsgPackStream \<Rightarrow> 'k \<times> MsgPackStream) \<Rightarrow> ('v \<Rightarrow> MsgPackStream \<Rightarrow> 'v \<times> MsgPackStream) \<Rightarrow> 'k \<Rightarrow> 'v
     \<Rightarrow> ('k, 'v) smap \<Rightarrow> MsgPackStream \<Rightarrow> ('k, 'v) smap \<times> MsgPackStream" where
  "mp_getMap getk getv k0 v0 old s =
     (case mp_readMapHeader s of (None, s) \<Rightarrow> (old, s) | (Some len, s) \<Rightarrow> mp_getEntries getk getv k0 v0 len [] s)"

section \<open>What a reader takes from the stream\<close>

definition mp_pend :: "MsgPackStream \<Rightarrow> bytes" where
  "mp_pend s = (if mp_hasPeekByte s then [mp_peekByteCache s] else []) @ bio_rest (mp_dev s)"

definition mp_inv :: "MsgPackStream \<Rightarrow> bool" where
  "mp_inv s \<longleftrightarrow> mp_status s = MpOk \<and> mp_pos s + length (mp_pend s) = mp_limit s \<and> mp_limit s < 2 ^ 31"

text \<open>On every good stream that continues with \<open>bs\<close>, the reader succeeds with \<open>v\<close> and leaves the rest.\<close>

definition takes :: "(MsgPackStream \<Rightarrow> 'a mpr) \<Rightarrow> bytes \<Rightarrow> 'a \<Rightarrow> bool" where
  "takes rd bs v \<longleftrightarrow> (\<forall>s rest. mp_inv s \<and> mp_pend s = bs @ rest \<longrightarrow>
     (\<exists>s'. rd s = (Some v, s') \<and> mp_inv s' \<and> mp_pend s' = rest))"

lemma takesD:
  assumes "takes rd bs v" "mp_inv s" "mp_pend s = bs @ rest"
  obtains s' where "rd s = (Some v, s')" "mp_inv s'" "mp_pend s' = rest"
  using assms by (auto simp: takes_def)

lemma takes_return: "takes (\<lambda>s. (Some v, s)) [] v"
  by (simp add: takes_def)

lemma takes_bind:
  assumes "takes rd as a" "takes (\<lambda>s. k a s) bs b"
  shows "takes (\<lambda>s. mp_bind (rd s) k) (as @ bs) b"
  unfolding takes_def
proof (intro allI impI)
  fix s rest assume "mp_inv s \<and> mp_pend s = (as @ bs) @ rest"
  then have s: "mp_inv s" "mp_pend s = as @ bs @ rest" by auto
  obtain s1 where s1: "rd s = (Some a, s1)" "mp_inv s1" "mp_pend s1 = bs @ rest" using takesD [OF assms(1) s] .
  obtain s2 where "k a s1 = (Some b, s2)" "mp_inv s2" "mp_pend s2 = rest" using takesD [OF assms(2) s1(2,3)] .
  then show "\<exists>s'. mp_bind (rd s) k = (Some b, s') \<and> mp_inv s' \<and> mp_pend s' = rest" using s1(1) by (simp add: mp_bind_def)
qed

lemma mp_readRawBytes_ok:
  assumes "mp_inv s" "n \<le> length (mp_pend s)"
  shows "\<exists>s'. mp_readRawBytes n s = (Some (take n (mp_pend s)), s') \<and> mp_inv s' \<and> mp_pend s' = drop n (mp_pend s)"
proof -
  define s1 where "s1 = (if mp_hasPeekByte s \<and> n > 0 then s\<lparr>mp_hasPeekByte := False\<rparr> else s)"
  define pre where "pre = (if mp_hasPeekByte s \<and> n > 0 then [mp_peekByteCache s] else [])"
  have split: "(if mp_hasPeekByte s \<and> n > 0 then ([mp_peekByteCache s], s\<lparr>mp_hasPeekByte := False\<rparr>) else ([], s)) = (pre, s1)"
    by (simp add: pre_def s1_def)
  obtain d' where d': "readLoop (mp_dev s1) (n - length pre) False = (Some (take (n - length pre) (bio_rest (mp_dev s))), d')"
    "bio_rest d' = drop (n - length pre) (bio_rest (mp_dev s))"
    using readLoop_spec [of "mp_dev s1" "n - length pre" False] assms(2)
    by (auto simp: mp_pend_def pre_def s1_def split: if_splits)
  have "\<not> mp_limit s < mp_pos s + n" "mp_status s = MpOk" using assms by (simp_all add: mp_inv_def)
  then have "mp_readRawBytes n s = (Some (pre @ take (n - length pre) (bio_rest (mp_dev s))), s1\<lparr>mp_dev := d', mp_pos := mp_pos s1 + n\<rparr>)"
    unfolding mp_readRawBytes_def split by (simp add: d'(1))
  moreover have "pre @ take (n - length pre) (bio_rest (mp_dev s)) = take n (mp_pend s)"
    by (cases n) (auto simp: pre_def mp_pend_def)
  moreover have "mp_pend (s1\<lparr>mp_dev := d', mp_pos := mp_pos s1 + n\<rparr>) = drop n (mp_pend s)"
    using d'(2) by (cases n) (auto simp: s1_def pre_def mp_pend_def split: if_splits)
  ultimately show ?thesis using assms by (auto simp: mp_inv_def s1_def)
qed

lemma takes_raw: "length bs = n \<Longrightarrow> takes (mp_readRawBytes n) bs bs"
  unfolding takes_def
proof (intro allI impI)
  fix s rest assume "length bs = n" "mp_inv s \<and> mp_pend s = bs @ rest"
  then show "\<exists>s'. mp_readRawBytes n s = (Some bs, s') \<and> mp_inv s' \<and> mp_pend s' = rest"
    using mp_readRawBytes_ok [of s n] by simp
qed

lemma takes_1: "takes (mp_readRawBytes 1) [b] [b]"
  by (rule takes_raw) simp

text \<open>A first byte, then whatever it selects.\<close>

lemma takes_first:
  assumes "takes (\<lambda>s. k [b] s) bs v"
  shows "takes (\<lambda>s. mp_bind (mp_readRawBytes 1 s) k) (b # bs) v"
  using takes_bind [of "mp_readRawBytes 1" "[b]" "[b]" k bs v, OF takes_1 assms] by simp

lemma takes_then:
  assumes "length as = n" "takes (\<lambda>s. k as s) bs v"
  shows "takes (\<lambda>s. mp_bind (mp_readRawBytes n s) k) (as @ bs) v"
  by (rule takes_bind [of "mp_readRawBytes n" as as k bs v, OF takes_raw [OF assms(1)] assms(2)])

lemma takes_last:
  assumes "length as = n"
  shows "takes (\<lambda>s. mp_bind (mp_readRawBytes n s) (\<lambda>p s. (Some (f p), s))) as (f as)"
  using takes_then [of as n "\<lambda>p s. (Some (f p), s)" "[]" "f as", OF assms takes_return] by simp

text \<open>Payloads are read whole, since the length was checked against what is left.\<close>

lemma takes_payload: "takes (mp_readPayload (length bs)) bs bs"
  unfolding takes_def
proof (intro allI impI)
  fix s rest assume s: "mp_inv s \<and> mp_pend s = bs @ rest"
  then have fits: "lengthFitsRemaining (length bs) (mp_pos s) (mp_limit s)"
    by (auto simp: mp_inv_def lengthFitsRemaining_def)
  show "\<exists>s'. mp_readPayload (length bs) s = (Some bs, s') \<and> mp_inv s' \<and> mp_pend s' = rest"
  proof (cases "bs = []")
    case True
    then show ?thesis using s fits by (simp add: mp_readPayload_def)
  next
    case False
    then have "mp_readPayload (length bs) s = mp_readRawBytes (length bs) s" using fits by (simp add: mp_readPayload_def)
    then show ?thesis using takes_raw [of bs "length bs"] s by (auto simp: takes_def)
  qed
qed

section \<open>Stored integers\<close>

lemma mp_load_store:
  assumes "n \<le> 8" "0 \<le> v" "v < 2 ^ (8 * n)"
  shows "mp_load (mp_store n v) = nat v"
proof -
  have "v < 2 ^ 64" using assms(3) power_increasing [of "8 * n" 64 "2 :: int"] assms(1) by linarith
  then have "unat (word_of_int v :: u64) = nat v" using assms(2) by (simp add: unsigned_of_int take_bit_int_eq_self)
  moreover have "nat v < 2 ^ (8 * n)" using assms by (simp add: nat_less_iff)
  ultimately show ?thesis by (simp add: mp_load_def mp_store_def be_val_be_bytes unat_take_bit)
qed

lemma length_mp_store [simp]: "length (mp_store n v) = n"
  by (simp add: mp_store_def)

text \<open>Reading a stored integer at its own width gives its sign back.\<close>

lemma sint_self:
  "- (2 ^ (LENGTH('a) - 1)) \<le> i \<Longrightarrow> i < 2 ^ (LENGTH('a) - 1) \<Longrightarrow> sint (word_of_int i :: 'a :: len word) = i"
  by (simp add: signed_of_int signed_take_bit_int_eq_self)

lemma mp_load_word:
  "word_of_nat (mp_load (mp_store 2 v)) = (word_of_int v :: 16 word)"
  "word_of_nat (mp_load (mp_store 4 v)) = (word_of_int v :: 32 word)"
  "word_of_nat (mp_load (mp_store 8 v)) = (word_of_int v :: 64 word)"
  unfolding mp_load_def mp_store_def be_val_be_bytes unsigned_of_nat
  by (rule bit_eqI, simp add: bit_simps)+

section \<open>The wire format of integers\<close>

definition uintCode :: "int \<Rightarrow> bytes" where
  "uintCode u =
     (if u \<le> 0x7f then [word_of_int u] else if u \<le> 255 then [0xcc, word_of_int u]
      else if u \<le> 65535 then 0xcd # mp_store 2 u
      else if u \<le> 4294967295 then 0xce # mp_store 4 u else 0xcf # mp_store 8 u)"

definition intCode :: "int \<Rightarrow> bytes" where
  "intCode i =
     (if 0 \<le> i then uintCode i
      else if - 32 \<le> i then [word_of_int i] else if - 128 \<le> i then [0xd0, word_of_int i]
      else if - 32768 \<le> i then 0xd1 # mp_store 2 i
      else if - 2147483648 \<le> i then 0xd2 # mp_store 4 i else 0xd3 # mp_store 8 i)"

lemma uint_byte: "0 \<le> u \<Longrightarrow> u \<le> 255 \<Longrightarrow> uint (word_of_int u :: byte) = u"
  by (simp add: unsigned_of_int take_bit_int_eq_self)

lemma small_byte: "0 \<le> u \<Longrightarrow> u \<le> 127 \<Longrightarrow> (word_of_int u :: byte) \<le> 0x7f"
  by (simp add: word_le_def uint_byte)

lemma uintCode_cases:
  obtains "u \<le> 127" "uintCode u = [word_of_int u]"
  | "127 < u" "u \<le> 255" "uintCode u = 0xcc # [word_of_int u]"
  | "255 < u" "u \<le> 65535" "uintCode u = 0xcd # mp_store 2 u"
  | "65535 < u" "u \<le> 4294967295" "uintCode u = 0xce # mp_store 4 u"
  | "4294967295 < u" "uintCode u = 0xcf # mp_store 8 u"
  by (cases "u \<le> 127"; cases "u \<le> 255"; cases "u \<le> 65535"; cases "u \<le> 4294967295"; simp add: uintCode_def)

lemma takes_uint:
  assumes "0 \<le> u" "u < 2 ^ 64"
  shows "takes unpack_ulonglong (uintCode u) u"
proof (cases rule: uintCode_cases [of u])
  case 1
  then show ?thesis unfolding unpack_ulonglong_def 1(2)
    using takes_return [of u] assms by (intro takes_first) (simp add: uint_byte small_byte)
next
  case 2
  then show ?thesis unfolding unpack_ulonglong_def 2(3)
    using takes_last [of "[word_of_int u]" 1 "\<lambda>p. uint (hd p)"] assms
    by (intro takes_first) (simp add: uint_byte)
next
  case 3
  then show ?thesis unfolding unpack_ulonglong_def 3(3)
    using takes_last [of "mp_store 2 u" 2 "\<lambda>p. int (mp_load p)"] assms
    by (intro takes_first) (simp add: mp_load_store)
next
  case 4
  then show ?thesis unfolding unpack_ulonglong_def 4(3)
    using takes_last [of "mp_store 4 u" 4 "\<lambda>p. int (mp_load p)"] assms
    by (intro takes_first) (simp add: mp_load_store)
next
  case 5
  then show ?thesis unfolding unpack_ulonglong_def 5(2)
    using takes_last [of "mp_store 8 u" 8 "\<lambda>p. int (mp_load p)"] assms
    by (intro takes_first) (simp add: mp_load_store)
qed

lemma takes_nonneg:
  assumes "0 \<le> u" "u < 2 ^ 63"
  shows "takes unpack_longlong (uintCode u) u"
proof (cases rule: uintCode_cases [of u])
  case 1
  then show ?thesis unfolding unpack_longlong_def 1(2)
    using takes_return [of u] assms by (intro takes_first) (simp add: uint_byte small_byte)
next
  case 2
  then show ?thesis unfolding unpack_longlong_def 2(3)
    using takes_last [of "[word_of_int u]" 1 "\<lambda>p. uint (hd p)"] assms
    by (intro takes_first) (simp add: uint_byte)
next
  case 3
  then show ?thesis unfolding unpack_longlong_def 3(3)
    using takes_last [of "mp_store 2 u" 2 "\<lambda>p. int (mp_load p)"] assms
    by (intro takes_first) (simp add: mp_load_store)
next
  case 4
  then show ?thesis unfolding unpack_longlong_def 4(3)
    using takes_last [of "mp_store 4 u" 4 "\<lambda>p. int (mp_load p)"] assms
    by (intro takes_first) (simp add: mp_load_store)
next
  case 5
  have "takes (\<lambda>s. mp_bind (mp_readRawBytes 8 s) (\<lambda>p s.
      if int (mp_load p) > 2 ^ 63 - 1 then mp_fail MpReadCorruptData s else (Some (int (mp_load p)), s))) (mp_store 8 u @ []) u"
    using assms takes_return [of u] by (intro takes_then) (simp_all add: mp_load_store)
  then show ?thesis unfolding unpack_longlong_def 5(2) by (intro takes_first) simp
qed

lemma takes_int:
  assumes "- (2 ^ 63) \<le> i" "i < 2 ^ 63"
  shows "takes unpack_longlong (intCode i) i"
proof -
  consider "0 \<le> i" "intCode i = uintCode i"
  | "i < 0" "- 32 \<le> i" "intCode i = [word_of_int i]"
  | "i < - 32" "- 128 \<le> i" "intCode i = 0xd0 # [word_of_int i]"
  | "i < - 128" "- 32768 \<le> i" "intCode i = 0xd1 # mp_store 2 i"
  | "i < - 32768" "- 2147483648 \<le> i" "intCode i = 0xd2 # mp_store 4 i"
  | "i < - 2147483648" "intCode i = 0xd3 # mp_store 8 i"
    by (cases "0 \<le> i"; cases "- 32 \<le> i"; cases "- 128 \<le> i"; cases "- 32768 \<le> i"; cases "- 2147483648 \<le> i"; simp add: intCode_def)
  then show ?thesis
  proof cases
    case 1
    then show ?thesis using takes_nonneg assms by simp
  next
    case 2
    have u: "uint (word_of_int i :: byte) = i + 256"
      using 2 mod_pos_pos_trivial [of "i + 256" 256] by (simp add: uint_word_of_int)
    then have "\<not> (word_of_int i :: byte) \<le> 0x7f" "0xe0 \<le> (word_of_int i :: byte)" "sint (word_of_int i :: byte) = i"
      using 2 sint_self [where 'a = 8, of i] by (simp_all add: word_le_def)
    then show ?thesis unfolding unpack_longlong_def 2(3)
      using takes_return [of i] by (intro takes_first) simp
  next
    case 3
    then show ?thesis unfolding unpack_longlong_def 3(3)
      using takes_last [of "[word_of_int i]" 1 "\<lambda>p. sint (hd p)"] sint_self [where 'a = 8, of i] by (intro takes_first) simp
  next
    case 4
    then show ?thesis unfolding unpack_longlong_def 4(3)
      using takes_last [of "mp_store 2 i" 2 "\<lambda>p. sint (word_of_nat (mp_load p) :: 16 word)"] sint_self [where 'a = 16, of i]
      by (intro takes_first) (simp add: mp_load_word)
  next
    case 5
    then show ?thesis unfolding unpack_longlong_def 5(3)
      using takes_last [of "mp_store 4 i" 4 "\<lambda>p. sint (word_of_nat (mp_load p) :: 32 word)"] sint_self [where 'a = 32, of i]
      by (intro takes_first) (simp add: mp_load_word)
  next
    case 6
    then show ?thesis unfolding unpack_longlong_def 6(2)
      using takes_last [of "mp_store 8 i" 8 "\<lambda>p. sint (word_of_nat (mp_load p) :: 64 word)"] sint_self [where 'a = 64, of i] assms
      by (intro takes_first) (simp add: mp_load_word)
  qed
qed

section \<open>The wire format of strings and counts\<close>

definition strHeader :: "nat \<Rightarrow> bytes" where
  "strHeader len =
     (if len \<le> 31 then [0xa0 OR word_of_nat len] else if len \<le> 255 then [0xd9, word_of_nat len]
      else if len \<le> 65535 then 0xda # mp_store 2 (int len) else 0xdb # mp_store 4 (int len))"

definition binHeader :: "nat \<Rightarrow> bytes" where
  "binHeader n =
     (if n \<le> 255 then [0xc4, word_of_nat n]
      else if n \<le> 65535 then 0xc5 # mp_store 2 (int n) else 0xc6 # mp_store 4 (int n))"

text \<open>A fixed marker in the upper bits and a small count in the lower ones.\<close>

lemma marker_count:
  assumes "len < 2 ^ k" "unat (m :: byte) mod 2 ^ k = 0" "unat m + 2 ^ k \<le> 256"
  shows "unat (m OR word_of_nat len) = unat m + len"
proof -
  have low: "\<not> bit m n" if "n < k" for n
  proof -
    have "take_bit k m = 0" using assms(2) by (simp add: word_unat_eq_iff unat_take_bit)
    then show ?thesis using that by (metis bit_0_eq bit_take_bit_iff bot_apply bot_bool_def)
  qed
  have "len < 256" using assms by linarith
  then have len: "unat (word_of_nat len :: byte) = len" by (simp add: unsigned_of_nat take_bit_nat_eq_self)
  have "m AND word_of_nat len = 0"
  proof (rule bit_eqI)
    fix n
    have "n < k" if "bit (word_of_nat len :: byte) n"
    proof (rule ccontr)
      assume "\<not> n < k"
      then have "bit len n = False" using assms(1) by (simp add: bit_nat_def div_less less_le_trans power_increasing)
      then show False using that by (simp add: bit_simps)
    qed
    then show "bit (m AND word_of_nat len) n = bit (0 :: byte) n" using low by (auto simp: bit_simps)
  qed
  then have "m OR word_of_nat len = m + word_of_nat len" by (simp add: disjunctive_add_eq_or)
  then show ?thesis using assms len by (simp add: unat_word_ariths)
qed

lemma byte_count: "n \<le> 255 \<Longrightarrow> unat (word_of_nat n :: byte) = n"
  by (simp add: unsigned_of_nat take_bit_nat_eq_self)

lemma load_count: "n < 2 ^ 16 \<Longrightarrow> mp_load (mp_store 2 (int n)) = n" "n < 2 ^ 32 \<Longrightarrow> mp_load (mp_store 4 (int n)) = n"
  by (simp_all add: mp_load_store)

lemma takes_string:
  assumes "length bs < 2 ^ 32"
  shows "takes mp_unpackString (strHeader (length bs) @ bs) bs"
proof -
  let ?n = "length bs"
  consider "?n \<le> 31" "strHeader ?n = [0xa0 OR word_of_nat ?n]"
  | "31 < ?n" "?n \<le> 255" "strHeader ?n = [0xd9, word_of_nat ?n]"
  | "255 < ?n" "?n \<le> 65535" "strHeader ?n = 0xda # mp_store 2 (int ?n)"
  | "65535 < ?n" "strHeader ?n = 0xdb # mp_store 4 (int ?n)"
    by (cases "?n \<le> 31"; cases "?n \<le> 255"; cases "?n \<le> 65535"; simp add: strHeader_def)
  then show ?thesis
  proof cases
    case 1
    define c where "c = (0xa0 OR word_of_nat ?n :: byte)"
    have c: "unat c = 160 + ?n" using marker_count [of ?n 5 "0xa0"] 1 by (simp add: c_def)
    then have "0xa0 \<le> c \<and> c \<le> 0xa0 + 0x1f" "unat (c - 0xa0) = ?n" using 1 by (simp_all add: word_le_nat_alt unat_sub)
    then show ?thesis unfolding mp_unpackString_def 1(2) c_def [symmetric] append.simps
      using takes_payload [of bs] by (intro takes_first) simp
  next
    case 2
    then show ?thesis unfolding mp_unpackString_def 2(3) append.simps
      using takes_then [of "[word_of_nat ?n]" 1 "\<lambda>p s. mp_readPayload (unat (hd p)) s" bs bs] takes_payload [of bs]
      by (intro takes_first) (simp add: byte_count)
  next
    case 3
    then show ?thesis unfolding mp_unpackString_def 3(3) append.simps
      using takes_then [of "mp_store 2 (int ?n)" 2 "\<lambda>p s. mp_readPayload (mp_load p) s" bs bs] takes_payload [of bs]
      by (intro takes_first) (simp add: load_count)
  next
    case 4
    then show ?thesis unfolding mp_unpackString_def 4(2) append.simps
      using takes_then [of "mp_store 4 (int ?n)" 4 "\<lambda>p s. mp_readPayload (mp_load p) s" bs bs] takes_payload [of bs] assms
      by (intro takes_first) (simp add: load_count)
  qed
qed

lemma takes_bin:
  assumes "length bs < 2 ^ 32"
  shows "takes mp_unpackBin (binHeader (length bs) @ bs) bs"
proof -
  let ?n = "length bs"
  consider "?n \<le> 255" "binHeader ?n = [0xc4, word_of_nat ?n]"
  | "255 < ?n" "?n \<le> 65535" "binHeader ?n = 0xc5 # mp_store 2 (int ?n)"
  | "65535 < ?n" "binHeader ?n = 0xc6 # mp_store 4 (int ?n)"
    by (cases "?n \<le> 255"; cases "?n \<le> 65535"; simp add: binHeader_def)
  then show ?thesis
  proof cases
    case 1
    then show ?thesis unfolding mp_unpackBin_def 1(2) append.simps
      using takes_then [of "[word_of_nat ?n]" 1 "\<lambda>p s. mp_readPayload (unat (hd p)) s" bs bs] takes_payload [of bs]
      by (intro takes_first) (simp add: byte_count)
  next
    case 2
    then show ?thesis unfolding mp_unpackBin_def 2(3) append.simps
      using takes_then [of "mp_store 2 (int ?n)" 2 "\<lambda>p s. mp_readPayload (mp_load p) s" bs bs] takes_payload [of bs]
      by (intro takes_first) (simp add: load_count)
  next
    case 3
    then show ?thesis unfolding mp_unpackBin_def 3(2) append.simps
      using takes_then [of "mp_store 4 (int ?n)" 4 "\<lambda>p s. mp_readPayload (mp_load p) s" bs bs] takes_payload [of bs] assms
      by (intro takes_first) (simp add: load_count)
  qed
qed

text \<open>A count is accepted when at least that many bytes are left.\<close>

lemma count_fits:
  assumes "takes rd bs n" "mp_inv s" "mp_pend s = bs @ rest" "n \<le> length rest"
  shows "\<exists>s'. mp_bind (rd s) (\<lambda>n s. if \<not> lengthFitsRemaining n (mp_pos s) (mp_limit s) then mp_fail MpReadCorruptData s
      else (Some n, s)) = (Some n, s') \<and> mp_inv s' \<and> mp_pend s' = rest"
proof -
  obtain s1 where s1: "rd s = (Some n, s1)" "mp_inv s1" "mp_pend s1 = rest" using takesD [OF assms(1-3)] .
  then have "lengthFitsRemaining n (mp_pos s1) (mp_limit s1)"
    using assms(4) by (auto simp: mp_inv_def lengthFitsRemaining_def)
  then show ?thesis using s1 by (simp add: mp_bind_def)
qed

lemma mp_bind_assoc: "mp_bind r (\<lambda>a s. mp_bind (f a s) g) = mp_bind (mp_bind r f) g"
  by (simp add: mp_bind_def split: prod.split option.split)

lemma takes_count:
  assumes "len < 2 ^ 32" "unat fx mod 16 = 0" "unat fx \<le> 0x90" "fx + 0xf < c16" "c16 \<noteq> c32" "fx + 0xf < c32"
  shows "takes (\<lambda>s. mp_bind (mp_readRawBytes 1 s) (\<lambda>p s.
      if hd p \<ge> fx \<and> hd p \<le> fx + 0xf then (Some (unat (hd p AND 0xf)), s)
      else if hd p = c16 then mp_bind (mp_readRawBytes 2 s) (\<lambda>p s. (Some (mp_load p), s))
      else if hd p = c32 then mp_bind (mp_readRawBytes 4 s) (\<lambda>p s. (Some (mp_load p), s))
      else mp_fail MpReadCorruptData s)) (mp_countBytes fx c16 c32 len) len"
proof -
  consider "len \<le> 15" "mp_countBytes fx c16 c32 len = [fx OR word_of_nat len]"
  | "15 < len" "len \<le> 65535" "mp_countBytes fx c16 c32 len = c16 # mp_store 2 (int len)"
  | "65535 < len" "mp_countBytes fx c16 c32 len = c32 # mp_store 4 (int len)"
    by (cases "len \<le> 15"; cases "len \<le> 65535"; simp add: mp_countBytes_def)
  moreover have n: "\<not> c16 \<le> fx + 0xf" "\<not> c32 \<le> fx + 0xf" using assms(4,6) by auto
  ultimately show ?thesis
  proof cases
    case 1
    define c where "c = fx OR word_of_nat len"
    have c: "unat c = unat fx + len" using marker_count [of len 4 fx] 1 assms(2,3) by (simp add: c_def)
    have "(c AND 0xf) = take_bit 4 c" by (simp add: take_bit_eq_mask mask_eq_exp_minus_1)
    then have "unat (c AND 0xf) = len" using c 1 assms(2) by (simp add: unat_take_bit mod_add_left_eq [symmetric])
    moreover have "fx \<le> c \<and> c \<le> fx + 0xf" using c 1 assms(3) by (simp add: word_le_nat_alt unat_word_ariths)
    ultimately show ?thesis unfolding 1(2) c_def [symmetric]
      using takes_return [of len] by (intro takes_first) simp
  next
    case 2
    then show ?thesis unfolding 2(3)
      using takes_last [of "mp_store 2 (int len)" 2 mp_load] n by (intro takes_first) (simp add: load_count)
  next
    case 3
    then show ?thesis unfolding 3(2)
      using takes_last [of "mp_store 4 (int len)" 4 mp_load] n assms(1,5) by (intro takes_first) (simp add: load_count)
  qed
qed

lemma mp_readArrayHeader_ok:
  assumes "mp_inv s" "mp_pend s = mp_countBytes 0x90 0xdc 0xdd len @ rest" "len \<le> length rest" "len < 2 ^ 32"
  shows "\<exists>s'. mp_readArrayHeader s = (Some len, s') \<and> mp_inv s' \<and> mp_pend s' = rest"
  using count_fits [OF takes_count [OF assms(4), of "0x90" "0xdc" "0xdd"] assms(1) _ assms(3)] assms(2)
  by (simp add: mp_readArrayHeader_def mp_readCount_def mp_bind_assoc)

lemma mp_readMapHeader_ok:
  assumes "mp_inv s" "mp_pend s = mp_countBytes 0x80 0xde 0xdf len @ rest" "len \<le> length rest" "len < 2 ^ 32"
  shows "\<exists>s'. mp_readMapHeader s = (Some len, s') \<and> mp_inv s' \<and> mp_pend s' = rest"
  using count_fits [OF takes_count [OF assms(4), of "0x80" "0xde" "0xdf"] assms(1) _ assms(3)] assms(2)
  by (simp add: mp_readMapHeader_def mp_readCount_def mp_bind_assoc)

section \<open>Writing at the end of the buffer\<close>

definition mp_winv :: "MsgPackStream \<Rightarrow> bool" where
  "mp_winv s \<longleftrightarrow> mp_status s = MpOk \<and> bio_pos (mp_dev s) = length (bio_buf (mp_dev s))"

definition mp_wrote :: "MsgPackStream \<Rightarrow> bytes \<Rightarrow> MsgPackStream" where
  "mp_wrote s bs = s\<lparr> mp_dev := \<lparr> bio_buf = bio_buf (mp_dev s) @ bs, bio_pos = bio_pos (mp_dev s) + length bs \<rparr> \<rparr>"

lemma mp_wrote_simps [simp]:
  "mp_wrote (mp_wrote s as) bs = mp_wrote s (as @ bs)" "mp_winv (mp_wrote s bs) = mp_winv s" "mp_wrote s [] = s"
  "mp_status (mp_wrote s bs) = mp_status s" "bio_buf (mp_dev (mp_wrote s bs)) = bio_buf (mp_dev s) @ bs"
  by (simp_all add: mp_wrote_def mp_winv_def add.assoc)

lemma mp_winvD [simp]: "mp_winv s \<Longrightarrow> mp_status s = MpOk"
  by (simp add: mp_winv_def)

lemma mp_write_wrote: "mp_winv s \<Longrightarrow> mp_writeRawBytes bs s = (True, mp_wrote s bs)" "mp_winv s \<Longrightarrow> mp_put bs s = mp_wrote s bs"
  by (auto simp: mp_writeRawBytes_def mp_put_def mp_winv_def mp_wrote_def bio_write_end)

lemma mp_atEnd_iff: "mp_inv s \<Longrightarrow> mp_atEnd s \<longleftrightarrow> mp_pend s = []"
proof -
  assume "mp_inv s"
  then have "mp_atEnd s \<longleftrightarrow> length (mp_pend s) = 0" unfolding mp_atEnd_def mp_inv_def by linarith
  then show ?thesis by simp
qed

section \<open>The contract of a serialised type\<close>

text \<open>
  An element type of the container templates: an operator \<open><<\<close> that appends the code of a value,
  and an operator \<open>>>\<close> that takes exactly that code and returns the value.
\<close>

locale mp_codec =
  fixes wr :: "'a \<Rightarrow> MsgPackStream \<Rightarrow> MsgPackStream" and rd :: "'a \<Rightarrow> MsgPackStream \<Rightarrow> 'a \<times> MsgPackStream"
    and enc :: "'a \<Rightarrow> bytes" and ok :: "'a \<Rightarrow> bool"
  assumes wr_enc: "ok x \<Longrightarrow> mp_winv s \<Longrightarrow> wr x s = mp_wrote s (enc x)"
    and rd_enc: "ok x \<Longrightarrow> mp_inv s \<Longrightarrow> mp_pend s = enc x @ rest \<Longrightarrow> \<exists>s'. rd old s = (x, s') \<and> mp_inv s' \<and> mp_pend s' = rest"
    and enc_nonempty: "ok x \<Longrightarrow> enc x \<noteq> []"
begin

lemma put_items: "list_all ok xs \<Longrightarrow> mp_winv s \<Longrightarrow> mp_putItems wr xs s = mp_wrote s (concat (map enc xs))"
  by (induction xs arbitrary: s) (simp_all add: wr_enc)

lemma items_length: "list_all ok xs \<Longrightarrow> length xs \<le> length (concat (map enc xs))"
proof (induction xs)
  case (Cons x xs)
  then show ?case using enc_nonempty [of x] by (cases "enc x") auto
qed simp

lemma get_items:
  "list_all ok xs \<Longrightarrow> mp_inv s \<Longrightarrow> mp_pend s = concat (map enc xs) @ rest \<Longrightarrow>
     \<exists>s'. mp_getItems rd t (length xs) acc s = (acc @ xs, s') \<and> mp_inv s' \<and> mp_pend s' = rest"
proof (induction xs arbitrary: s acc)
  case (Cons x xs)
  have "mp_pend s = enc x @ concat (map enc xs) @ rest" using Cons.prems(3) by simp
  then obtain s1 where s1: "rd t s = (x, s1)" "mp_inv s1" "mp_pend s1 = concat (map enc xs) @ rest"
    using rd_enc [of x s "concat (map enc xs) @ rest" t] Cons.prems by auto
  then have st: "mp_status s1 = MpOk" by (simp add: mp_inv_def)
  show ?case
  proof (cases "mp_atEnd s1")
    case True
    then have e: "mp_pend s1 = []" using mp_atEnd_iff [OF s1(2)] by simp
    have c: "concat (map enc xs) = []" using s1(3) e by simp
    have "length xs \<le> 0" using items_length [of xs] Cons.prems(1) unfolding c by simp
    then show ?thesis using True s1 st e by auto
  next
    case False
    then show ?thesis using Cons.IH [of s1 "acc @ [x]"] Cons.prems(1) s1 st by auto
  qed
qed simp

end

definition vectorCode :: "('a \<Rightarrow> bytes) \<Rightarrow> 'a list \<Rightarrow> bytes" where
  "vectorCode enc xs = mp_countBytes 0x90 0xdc 0xdd (length xs) @ concat (map enc xs)"

definition vectorOk :: "('a \<Rightarrow> bool) \<Rightarrow> 'a list \<Rightarrow> bool" where
  "vectorOk ok xs \<longleftrightarrow> list_all ok xs \<and> length xs < 2 ^ 32"

lemma countBytes_nonempty [simp]: "mp_countBytes fx c16 c32 len \<noteq> []"
  by (simp add: mp_countBytes_def)

context mp_codec
begin

text \<open>A vector of serialised elements is serialised itself, so that the template can be nested.\<close>

lemma vector_codec: "mp_codec (mp_putVector wr) (mp_getVector rd t) (vectorCode enc) (vectorOk ok)"
proof
  fix xs s assume "vectorOk ok xs" "mp_winv s"
  then show "mp_putVector wr xs s = mp_wrote s (vectorCode enc xs)"
    by (simp add: mp_putVector_def mp_writeArrayHeader_def mp_write_wrote put_items vectorOk_def vectorCode_def)
next
  fix xs s rest old assume a: "vectorOk ok xs" "mp_inv s" "mp_pend s = vectorCode enc xs @ rest"
  have "length xs \<le> length (concat (map enc xs) @ rest)" using items_length [of xs] a(1) by (simp add: vectorOk_def)
  then obtain s1 where s1: "mp_readArrayHeader s = (Some (length xs), s1)" "mp_inv s1" "mp_pend s1 = concat (map enc xs) @ rest"
    using mp_readArrayHeader_ok [OF a(2), of "length xs"] a(1,3) by (auto simp: vectorCode_def vectorOk_def)
  show "\<exists>s'. mp_getVector rd t old s = (xs, s') \<and> mp_inv s' \<and> mp_pend s' = rest"
    using get_items [OF _ s1(2,3), of t "[]"] a(1) s1(1) by (auto simp: mp_getVector_def vectorOk_def)
qed (simp add: vectorCode_def)

text \<open>What was written to a fresh buffer is read back from it, and nothing is left.\<close>

lemma stored_and_loaded:
  assumes "ok x" "length (enc x) < 2 ^ 31"
  shows "\<exists>s'. rd old (mp_readStream (bio_buf (mp_dev (wr x mp_writeStream)))) = (x, s') \<and> mp_status s' = MpOk \<and> mp_atEnd s'"
proof -
  have w: "mp_winv mp_writeStream" by (simp add: mp_winv_def mp_writeStream_def)
  have "bio_buf (mp_dev (wr x mp_writeStream)) = enc x" by (simp add: wr_enc [OF assms(1) w]) (simp add: mp_writeStream_def)
  moreover have "mp_inv (mp_readStream (enc x))" "mp_pend (mp_readStream (enc x)) = enc x @ []"
    using assms(2) by (simp_all add: mp_inv_def mp_readStream_def mp_pend_def bio_rest_def)
  ultimately show ?thesis using rd_enc [OF assms(1), of "mp_readStream (enc x)" "[]" old]
    by (auto simp: mp_inv_def mp_atEnd_def)
qed

text \<open>An array header that announces more elements than follow is accepted, whatever it announces.\<close>

lemma get_items_short:
  "list_all ok xs \<Longrightarrow> xs \<noteq> [] \<Longrightarrow> length xs \<le> n \<Longrightarrow> mp_inv s \<Longrightarrow> mp_pend s = concat (map enc xs) \<Longrightarrow>
     \<exists>s'. mp_getItems rd t n acc s = (acc @ xs, s') \<and> mp_inv s' \<and> mp_pend s' = []"
proof (induction xs arbitrary: s acc n)
  case (Cons x xs)
  obtain k where n: "n = Suc k" using Cons.prems(3) by (cases n) auto
  have "mp_pend s = enc x @ concat (map enc xs)" using Cons.prems(5) by simp
  then obtain s1 where s1: "rd t s = (x, s1)" "mp_inv s1" "mp_pend s1 = concat (map enc xs)"
    using rd_enc [of x s "concat (map enc xs)" t] Cons.prems by auto
  then have st: "mp_status s1 = MpOk" by (simp add: mp_inv_def)
  have e: "mp_atEnd s1 \<longleftrightarrow> xs = []"
    using mp_atEnd_iff [OF s1(2)] s1(3) enc_nonempty [of "hd xs"] Cons.prems(1) by (cases xs) auto
  show ?case
  proof (cases "xs = []")
    case True
    then show ?thesis using e s1 st n by simp
  next
    case False
    then show ?thesis using Cons.IH [of k s1 "acc @ [x]"] Cons.prems(1,3) s1 st n e by auto
  qed
qed simp

lemma short_vector:
  assumes "list_all ok xs" "xs \<noteq> []" "length xs \<le> n" "n \<le> length (concat (map enc xs))"
    "length (concat (map enc xs)) < 2 ^ 30"
  shows "\<exists>s'. mp_getVector rd t old (mp_readStream (mp_countBytes 0x90 0xdc 0xdd n @ concat (map enc xs))) = (xs, s')
    \<and> mp_status s' = MpOk \<and> mp_atEnd s'"
proof -
  let ?s = "mp_readStream (mp_countBytes 0x90 0xdc 0xdd n @ concat (map enc xs))"
  have "length (mp_countBytes 0x90 0xdc 0xdd n) \<le> 5" by (simp add: mp_countBytes_def mp_store_def)
  then have i: "mp_inv ?s" "mp_pend ?s = mp_countBytes 0x90 0xdc 0xdd n @ concat (map enc xs)"
    using assms(5) by (simp_all add: mp_inv_def mp_readStream_def mp_pend_def bio_rest_def)
  obtain s1 where s1: "mp_readArrayHeader ?s = (Some n, s1)" "mp_inv s1" "mp_pend s1 = concat (map enc xs)"
    using mp_readArrayHeader_ok [OF i(1,2)] assms(4,5) by auto
  obtain s2 where "mp_getItems rd t n [] s1 = (xs, s2)" "mp_inv s2" "mp_pend s2 = []"
    using get_items_short [OF assms(1-3) s1(2,3), of t "[]"] by auto
  then show ?thesis using s1(1) mp_atEnd_iff [of s2] by (auto simp: mp_getVector_def mp_inv_def)
qed

end

definition entryCode :: "('k \<Rightarrow> bytes) \<Rightarrow> ('v \<Rightarrow> bytes) \<Rightarrow> 'k \<times> 'v \<Rightarrow> bytes" where
  "entryCode enck encv e = enck (fst e) @ encv (snd e)"

definition mapCode :: "('k \<Rightarrow> bytes) \<Rightarrow> ('v \<Rightarrow> bytes) \<Rightarrow> ('k \<times> 'v) list \<Rightarrow> bytes" where
  "mapCode enck encv m = mp_countBytes 0x80 0xde 0xdf (length m) @ concat (map (entryCode enck encv) m)"

definition mapOk :: "('k::linorder \<Rightarrow> bool) \<Rightarrow> ('v \<Rightarrow> bool) \<Rightarrow> ('k \<times> 'v) list \<Rightarrow> bool" where
  "mapOk okk okv m \<longleftrightarrow> smap_wf m \<and> list_all (\<lambda>e. okk (fst e) \<and> okv (snd e)) m \<and> length m < 2 ^ 32"

text \<open>Keys and values of \<open>std::map\<close>.\<close>

locale mp_map_codec = k: mp_codec wrk rdk enck okk + v: mp_codec wrv rdv encv okv
  for wrk :: "'k::linorder \<Rightarrow> MsgPackStream \<Rightarrow> MsgPackStream" and rdk enck okk
    and wrv :: "'v \<Rightarrow> MsgPackStream \<Rightarrow> MsgPackStream" and rdv encv okv
begin

lemma put_entries:
  "list_all (\<lambda>e. okk (fst e) \<and> okv (snd e)) m \<Longrightarrow> mp_winv s \<Longrightarrow>
     mp_putItems (\<lambda>(k, v) s. wrv v (wrk k s)) m s = mp_wrote s (concat (map (entryCode enck encv) m))"
  by (induction m arbitrary: s) (auto simp: k.wr_enc v.wr_enc entryCode_def)

lemma entries_length:
  "list_all (\<lambda>e. okk (fst e) \<and> okv (snd e)) m \<Longrightarrow> length m \<le> length (concat (map (entryCode enck encv) m))"
proof (induction m)
  case (Cons e m)
  then show ?case using k.enc_nonempty [of "fst e"] by (cases "enck (fst e)") (auto simp: entryCode_def)
qed simp

lemma get_entries:
  "list_all (\<lambda>e. okk (fst e) \<and> okv (snd e)) m \<Longrightarrow> smap_wf (acc @ m) \<Longrightarrow> mp_inv s \<Longrightarrow>
     mp_pend s = concat (map (entryCode enck encv) m) @ rest \<Longrightarrow>
     \<exists>s'. mp_getEntries rdk rdv k0 v0 (length m) acc s = (acc @ m, s') \<and> mp_inv s' \<and> mp_pend s' = rest"
proof (induction m arbitrary: s acc)
  case (Cons e m)
  let ?rest = "concat (map (entryCode enck encv) m) @ rest"
  have "mp_pend s = enck (fst e) @ encv (snd e) @ ?rest" using Cons.prems(4) by (simp add: entryCode_def [of _ _ e])
  then obtain s1 where s1: "rdk k0 s = (fst e, s1)" "mp_inv s1" "mp_pend s1 = encv (snd e) @ ?rest"
    using k.rd_enc [of "fst e" s _ k0] Cons.prems by auto
  then obtain s2 where s2: "rdv v0 s1 = (snd e, s2)" "mp_inv s2" "mp_pend s2 = ?rest"
    using v.rd_enc [of "snd e" s1 _ v0] Cons.prems by auto
  have acc: "smap_emplace (fst e) (snd e) acc = acc @ [e]"
    using Cons.prems(2) by (subst smap_emplace_last) (auto simp: smap_wf_def sorted_wrt_append)
  have "mp_status s1 = MpOk" "mp_status s2 = MpOk" using s1(2) s2(2) by (simp_all add: mp_inv_def)
  then show ?case using Cons.IH [of "acc @ [e]" s2] Cons.prems(1,2) s1 s2 acc by auto
qed simp

lemma map_codec: "mp_codec (mp_putMap wrk wrv) (mp_getMap rdk rdv k0 v0) (mapCode enck encv) (mapOk okk okv)"
proof
  fix m s assume "mapOk okk okv m" "mp_winv s"
  then show "mp_putMap wrk wrv m s = mp_wrote s (mapCode enck encv m)"
    by (simp add: mp_putMap_def mp_writeMapHeader_def mp_write_wrote put_entries mapOk_def mapCode_def)
next
  fix m s rest old assume a: "mapOk okk okv m" "mp_inv s" "mp_pend s = mapCode enck encv m @ rest"
  have "length m \<le> length (concat (map (entryCode enck encv) m) @ rest)" using entries_length [of m] a(1) by (simp add: mapOk_def)
  then obtain s1 where s1: "mp_readMapHeader s = (Some (length m), s1)" "mp_inv s1"
    "mp_pend s1 = concat (map (entryCode enck encv) m) @ rest"
    using mp_readMapHeader_ok [OF a(2), of "length m"] a(1,3) by (auto simp: mapCode_def mapOk_def)
  show "\<exists>s'. mp_getMap rdk rdv k0 v0 old s = (m, s') \<and> mp_inv s' \<and> mp_pend s' = rest"
    using get_entries [of m "[]" s1 rest k0 v0] a(1) s1 by (auto simp: mp_getMap_def mapOk_def)
qed (simp add: mapCode_def)

end

section \<open>The types of the library keep the contract\<close>

lemma takes_into:
  assumes "takes rd bs v" "mp_inv s" "mp_pend s = bs @ rest"
  shows "\<exists>s'. mp_into rd old s = (v, s') \<and> mp_inv s' \<and> mp_pend s' = rest"
proof -
  obtain s' where "rd s = (Some v, s')" "mp_inv s'" "mp_pend s' = rest" using takesD [OF assms] .
  then show ?thesis using assms(2) by (simp add: mp_into_def mp_inv_def)
qed

lemma takes_checked:
  assumes "takes rd bs v" "P v"
  shows "takes (\<lambda>s. mp_bind (rd s) (\<lambda>u s. if P u then (Some u, s) else mp_fail st s)) bs v"
  using takes_bind [of rd bs v "\<lambda>u s. if P u then (Some u, s) else mp_fail st s" "[]" v] takes_return [of v] assms by simp

lemma intCode_nonempty [simp]: "uintCode u \<noteq> []" "intCode i \<noteq> []"
  by (simp_all add: uintCode_def intCode_def)

lemma uint_codec:
  assumes "\<And>u s. 0 \<le> u \<Longrightarrow> u < 2 ^ w \<Longrightarrow> mp_winv s \<Longrightarrow> wr u s = mp_wrote s (uintCode u)" "w \<le> 64"
  shows "mp_codec wr (mp_getUInt w) uintCode (\<lambda>u. 0 \<le> u \<and> u < 2 ^ w)"
proof
  fix u :: int and s rest old assume u: "0 \<le> u \<and> u < 2 ^ w" "mp_inv s" "mp_pend s = uintCode u @ rest"
  then have "u < 2 ^ 64" using power_increasing [of w 64 "2 :: int"] assms(2) by auto
  then show "\<exists>s'. mp_getUInt w old s = (u, s') \<and> mp_inv s' \<and> mp_pend s' = rest"
    unfolding mp_getUInt_def using u by (intro takes_into [OF takes_checked [OF takes_uint]]) auto
qed (use assms(1) in \<open>auto\<close>)

lemma int_codec:
  assumes "\<And>i s. - (2 ^ (w - 1)) \<le> i \<Longrightarrow> i < 2 ^ (w - 1) \<Longrightarrow> mp_winv s \<Longrightarrow> wr i s = mp_wrote s (intCode i)" "w \<le> 64"
  shows "mp_codec wr (mp_getInt w) intCode (\<lambda>i. - (2 ^ (w - 1)) \<le> i \<and> i < 2 ^ (w - 1))"
proof
  fix i :: int and s rest old assume i: "- (2 ^ (w - 1)) \<le> i \<and> i < 2 ^ (w - 1)" "mp_inv s" "mp_pend s = intCode i @ rest"
  have "(2 :: int) ^ (w - 1) \<le> 2 ^ 63" by (rule power_increasing) (use assms(2) in \<open>auto\<close>)
  then have "- (2 ^ 63) \<le> i" "i < 2 ^ 63" using i(1) by linarith+
  then show "\<exists>s'. mp_getInt w old s = (i, s') \<and> mp_inv s' \<and> mp_pend s' = rest"
    unfolding mp_getInt_def using i by (intro takes_into [OF takes_checked [OF takes_int]]) auto
qed (use assms(1) in \<open>auto\<close>)

lemmas mp_putUInt_defs = mp_putUInt64_def mp_putUInt32_def mp_putUInt16_def mp_putUInt8_def uintCode_def mp_write_wrote
lemmas mp_putInt_defs = mp_putInt64_def mp_putInt32_def mp_putInt16_def mp_putInt8_def intCode_def uintCode_def mp_write_wrote

interpretation mpU8: mp_codec mp_putUInt8 "mp_getUInt 8" uintCode "\<lambda>u. 0 \<le> u \<and> u < 2 ^ 8"
  by (rule uint_codec) (auto simp: mp_putUInt_defs)

interpretation mpU16: mp_codec mp_putUInt16 "mp_getUInt 16" uintCode "\<lambda>u. 0 \<le> u \<and> u < 2 ^ 16"
  by (rule uint_codec) (auto simp: mp_putUInt_defs)

interpretation mpU32: mp_codec mp_putUInt32 "mp_getUInt 32" uintCode "\<lambda>u. 0 \<le> u \<and> u < 2 ^ 32"
  by (rule uint_codec) (auto simp: mp_putUInt_defs)

interpretation mpU64: mp_codec mp_putUInt64 "mp_getUInt 64" uintCode "\<lambda>u. 0 \<le> u \<and> u < 2 ^ 64"
  by (rule uint_codec) (auto simp: mp_putUInt_defs)

interpretation mpI8: mp_codec mp_putInt8 "mp_getInt 8" intCode "\<lambda>i. - (2 ^ (8 - 1)) \<le> i \<and> i < 2 ^ (8 - 1)"
  by (rule int_codec) (auto simp: mp_putInt_defs)

interpretation mpI16: mp_codec mp_putInt16 "mp_getInt 16" intCode "\<lambda>i. - (2 ^ (16 - 1)) \<le> i \<and> i < 2 ^ (16 - 1)"
  by (rule int_codec) (auto simp: mp_putInt_defs)

interpretation mpI32: mp_codec mp_putInt32 "mp_getInt 32" intCode "\<lambda>i. - (2 ^ (32 - 1)) \<le> i \<and> i < 2 ^ (32 - 1)"
  by (rule int_codec) (auto simp: mp_putInt_defs)

interpretation mpI64: mp_codec mp_putInt64 "mp_getInt 64" intCode "\<lambda>i. - (2 ^ (64 - 1)) \<le> i \<and> i < 2 ^ (64 - 1)"
  by (rule int_codec) (auto simp: mp_putInt_defs)

interpretation mpBool: mp_codec mp_putBool mp_getBool "\<lambda>b. [if b then 0xc3 else 0xc2]" "\<lambda>b. True"
proof
  fix b s rest old assume s: "mp_inv s" "mp_pend s = [if b then 0xc3 else 0xc2] @ rest"
  obtain s' where "mp_readRawBytes 1 s = (Some [if b then 0xc3 else 0xc2], s')" "mp_inv s'" "mp_pend s' = rest"
    using takesD [OF takes_1 s] .
  then show "\<exists>s'. mp_getBool old s = (b, s') \<and> mp_inv s' \<and> mp_pend s' = rest"
    using s(1) by (simp add: mp_getBool_def mp_inv_def)
qed (simp_all add: mp_putBool_def mp_write_wrote)

interpretation mpFloat: mp_codec mp_putFloat mp_getFloat "\<lambda>f. 0xca # mp_store 4 (uint f)" "\<lambda>f. True"
proof
  fix f :: u32 and s rest old assume s: "mp_inv s" "mp_pend s = (0xca # mp_store 4 (uint f)) @ rest"
  have "takes (\<lambda>s. mp_bind (mp_readRawBytes 4 s) (\<lambda>p s. (Some (word_of_nat (mp_load p)), s))) (mp_store 4 (uint f)) f"
    using takes_last [of "mp_store 4 (uint f)" 4 "\<lambda>p. word_of_nat (mp_load p) :: u32"] by (simp add: mp_load_word)
  then show "\<exists>s'. mp_getFloat old s = (f, s') \<and> mp_inv s' \<and> mp_pend s' = rest"
    unfolding mp_getFloat_def by (intro takes_into [OF takes_first s]) simp
qed (simp_all add: mp_putFloat_def mp_write_wrote)

interpretation mpDouble: mp_codec mp_putDouble mp_getDouble "\<lambda>f. 0xcb # mp_store 8 (uint f)" "\<lambda>f. True"
proof
  fix f :: u64 and s rest old assume s: "mp_inv s" "mp_pend s = (0xcb # mp_store 8 (uint f)) @ rest"
  have "takes (\<lambda>s. mp_bind (mp_readRawBytes 8 s) (\<lambda>p s. (Some (word_of_nat (mp_load p)), s))) (mp_store 8 (uint f)) f"
    using takes_last [of "mp_store 8 (uint f)" 8 "\<lambda>p. word_of_nat (mp_load p) :: u64"] by (simp add: mp_load_word)
  then show "\<exists>s'. mp_getDouble old s = (f, s') \<and> mp_inv s' \<and> mp_pend s' = rest"
    unfolding mp_getDouble_def by (intro takes_into [OF takes_first s]) simp
qed (simp_all add: mp_putDouble_def mp_write_wrote)

text \<open>\<open>writeString\<close> with \<open>readString\<close>, and \<open>writeBytes\<close> with \<open>readBytes\<close>.\<close>

interpretation mpString: mp_codec "\<lambda>str s. snd (mp_writeString str s)" mp_getString
  "\<lambda>str. strHeader (length str) @ str" "\<lambda>str. length str < 2 ^ 32"
proof
  fix str s rest old assume s: "length str < 2 ^ 32" "mp_inv s" "mp_pend s = (strHeader (length str) @ str) @ rest"
  obtain s' where "mp_unpackString s = (Some str, s')" "mp_inv s'" "mp_pend s' = rest"
    using takesD [OF takes_string [OF s(1)] s(2,3)] .
  then show "\<exists>s'. mp_getString old s = (str, s') \<and> mp_inv s' \<and> mp_pend s' = rest" by (simp add: mp_getString_def)
qed (simp_all add: mp_writeString_def mp_headed_def mp_write_wrote strHeader_def Let_def)

interpretation mpBytes: mp_codec "\<lambda>str s. snd (mp_writeBytes str s)" mp_getBytes
  "\<lambda>str. binHeader (length str) @ str" "\<lambda>str. length str < 2 ^ 32"
proof
  fix str s rest old assume s: "length str < 2 ^ 32" "mp_inv s" "mp_pend s = (binHeader (length str) @ str) @ rest"
  obtain s' where "mp_unpackBin s = (Some str, s')" "mp_inv s'" "mp_pend s' = rest"
    using takesD [OF takes_bin [OF s(1)] s(2,3)] .
  then show "\<exists>s'. mp_getBytes old s = (str, s') \<and> mp_inv s' \<and> mp_pend s' = rest" by (simp add: mp_getBytes_def)
qed (simp_all add: mp_writeBytes_def mp_headed_def mp_write_wrote binHeader_def Let_def)

section \<open>Extensions and timestamps\<close>

definition extHeader :: "nat \<Rightarrow> byte \<Rightarrow> bytes" where
  "extHeader len t =
     (if len = 1 then [0xd4, t] else if len = 2 then [0xd5, t] else if len = 4 then [0xd6, t]
      else if len = 8 then [0xd7, t] else if len = 16 then [0xd8, t]
      else if len \<le> 255 then [0xc7, word_of_nat len, t]
      else if len \<le> 65535 then 0xc8 # mp_store 2 (int len) @ [t] else 0xc9 # mp_store 4 (int len) @ [t])"

lemma extHeader_cases:
  obtains b where "b \<in> {0xd4, 0xd5, 0xd6, 0xd7, 0xd8}" "len = 2 ^ unat (b - 0xd4)" "extHeader len t = b # [t]"
  | "len \<le> 255" "extHeader len t = 0xc7 # [word_of_nat len] @ [t]"
  | "255 < len" "len \<le> 65535" "extHeader len t = 0xc8 # mp_store 2 (int len) @ [t]"
  | "65535 < len" "extHeader len t = 0xc9 # mp_store 4 (int len) @ [t]"
proof -
  consider "len \<in> {1, 2, 4, 8, 16}" | "len \<notin> {1, 2, 4, 8, 16}" by blast
  then show thesis
  proof cases
    case 1
    define b where "b = (if len = 1 then 0xd4 else if len = 2 then 0xd5 else if len = 4 then 0xd6 else if len = 8 then 0xd7 else 0xd8 :: byte)"
    have "b \<in> {0xd4, 0xd5, 0xd6, 0xd7, 0xd8}" "len = 2 ^ unat (b - 0xd4)" "extHeader len t = b # [t]"
      using 1 by (auto simp: b_def extHeader_def)
    then show ?thesis by (rule that(1))
  next
    case 2
    then show ?thesis
      using that(2-4) by (cases "len \<le> 255"; cases "len \<le> 65535"; simp add: extHeader_def)
  qed
qed

definition mp_extHeaderBody :: "MsgPackStream \<Rightarrow> (nat \<times> byte) mpr" where
  "mp_extHeaderBody s =
     mp_bind (mp_readRawBytes 1 s) (\<lambda>p s.
       if 0xd4 \<le> hd p \<and> hd p \<le> 0xd8 then
         mp_bind (mp_readRawBytes 1 s) (\<lambda>t s. (Some (2 ^ unat (hd p - 0xd4), hd t), s))
       else if hd p = 0xc7 then
         mp_bind (mp_readRawBytes 1 s) (\<lambda>l s. mp_bind (mp_readRawBytes 1 s) (\<lambda>t s. (Some (unat (hd l), hd t), s)))
       else if hd p = 0xc8 then
         mp_bind (mp_readRawBytes 2 s) (\<lambda>l s. mp_bind (mp_readRawBytes 1 s) (\<lambda>t s. (Some (mp_load l, hd t), s)))
       else if hd p = 0xc9 then
         mp_bind (mp_readRawBytes 4 s) (\<lambda>l s. mp_bind (mp_readRawBytes 1 s) (\<lambda>t s. (Some (mp_load l, hd t), s)))
       else mp_fail MpReadCorruptData s)"

lemma takes_extHeader:
  assumes "len < 2 ^ 32"
  shows "takes mp_extHeaderBody (extHeader len t) (len, t)"
proof (cases rule: extHeader_cases [of len t])
  case (1 b)
  have "0xd4 \<le> b \<and> b \<le> 0xd8" using 1(1) by auto
  then show ?thesis unfolding mp_extHeaderBody_def 1(3)
    using takes_last [of "[t]" 1 "\<lambda>p. (2 ^ unat (b - 0xd4), hd p)"] 1(2) by (intro takes_first) simp
next
  case 2
  have "takes (\<lambda>s. mp_bind (mp_readRawBytes 1 s) (\<lambda>p s. (Some (len, hd p), s))) [t] (len, t)"
    using takes_last [of "[t]" 1 "\<lambda>p. (len, hd p)"] by simp
  then show ?thesis unfolding mp_extHeaderBody_def 2(2)
    using takes_then [of "[word_of_nat len]" 1 "\<lambda>l s. mp_bind (mp_readRawBytes 1 s) (\<lambda>t s. (Some (unat (hd l), hd t), s))" "[t]"] 2(1)
    by (intro takes_first) (simp add: byte_count)
next
  case 3
  have "takes (\<lambda>s. mp_bind (mp_readRawBytes 1 s) (\<lambda>p s. (Some (len, hd p), s))) [t] (len, t)"
    using takes_last [of "[t]" 1 "\<lambda>p. (len, hd p)"] by simp
  then show ?thesis unfolding mp_extHeaderBody_def 3(3)
    using takes_then [of "mp_store 2 (int len)" 2 "\<lambda>l s. mp_bind (mp_readRawBytes 1 s) (\<lambda>t s. (Some (mp_load l, hd t), s))" "[t]"] 3(2)
    by (intro takes_first) (simp add: load_count)
next
  case 4
  have "takes (\<lambda>s. mp_bind (mp_readRawBytes 1 s) (\<lambda>p s. (Some (len, hd p), s))) [t] (len, t)"
    using takes_last [of "[t]" 1 "\<lambda>p. (len, hd p)"] by simp
  then show ?thesis unfolding mp_extHeaderBody_def 4(2)
    using takes_then [of "mp_store 4 (int len)" 4 "\<lambda>l s. mp_bind (mp_readRawBytes 1 s) (\<lambda>t s. (Some (mp_load l, hd t), s))" "[t]"] assms
    by (intro takes_first) (simp add: load_count)
qed

lemma mp_readExtHeader_ok:
  assumes "mp_inv s" "mp_pend s = extHeader len t @ rest" "len \<le> length rest" "len < 2 ^ 32"
  shows "\<exists>s'. mp_readExtHeader s = (Some (len, t), s') \<and> mp_inv s' \<and> mp_pend s' = rest"
proof -
  obtain s1 where s1: "mp_extHeaderBody s = (Some (len, t), s1)" "mp_inv s1" "mp_pend s1 = rest"
    using takesD [OF takes_extHeader [OF assms(4)] assms(1,2)] .
  have "mp_readExtHeader s = mp_bind (mp_extHeaderBody s) (\<lambda>(len, t) s.
      if \<not> lengthFitsRemaining len (mp_pos s) (mp_limit s) then mp_fail MpReadCorruptData s else (Some (len, t), s))"
    using assms(1) unfolding mp_readExtHeader_def mp_extHeaderBody_def by (simp add: mp_bind_assoc mp_inv_def)
  moreover have "lengthFitsRemaining len (mp_pos s1) (mp_limit s1)"
    using s1 assms(3) by (auto simp: mp_inv_def lengthFitsRemaining_def)
  ultimately show ?thesis using s1 by (simp add: mp_bind_def)
qed

interpretation mpExt: mp_codec mp_putExt mp_getExt
  "\<lambda>x. extHeader (length (ext_payload x)) (ext_type x) @ ext_payload x" "\<lambda>x. length (ext_payload x) < 2 ^ 32"
proof
  fix x :: MsgPackExtData and s assume "length (ext_payload x) < 2 ^ 32" "mp_winv s"
  then show "mp_putExt x s = mp_wrote s (extHeader (length (ext_payload x)) (ext_type x) @ ext_payload x)"
    by (simp add: mp_putExt_def mp_writeExtHeader_def mp_write_wrote extHeader_def)
next
  fix x :: MsgPackExtData and s rest old
  assume s: "length (ext_payload x) < 2 ^ 32" "mp_inv s"
    "mp_pend s = (extHeader (length (ext_payload x)) (ext_type x) @ ext_payload x) @ rest"
  obtain s1 where s1: "mp_readExtHeader s = (Some (length (ext_payload x), ext_type x), s1)" "mp_inv s1"
    "mp_pend s1 = ext_payload x @ rest"
    using mp_readExtHeader_ok [OF s(2) _ _ s(1), of "ext_type x" "ext_payload x @ rest"] s(3) by auto
  obtain s2 where s2: "mp_readRawBytes (length (ext_payload x)) s1 = (Some (ext_payload x), s2)" "mp_inv s2" "mp_pend s2 = rest"
    using takesD [OF takes_raw [OF refl] s1(2,3)] .
  show "\<exists>s'. mp_getExt old s = (x, s') \<and> mp_inv s' \<and> mp_pend s' = rest"
    using s1 s2 by (cases "ext_payload x = []") (auto simp: mp_getExt_def)
qed (simp add: extHeader_def)

text \<open>
  The 8-byte timestamp: 30 bits of nanoseconds above 34 bits of seconds.  What it says is the
  seconds modulo \<open>2 ^ 34\<close> and a fraction below 1.1 seconds.
\<close>

lemma mask34: "(0x3ffffffff :: u64) = mask 34"
  by (simp add: mask_eq_exp_minus_1)

lemma unat_drop34: "unat (drop_bit 34 (t :: u64)) < 2 ^ 30"
proof (rule unat_bit_bound)
  fix n assume "bit (drop_bit 34 t) n"
  then have "bit t (34 + n)" by (simp add: bit_drop_bit_eq)
  then show "n < 30" using bit_imp_le_length [of t "34 + n"] by simp
qed

lemma sint_small:
  assumes "unat (x :: u64) < 2 ^ 63"
  shows "sint x = int (unat x)"
proof -
  have "int (unat x) < int (2 ^ 63)" using assms by (simp only: of_nat_less_iff)
  then have "uint x < 2 ^ 63" by simp
  moreover have "- (2 ^ 63) \<le> uint x" using uint_ge_0 [of x] by (simp add: order_trans [of _ 0])
  ultimately have "sint x = uint x" unfolding sint_uint by (intro signed_take_bit_int_eq_self) simp_all
  then show ?thesis by simp
qed

lemma be_val_be_bytes64: "be_val (be_bytes 8 (t :: u64)) = t"
  unfolding be_val_be_bytes by (rule bit_eqI) (auto simp: bit_take_bit_iff)

lemma timestamp_value:
  fixes t :: u64
  shows "unpackDatetime (be_bytes 8 t) = int (unat t mod 2 ^ 34 * 1000 + unat (drop_bit 34 t) div 1000000)"
proof -
  define e where "e = drop_bit 34 t div 1000000"
  have e: "unat e = unat (drop_bit 34 t) div 1000000" by (simp add: e_def unat_div)
  then have small: "unat e \<le> 1073" using unat_drop34 [of t] by simp
  define q where "q = take_bit 34 t"
  have q: "unat q = unat t mod 2 ^ 34" by (simp add: q_def unat_take_bit)
  then have qs: "unat q < 2 ^ 34" by simp
  have "unat (q * 1000) = unat q * 1000" using qs by (simp add: unat_word_ariths)
  then have v: "unat (q * 1000 + e) = unat q * 1000 + unat e" using qs small by (simp add: unat_word_ariths)
  have "sint (q * 1000 + e) = int (unat (q * 1000 + e))"
    using v qs small by (intro sint_small) simp
  moreover have "unpackDatetime (be_bytes 8 t) = sint (q * 1000 + e)"
    by (simp add: unpackDatetime_def be_val_be_bytes64 mask34 q_def e_def flip: take_bit_eq_mask)
  ultimately show ?thesis using v e q by simp
qed

lemma packed_parts:
  fixes m q :: u64
  assumes "unat m < 2 ^ 30"
  shows "unat (push_bit 34 m OR q) mod 2 ^ 34 = unat q mod 2 ^ 34"
    and "unat q < 2 ^ 34 \<Longrightarrow> drop_bit 34 (push_bit 34 m OR q) = m"
proof -
  have "take_bit 34 (push_bit 34 m OR q) = take_bit 34 q"
    by (rule bit_eqI) (auto simp: bit_take_bit_iff bit_or_iff bit_push_bit_iff)
  then show "unat (push_bit 34 m OR q) mod 2 ^ 34 = unat q mod 2 ^ 34" by (metis unat_take_bit)
next
  assume "unat q < 2 ^ 34"
  then have q: "drop_bit 34 q = 0" by (intro word_unat_eq_iff [THEN iffD2]) (simp add: drop_bit_eq_div unat_div)
  have m: "take_bit 30 m = m" using assms by (intro word_unat_eq_iff [THEN iffD2]) (simp add: unat_take_bit)
  have "drop_bit 34 (push_bit 34 m) = take_bit 30 m"
    by (rule bit_eqI) (auto simp: bit_drop_bit_eq bit_push_bit_iff bit_take_bit_iff)
  then show "drop_bit 34 (push_bit 34 m OR q) = m" using q m by (simp add: drop_bit_or)
qed

lemma packed_datetime:
  fixes ms :: int and x :: u64
  assumes x: "x = word_of_int ms"
  shows "\<exists>e. unpackDatetime (packDatetime (Some ms)) = int (unat x div 1000 mod 2 ^ 34 * 1000 + e) \<and> e \<le> 1073
    \<and> (unat x div 1000 < 2 ^ 34 \<longrightarrow> e = unat x mod 1000)"
proof -
  define m q where "m = (x mod 1000) * 1000000" and "q = x div 1000"
  have q: "unat q = unat x div 1000" unfolding q_def by (simp only: unat_div) simp
  have "unat (x mod 1000) = unat x mod 1000" by (simp only: unat_mod) simp
  then have m: "unat m = unat x mod 1000 * 1000000" unfolding m_def by (simp only: unat_word_ariths(2)) simp
  then have mb: "unat m < 2 ^ 30" by simp
  define t where "t = push_bit 34 m OR q"
  let ?e = "unat (drop_bit 34 t) div 1000000"
  have "packDatetime (Some ms) = be_bytes 8 t"
    unfolding packDatetime_def option.case Let_def m_def q_def x t_def ..
  then have "unpackDatetime (packDatetime (Some ms)) = int (unat x div 1000 mod 2 ^ 34 * 1000 + ?e)"
    using timestamp_value [of t] packed_parts(1) [OF mb, of q] unfolding q t_def by simp
  moreover have "?e \<le> 1073" using unat_drop34 [of t] by simp
  moreover have "unat x div 1000 < 2 ^ 34 \<longrightarrow> ?e = unat x mod 1000"
    using packed_parts(2) [OF mb, of q] m unfolding q t_def by simp
  ultimately show ?thesis by blast
qed

lemma datetime_fits:
  assumes "0 \<le> ms" "ms < 2 ^ 34 * 1000"
  shows "unpackDatetime (packDatetime (Some ms)) = ms"
proof -
  define w where "w = unat (word_of_int ms :: u64)"
  obtain e where e: "unpackDatetime (packDatetime (Some ms)) = int (w div 1000 mod 2 ^ 34 * 1000 + e)"
    "w div 1000 < 2 ^ 34 \<longrightarrow> e = w mod 1000"
    using packed_datetime [OF refl, of ms] unfolding w_def by blast
  have w: "int w = ms" using assms unfolding w_def by (simp add: word_of_int_inverse flip: uint_nat)
  then have "w div 1000 < 2 ^ 34" using assms(2) by auto
  then have "int (w div 1000 mod 2 ^ 34 * 1000 + e) = int w" using e(2) by simp
  then show ?thesis using w e(1) by simp
qed

definition dateOk :: "int option \<Rightarrow> bool" where
  "dateOk dt = (case dt of None \<Rightarrow> False | Some ms \<Rightarrow> 0 \<le> ms \<and> ms < 2 ^ 34 * 1000)"

lemma packDatetime_length [simp]: "length (packDatetime (Some ms)) = 8"
  by (simp add: packDatetime_def Let_def)

interpretation mpDateTime: mp_codec mp_putDateTime mp_getDateTime "\<lambda>dt. extHeader 8 0xff @ packDatetime dt" dateOk
proof
  fix dt s assume d: "dateOk dt" "mp_winv s"
  then obtain ms where dt: "dt = Some ms" by (auto simp: dateOk_def split: option.splits)
  have "packDatetime dt \<noteq> []" unfolding dt by (metis packDatetime_length list.size(3) zero_neq_numeral)
  moreover have "mp_status s = MpOk" using d(2) by (simp add: mp_winv_def)
  ultimately show "mp_putDateTime dt s = mp_wrote s (extHeader 8 0xff @ packDatetime dt)"
    using d(2) unfolding dt by (simp add: mp_putDateTime_def mp_writeExtHeader_def mp_write_wrote extHeader_def)
next
  fix dt s rest old assume s: "dateOk dt" "mp_inv s" "mp_pend s = (extHeader 8 0xff @ packDatetime dt) @ rest"
  then obtain ms where dt: "dt = Some ms" by (auto simp: dateOk_def split: option.splits)
  obtain s1 where s1: "mp_readExtHeader s = (Some (8, 0xff), s1)" "mp_inv s1" "mp_pend s1 = packDatetime dt @ rest"
    using mp_readExtHeader_ok [OF s(2), of 8 "0xff" "packDatetime dt @ rest"] s(3) dt by auto
  obtain s2 where s2: "mp_readRawBytes 8 s1 = (Some (packDatetime dt), s2)" "mp_inv s2" "mp_pend s2 = rest"
    using takesD [OF takes_raw s1(2,3), of 8] dt by auto
  have "unpackDatetime (packDatetime dt) = ms" using datetime_fits [of ms] s(1) unfolding dt dateOk_def by simp
  then show "\<exists>s'. mp_getDateTime old s = (dt, s') \<and> mp_inv s' \<and> mp_pend s' = rest"
    using s(2) s1(1) s2 by (auto simp: mp_getDateTime_def dt mp_inv_def)
qed (simp add: extHeader_def)

section \<open>Containers of the library's types\<close>

abbreviation int64Ok :: "int \<Rightarrow> bool" where
  "int64Ok i \<equiv> - (2 ^ 63) \<le> i \<and> i < 2 ^ 63"

abbreviation binCode :: "bytes \<Rightarrow> bytes" where
  "binCode str \<equiv> binHeader (length str) @ str"

interpretation mpInts: mp_codec "mp_putVector mp_putInt64" "mp_getVector (mp_getInt 64) 0" "vectorCode intCode" "vectorOk int64Ok"
  using mpI64.vector_codec [of 0] by simp

interpretation mpIndex: mp_map_codec "\<lambda>str s. snd (mp_writeBytes str s)" mp_getBytes binCode "\<lambda>str. length str < 2 ^ 32"
    "mp_putVector mp_putInt64" "mp_getVector (mp_getInt 64) 0" "vectorCode intCode" "vectorOk int64Ok"
  by unfold_locales

interpretation mpIndexes: mp_codec "mp_putMap (\<lambda>str s. snd (mp_writeBytes str s)) (mp_putVector mp_putInt64)"
    "mp_getMap mp_getBytes (mp_getVector (mp_getInt 64) 0) [] []" "mapCode binCode (vectorCode intCode)"
    "mapOk (\<lambda>str. length str < 2 ^ 32) (vectorOk int64Ok)"
  by (rule mpIndex.map_codec)

section \<open>Properties\<close>

text \<open>
  C31. A date survives the 8-byte timestamp exactly when it lies in the first \<open>2 ^ 34\<close> seconds from
  1970.  A date is its milliseconds from 1970; \<open>DateTime::fromMSecsSinceEpoch\<close> and
  \<open>toMSecsSinceEpoch\<close>, which convert to and from the clock of the standard library, are taken
  to keep them.
\<close>

theorem datetime_survives:
  assumes "- (2 ^ 63) \<le> ms" "ms < 2 ^ 63"
  shows "unpackDatetime (packDatetime (Some ms)) = ms \<longleftrightarrow> 0 \<le> ms \<and> ms < 2 ^ 34 * 1000"
proof (cases "0 \<le> ms \<and> ms < 2 ^ 34 * 1000")
  case False
  define w where "w = unat (word_of_int ms :: u64)"
  obtain e where e: "unpackDatetime (packDatetime (Some ms)) = int (w div 1000 mod 2 ^ 34 * 1000 + e)" "e \<le> 1073"
    using packed_datetime [OF refl, of ms] unfolding w_def by blast
  show ?thesis
  proof (cases "0 \<le> ms")
    case True
    have w: "int w = ms" using True assms(2) unfolding w_def by (simp add: word_of_int_inverse flip: uint_nat)
    then have "2 ^ 34 \<le> w div 1000" using False True by auto
    then have "w div 1000 mod 2 ^ 34 + 2 ^ 34 \<le> w div 1000"
      using mod_less_eq_dividend [of "w div 1000 - 2 ^ 34" "2 ^ 34"] by (simp add: le_mod_geq)
    then have "w div 1000 mod 2 ^ 34 * 1000 + e < w" using e(2) by simp
    then show ?thesis using w e(1) False by auto
  qed (use e(1) in \<open>auto\<close>)
qed (simp add: datetime_fits)

theorem datetime_survives_witness:
  "unpackDatetime (packDatetime (Some 1700000000123)) = 1700000000123 \<and> unpackDatetime (packDatetime (Some (- 1))) \<noteq> - 1"
  using datetime_survives [of 1700000000123] datetime_survives [of "- 1"] by simp

text \<open>
  C18. A \<open>std::map<ByteArray, std::vector<int64_t>>\<close> written with \<open><<\<close> to an empty buffer is read
  back with \<open>>>\<close> from it: the same map, status \<open>Ok\<close>, and nothing left in the buffer.
\<close>

theorem msgpack_roundtrip:
  fixes m :: "(bytes, int list) smap"
  assumes "mapOk (\<lambda>str. length str < 2 ^ 32) (vectorOk int64Ok) m" "length (mapCode binCode (vectorCode intCode) m) < 2 ^ 31"
  shows "\<exists>s'. mp_getMap mp_getBytes (mp_getVector (mp_getInt 64) 0) [] [] old
      (mp_readStream (bio_buf (mp_dev (mp_putMap (\<lambda>str s. snd (mp_writeBytes str s)) (mp_putVector mp_putInt64) m mp_writeStream)))) = (m, s')
    \<and> mp_status s' = MpOk \<and> mp_atEnd s'"
  using assms by (rule mpIndexes.stored_and_loaded)

theorem msgpack_roundtrip_witness:
  "\<exists>s'. mp_getMap mp_getBytes (mp_getVector (mp_getInt 64) 0) [] [] []
      (mp_readStream (bio_buf (mp_dev (mp_putMap (\<lambda>str s. snd (mp_writeBytes str s)) (mp_putVector mp_putInt64)
         [([0x61], [- 1, 300]), ([0x62], [])] mp_writeStream)))) = ([([0x61], [- 1, 300]), ([0x62], [])], s')
    \<and> mp_status s' = MpOk \<and> mp_atEnd s'"
  by (rule msgpack_roundtrip)
    (simp_all add: mapOk_def vectorOk_def smap_wf_def mapCode_def entryCode_def vectorCode_def binHeader_def intCode_def
      uintCode_def mp_countBytes_def mp_store_def)

text \<open>
  The array reader does not notice a missing element: a header that announces \<open>n\<close> elements
  before the bytes of fewer, but at least one, gives those with status \<open>Ok\<close>, as long as \<open>n\<close> is
  not more than the number of bytes that follow, which is all the reader compares it with.
\<close>

theorem msgpack_short_array:
  assumes "list_all int64Ok xs" "xs \<noteq> []" "length xs < n" "n \<le> length (concat (map intCode xs))"
    "length (concat (map intCode xs)) < 2 ^ 30"
  shows "\<exists>s'. mp_getVector (mp_getInt 64) 0 old (mp_readStream (mp_countBytes 0x90 0xdc 0xdd n @ concat (map intCode xs))) = (xs, s')
    \<and> mp_status s' = MpOk \<and> mp_atEnd s'"
  using mpI64.short_vector [of xs n 0 old] assms by simp

theorem msgpack_short_array_witness:
  "\<exists>s'. mp_getVector (mp_getInt 64) 0 [] (mp_readStream (mp_countBytes 0x90 0xdc 0xdd 2 @ concat (map intCode [- 100]))) = ([- 100], s')
    \<and> mp_status s' = MpOk \<and> mp_atEnd s'"
  by (rule msgpack_short_array) (simp_all add: intCode_def mp_store_def)

end
