(* ===== verification/Http_Headers.thy ===== *)
theory Http_Headers
  imports Text_Codecs
begin

text \<open>
  The header part of HTTP/1 messages in \<open>http_utils.h\<close> and \<open>http_utils.cpp\<close>: the header list
  \<open>WithHttpHeaders\<close>, and \<open>HeaderSplitter\<close>, which reads the lines of a header block from a
  connection.  A connection is the sequence of what its next reads deliver.
\<close>

section \<open>Connections\<close>

text \<open>\<open>None\<close> is a read that fails; after the last delivery the stream has ended.\<close>

type_synonym conn = "bytes option list"

fun conn_read :: "nat \<Rightarrow> conn \<Rightarrow> bytes option \<times> conn" where
  "conn_read n [] = (Some [], [])"
| "conn_read n (None # c) = (None, c)"
| "conn_read n (Some bs # c) = (Some (take n bs), if length bs \<le> n then c else Some (drop n bs) # c)"

text \<open>\<open>SocketLike::recv(size)\<close>: the empty string both at the end and on an error.\<close>

definition conn_recv :: "nat \<Rightarrow> conn \<Rightarrow> bytes \<times> conn" where
  "conn_recv n c = (case conn_read n c of (None, c) \<Rightarrow> ([], c) | (Some bs, c) \<Rightarrow> (bs, c))"

fun conn_size :: "conn \<Rightarrow> nat" where
  "conn_size [] = 0"
| "conn_size (None # c) = Suc (conn_size c)"
| "conn_size (Some bs # c) = Suc (length bs) + conn_size c"

lemma conn_read_size: "conn_read n c = (r, c') \<Longrightarrow> conn_size c' + (case r of None \<Rightarrow> 1 | Some bs \<Rightarrow> length bs) \<le> conn_size c"
  by (cases "(n, c)" rule: conn_read.cases) (auto split: if_splits)

lemma conn_recv_size: "conn_recv n c = (bs, c') \<Longrightarrow> conn_size c' + length bs \<le> conn_size c"
  using conn_read_size [of n c] by (auto simp: conn_recv_def split: prod.splits option.splits)

section \<open>Header lists\<close>

record HttpHeader =
  h_name :: bytes
  h_value :: bytes

datatype KnownHeader = ContentTypeHeader | ContentLengthHeader | ContentEncodingHeader | TransferEncodingHeader
  | LocationHeader | LastModifiedHeader | CookieHeader | SetCookieHeader | ContentDispositionHeader | ServerHeader
  | UserAgentHeader | AcceptHeader | AcceptLanguageHeader | AcceptQueryHeader | AcceptEncodingHeader | PragmaHeader
  | CacheControlHeader | DateHeader | AllowHeader | VaryHeader | FrameOptionsHeader | MIMEVersionHeader
  | ConnectionHeader | UpgradeHeader | HostHeader

fun toString_KnownHeader :: "KnownHeader \<Rightarrow> bytes" where
  "toString_KnownHeader ContentTypeHeader = asciiBytes ''Content-Type''"
| "toString_KnownHeader ContentLengthHeader = asciiBytes ''Content-Length''"
| "toString_KnownHeader ContentEncodingHeader = asciiBytes ''Content-Encoding''"
| "toString_KnownHeader TransferEncodingHeader = asciiBytes ''Transfer-Encoding''"
| "toString_KnownHeader LocationHeader = asciiBytes ''Location''"
| "toString_KnownHeader LastModifiedHeader = asciiBytes ''Last-Modified''"
| "toString_KnownHeader CookieHeader = asciiBytes ''Cookie''"
| "toString_KnownHeader SetCookieHeader = asciiBytes ''Set-Cookie''"
| "toString_KnownHeader ContentDispositionHeader = asciiBytes ''Content-Disposition''"
| "toString_KnownHeader UserAgentHeader = asciiBytes ''User-Agent''"
| "toString_KnownHeader AcceptHeader = asciiBytes ''Accept''"
| "toString_KnownHeader AcceptLanguageHeader = asciiBytes ''Accept-Language''"
| "toString_KnownHeader AcceptQueryHeader = asciiBytes ''Accept-Query''"
| "toString_KnownHeader AcceptEncodingHeader = asciiBytes ''Accept-Encoding''"
| "toString_KnownHeader PragmaHeader = asciiBytes ''Pragma''"
| "toString_KnownHeader CacheControlHeader = asciiBytes ''Cache-Control''"
| "toString_KnownHeader DateHeader = asciiBytes ''Date''"
| "toString_KnownHeader AllowHeader = asciiBytes ''Allow''"
| "toString_KnownHeader VaryHeader = asciiBytes ''Vary''"
| "toString_KnownHeader FrameOptionsHeader = asciiBytes ''X-Frame-Options''"
| "toString_KnownHeader MIMEVersionHeader = asciiBytes ''MIME-Version''"
| "toString_KnownHeader ServerHeader = asciiBytes ''Server''"
| "toString_KnownHeader ConnectionHeader = asciiBytes ''Connection''"
| "toString_KnownHeader UpgradeHeader = asciiBytes ''Upgrade''"
| "toString_KnownHeader HostHeader = asciiBytes ''Host''"

definition knownHeaders :: "bytes list" where
  "knownHeaders = map asciiBytes
     [''Content-Type'', ''Content-Length'', ''Content-Encoding'', ''Transfer-Encoding'', ''Location'', ''Last-Modified'',
      ''Cookie'', ''Set-Cookie'', ''Content-Disposition'', ''Server'', ''User-Agent'', ''Accept'', ''Accept-Language'',
      ''Accept-Encoding'', ''DNT'', ''Connection'', ''Pragma'', ''Cache-Control'', ''Date'', ''Allow'', ''Vary'',
      ''X-Frame-Options'', ''MIME-Version'', ''Host'']"

definition normalizeHeaderName :: "bytes \<Rightarrow> bytes" where
  "normalizeHeaderName headerName =
     (case find (\<lambda>goodName. equalsIgnoreCase headerName goodName) knownHeaders of
        Some goodName \<Rightarrow> goodName
      | None \<Rightarrow> headerName)"

definition hasHeader :: "HttpHeader list \<Rightarrow> bytes \<Rightarrow> bool" where
  "hasHeader headers headerName = list_ex (\<lambda>h. equalsIgnoreCase (h_name h) headerName) headers"

fun removeHeader :: "HttpHeader list \<Rightarrow> bytes \<Rightarrow> bool \<times> HttpHeader list" where
  "removeHeader [] headerName = (False, [])"
| "removeHeader (h # headers) headerName =
     (if equalsIgnoreCase (h_name h) headerName then (True, headers)
      else let (ok, headers') = removeHeader headers headerName in (ok, h # headers'))"

definition addHeader :: "HttpHeader list \<Rightarrow> bytes \<Rightarrow> bytes \<Rightarrow> HttpHeader list" where
  "addHeader headers nam val = headers @ [\<lparr> h_name = normalizeHeaderName nam, h_value = val \<rparr>]"

definition setHeader :: "HttpHeader list \<Rightarrow> bytes \<Rightarrow> bytes \<Rightarrow> HttpHeader list" where
  "setHeader headers nam val = addHeader (snd (removeHeader headers nam)) nam val"

definition getHeader :: "HttpHeader list \<Rightarrow> bytes \<Rightarrow> bytes \<Rightarrow> bytes" where
  "getHeader headers headerName defaultValue =
     (case find (\<lambda>h. equalsIgnoreCase (h_name h) headerName) headers of
        Some h \<Rightarrow> h_value h
      | None \<Rightarrow> defaultValue)"

definition multiHeader :: "HttpHeader list \<Rightarrow> bytes \<Rightarrow> bytes list" where
  "multiHeader headers headerName = map h_value (filter (\<lambda>h. equalsIgnoreCase (h_name h) headerName) headers)"

text \<open>\<open>setHeaders\<close> from a \<open>std::map\<close>, whose entries come in key order.\<close>

definition setHeadersMap :: "(bytes \<times> bytes) list \<Rightarrow> HttpHeader list" where
  "setHeadersMap hdrs = map (\<lambda>(k, v). \<lparr> h_name = normalizeHeaderName k, h_value = v \<rparr>) hdrs"

section \<open>Splitting a header block\<close>

fun splitBytesLoop :: "bytes \<Rightarrow> byte \<Rightarrow> int \<Rightarrow> bytes list \<Rightarrow> bytes \<Rightarrow> bytes list" where
  "splitBytesLoop [] sep maxSplit tokens token = (if token \<noteq> [] then tokens @ [token] else tokens)"
| "splitBytesLoop (c # bs) sep maxSplit tokens token =
     (if c = sep \<and> (maxSplit < 0 \<or> int (length tokens) < maxSplit) then splitBytesLoop bs sep maxSplit (tokens @ [token]) []
      else splitBytesLoop bs sep maxSplit tokens (token @ [c]))"

definition splitBytes :: "bytes \<Rightarrow> byte \<Rightarrow> int \<Rightarrow> bytes list" where
  "splitBytes bs sep maxSplit = splitBytesLoop bs sep maxSplit [] []"

datatype HsError = HsNoError | HsEncodingError | HsExhausedMaxLine | HsConnectionError | HsLineTooLong

record HeaderSplitter =
  hs_conn :: conn
  hs_buf :: bytes

text \<open>The \<open>for\<close> loop over the buffer: the line and what is behind it, an error, or the loop runs out of bytes.\<close>

datatype LineScan = LineDone bytes bytes | LineBad HsError | LineMore bytes bool

fun scanLine :: "bytes \<Rightarrow> bytes \<Rightarrow> bool \<Rightarrow> LineScan" where
  "scanLine [] line expectingLineBreak = LineMore line expectingLineBreak"
| "scanLine (c # buf) line expectingLineBreak =
     (if c = 0x0a then LineDone line buf
      else if c = 0x0d then
        (if expectingLineBreak then LineBad HsEncodingError else scanLine buf line True)
      else if expectingLineBreak then LineBad HsEncodingError
      else if length line + 1 > 1024 * 64 then LineBad HsLineTooLong
      else scanLine buf (line @ [c]) False)"

function nextLineLoop :: "bytes \<Rightarrow> bool \<Rightarrow> HeaderSplitter \<Rightarrow> HsError \<times> bytes \<times> HeaderSplitter" where
  "nextLineLoop line expectingLineBreak h =
     (let h' = (if hs_buf h = [] then (case conn_recv 1024 (hs_conn h) of (bs, c) \<Rightarrow> \<lparr> hs_conn = c, hs_buf = bs \<rparr>) else h) in
      if hs_buf h' = [] then (HsConnectionError, [], h')
      else case scanLine (hs_buf h') line expectingLineBreak of
          LineDone line' rest \<Rightarrow> (HsNoError, line', h'\<lparr> hs_buf := rest \<rparr>)
        | LineBad er \<Rightarrow> (er, [], h')
        | LineMore line' e' \<Rightarrow> nextLineLoop line' e' (h'\<lparr> hs_buf := [] \<rparr>))"
  by auto
termination
proof (relation "measure (\<lambda>(_, _, h). conn_size (hs_conn h) + length (hs_buf h))")
  fix line :: bytes and e :: bool and h h' :: HeaderSplitter and line' :: bytes and e' :: bool
  assume "h' = (if hs_buf h = [] then (case conn_recv 1024 (hs_conn h) of (bs, c) \<Rightarrow> \<lparr> hs_conn = c, hs_buf = bs \<rparr>) else h)"
    and "hs_buf h' \<noteq> []"
  then have "conn_size (hs_conn h') < conn_size (hs_conn h) + length (hs_buf h)"
    using conn_recv_size [of 1024 "hs_conn h"] by (auto split: prod.splits if_splits) (metis add_leE length_greater_0_conv less_add_same_cancel1 order_less_le_trans)
  then show "((line', e', h'\<lparr> hs_buf := [] \<rparr>), line, e, h) \<in> measure (\<lambda>(_, _, h). conn_size (hs_conn h) + length (hs_buf h))"
    by simp
qed simp

declare nextLineLoop.simps [simp del]

definition nextLine :: "HeaderSplitter \<Rightarrow> HsError \<times> bytes \<times> HeaderSplitter" where
  "nextLine h = nextLineLoop [] False h"

definition nextHeader :: "HeaderSplitter \<Rightarrow> HsError \<times> HttpHeader \<times> HeaderSplitter" where
  "nextHeader h =
     (let (er, line, h) = nextLine h; none = \<lparr> h_name = [], h_value = [] \<rparr> in
      if er \<noteq> HsNoError then (er, none, h)
      else if line = [] then (HsNoError, none, h)
      else
        let headerParts = splitBytes line 0x3a 1 in
        if length headerParts \<noteq> 2 then (HsEncodingError, none, h)
        else (HsNoError, \<lparr> h_name = trimmed (headerParts ! 0), h_value = trimmed (headerParts ! 1) \<rparr>, h))"

text \<open>\<open>HeaderSplitter::headers\<close> with \<open>n\<close> headers to go.\<close>

fun headersLoop :: "nat \<Rightarrow> HttpHeader list \<Rightarrow> HeaderSplitter \<Rightarrow> HsError \<times> HttpHeader list \<times> HeaderSplitter" where
  "headersLoop 0 headers h = (HsExhausedMaxLine, [], h)"
| "headersLoop (Suc n) headers h =
     (let (er, header, h) = nextHeader h in
      if h_name header \<noteq> [] then headersLoop n (headers @ [header]) h
      else if er \<noteq> HsNoError then (er, [], h)
      else (HsNoError, headers, h))"

definition splitHeaders :: "nat \<Rightarrow> HeaderSplitter \<Rightarrow> HsError \<times> HttpHeader list \<times> HeaderSplitter" where
  "splitHeaders maxHeaders h = headersLoop maxHeaders [] h"

text \<open>The lines with which \<open>Http1Protocol::exchange\<close> and \<open>sendHeader\<close> write a header block.\<close>

definition headerLine :: "HttpHeader \<Rightarrow> bytes" where
  "headerLine h = h_name h @ [0x3a, 0x20] @ h_value h @ [0x0d, 0x0a]"

definition headerBytes :: "HttpHeader list \<Rightarrow> bytes" where
  "headerBytes headers = concat (map headerLine headers) @ [0x0d, 0x0a]"

section \<open>The stream behind the connection\<close>

text \<open>A connection that neither fails nor reports the end early; what it still has to deliver.\<close>

definition conn_ok :: "conn \<Rightarrow> bool" where
  "conn_ok c \<longleftrightarrow> list_all (\<lambda>r. case r of None \<Rightarrow> False | Some bs \<Rightarrow> bs \<noteq> []) c"

fun conn_rest :: "conn \<Rightarrow> bytes" where
  "conn_rest [] = []"
| "conn_rest (r # c) = (case r of None \<Rightarrow> [] | Some bs \<Rightarrow> bs) @ conn_rest c"

lemma conn_ok_simps [simp]:
  "conn_ok []" "conn_ok (Some bs # c) \<longleftrightarrow> bs \<noteq> [] \<and> conn_ok c" "\<not> conn_ok (None # c)"
  by (simp_all add: conn_ok_def)

lemma conn_read_ok:
  assumes "conn_ok c" "0 < n"
  obtains bs c' where "conn_read n c = (Some bs, c')" "bs @ conn_rest c' = conn_rest c" "conn_ok c'"
    "bs = [] \<longleftrightarrow> conn_rest c = []" "length bs \<le> n"
proof (cases "(n, c)" rule: conn_read.cases)
  case (3 k bs c')
  show ?thesis
    by (rule that [of "take n bs" "if length bs \<le> n then c' else Some (drop n bs) # c'"]) (use 3 assms in \<open>auto\<close>)
qed (use that assms in \<open>auto\<close>)

definition hs_stream :: "HeaderSplitter \<Rightarrow> bytes" where
  "hs_stream h = hs_buf h @ conn_rest (hs_conn h)"

lemma scanLine_append:
  "scanLine (xs @ ys) line e =
     (case scanLine xs line e of
        LineDone l rest \<Rightarrow> LineDone l (rest @ ys)
      | LineBad er \<Rightarrow> LineBad er
      | LineMore l e' \<Rightarrow> scanLine ys l e')"
  by (induction xs line e rule: scanLine.induct) auto

text \<open>Only the bytes matter, not how they are delivered.\<close>

lemma nextLineLoop_stream:
  assumes "conn_ok (hs_conn h)"
  shows "\<exists>h'. nextLineLoop line e h =
      (case scanLine (hs_stream h) line e of
         LineDone l rest \<Rightarrow> (HsNoError, l, h') | LineBad er \<Rightarrow> (er, [], h') | LineMore l e' \<Rightarrow> (HsConnectionError, [], h'))
    \<and> (\<forall>l rest. scanLine (hs_stream h) line e = LineDone l rest \<longrightarrow> hs_stream h' = rest \<and> conn_ok (hs_conn h'))"
  using assms
proof (induction line e h rule: nextLineLoop.induct)
  case (1 line e h)
  define h' where "h' = (if hs_buf h = [] then (case conn_recv 1024 (hs_conn h) of (bs, c) \<Rightarrow> \<lparr> hs_conn = c, hs_buf = bs \<rparr>) else h)"
  have h': "hs_stream h' = hs_stream h \<and> conn_ok (hs_conn h') \<and> (hs_buf h' = [] \<longrightarrow> hs_stream h = [])"
  proof (cases "hs_buf h = []")
    case True
    obtain bs c where "conn_read 1024 (hs_conn h) = (Some bs, c)" "bs @ conn_rest c = conn_rest (hs_conn h)" "conn_ok c"
      "bs = [] \<longleftrightarrow> conn_rest (hs_conn h) = []"
      by (rule conn_read_ok [OF "1.prems", of 1024]) simp
    with True show ?thesis by (simp add: h'_def hs_stream_def conn_recv_def)
  qed (use "1.prems" in \<open>simp add: h'_def\<close>)
  show ?case
  proof (cases "hs_buf h' = []")
    case True
    then show ?thesis using h' by (subst nextLineLoop.simps) (simp add: h'_def [symmetric])
  next
    case False
    have sc: "scanLine (hs_stream h) line e = (case scanLine (hs_buf h') line e of
        LineDone l rest \<Rightarrow> LineDone l (rest @ conn_rest (hs_conn h')) | LineBad er \<Rightarrow> LineBad er
      | LineMore l e' \<Rightarrow> scanLine (hs_stream (h'\<lparr> hs_buf := [] \<rparr>)) l e')"
      using h' scanLine_append [of "hs_buf h'" "conn_rest (hs_conn h')" line e] by (auto simp: hs_stream_def split: LineScan.splits)
    show ?thesis
    proof (cases "scanLine (hs_buf h') line e")
      case (LineMore l e')
      from "1.IH" [OF h'_def False this] h' have "conn_ok (hs_conn (h'\<lparr> hs_buf := [] \<rparr>))" by simp
      from "1.IH" [OF h'_def False LineMore this] show ?thesis
        using False LineMore sc by (subst nextLineLoop.simps) (simp add: h'_def [symmetric])
    qed (use False sc h' in \<open>(subst nextLineLoop.simps, simp add: h'_def [symmetric] hs_stream_def)\<close>)+
  qed
qed

section \<open>Lines and headers on the stream\<close>

definition plainText :: "bytes \<Rightarrow> bool" where
  "plainText bs \<longleftrightarrow> list_all (\<lambda>c. c \<noteq> 0x0a \<and> c \<noteq> 0x0d) bs"

lemma plainText_simps [simp]:
  "plainText []" "plainText (c # bs) \<longleftrightarrow> c \<noteq> 0x0a \<and> c \<noteq> 0x0d \<and> plainText bs"
  "plainText (xs @ ys) \<longleftrightarrow> plainText xs \<and> plainText ys"
  by (simp_all add: plainText_def)

lemma scanLine_plain:
  "plainText l \<Longrightarrow> length line + length l \<le> 1024 * 64 \<Longrightarrow> scanLine (l @ 0x0d # 0x0a # rest) line False = LineDone (line @ l) rest"
  by (induction l arbitrary: line) auto

lemma nextLine_plain:
  assumes "conn_ok (hs_conn h)" "hs_stream h = l @ 0x0d # 0x0a # rest" "plainText l" "length l \<le> 1024 * 64"
  obtains h' where "nextLine h = (HsNoError, l, h')" "hs_stream h' = rest" "conn_ok (hs_conn h')"
  using nextLineLoop_stream [OF assms(1), of "[]" False] scanLine_plain [of l "[]" rest] assms that
  by (auto simp: nextLine_def)

lemma splitBytesLoop_full: "splitBytesLoop bs sep 1 [t] token = (if token @ bs = [] then [t] else [t, token @ bs])"
  by (induction bs arbitrary: token) auto

lemma splitBytesLoop_first:
  "sep \<notin> set xs \<Longrightarrow> splitBytesLoop (xs @ sep # ys) sep 1 [] token = (if ys = [] then [token @ xs] else [token @ xs, ys])"
  by (induction xs arbitrary: token) (auto simp: splitBytesLoop_full)

lemma splitBytes_first: "sep \<notin> set xs \<Longrightarrow> splitBytes (xs @ sep # ys) sep 1 = (if ys = [] then [xs] else [xs, ys])"
  by (simp add: splitBytes_def splitBytesLoop_first)

lemma trimmed_space [simp]: "trimmed (0x20 # bs) = trimmed bs"
  by (simp add: trimmed_def isspace_def)

lemma nextHeader_line:
  assumes "conn_ok (hs_conn h)" "hs_stream h = (nam @ 0x3a # val) @ 0x0d # 0x0a # rest"
    "plainText nam" "plainText val" "0x3a \<notin> set nam" "length nam + length val < 1024 * 64"
  obtains h' where "hs_stream h' = rest" "conn_ok (hs_conn h')"
    "nextHeader h = (if val = [] then (HsEncodingError, \<lparr> h_name = [], h_value = [] \<rparr>, h')
       else (HsNoError, \<lparr> h_name = trimmed nam, h_value = trimmed val \<rparr>, h'))"
proof -
  obtain h' where "nextLine h = (HsNoError, nam @ 0x3a # val, h')" "hs_stream h' = rest" "conn_ok (hs_conn h')"
    by (rule nextLine_plain [OF assms(1,2)]) (use assms in \<open>simp_all\<close>)
  then show ?thesis by (intro that [of h']) (simp_all add: nextHeader_def splitBytes_first assms(5))
qed

text \<open>A header that its line can carry: the name without colon, both without line breaks and outer blanks.\<close>

definition plainHeader :: "HttpHeader \<Rightarrow> bool" where
  "plainHeader h \<longleftrightarrow> h_name h \<noteq> [] \<and> 0x3a \<notin> set (h_name h) \<and> plainText (h_name h) \<and> plainText (h_value h)
     \<and> trimmed (h_name h) = h_name h \<and> trimmed (h_value h) = h_value h \<and> length (h_name h) + length (h_value h) < 65535"

lemma headersLoop_lines:
  assumes "list_all plainHeader hs" "conn_ok (hs_conn h)" "hs_stream h = concat (map headerLine hs) @ rest"
  shows "\<exists>h'. headersLoop (length hs + n) acc h = headersLoop n (acc @ hs) h' \<and> hs_stream h' = rest \<and> conn_ok (hs_conn h')"
  using assms
proof (induction hs arbitrary: acc h)
  case (Cons x hs)
  obtain h1 where h1: "hs_stream h1 = concat (map headerLine hs) @ rest" "conn_ok (hs_conn h1)" "nextHeader h = (HsNoError, x, h1)"
    by (rule nextHeader_line [OF Cons.prems(2), of "h_name x" "0x20 # h_value x" "concat (map headerLine hs) @ rest"])
      (use Cons.prems in \<open>simp_all add: headerLine_def [of x] plainHeader_def\<close>)
  then show ?case using Cons.IH [of h1 "acc @ [x]"] Cons.prems(1) by (simp add: plainHeader_def)
qed auto

lemma nextHeader_blank:
  assumes "conn_ok (hs_conn h)" "hs_stream h = 0x0d # 0x0a # rest"
  obtains h' where "nextHeader h = (HsNoError, \<lparr> h_name = [], h_value = [] \<rparr>, h')" "hs_stream h' = rest" "conn_ok (hs_conn h')"
proof -
  obtain h' where "nextLine h = (HsNoError, [], h')" "hs_stream h' = rest" "conn_ok (hs_conn h')"
    by (rule nextLine_plain [OF assms(1), of "[]" rest]) (use assms in \<open>simp_all\<close>)
  then show ?thesis by (intro that [of h']) (simp_all add: nextHeader_def)
qed

lemma splitHeaders_block:
  assumes "list_all plainHeader hs" "length hs < maxHeaders" "conn_ok (hs_conn h)" "hs_stream h = headerBytes hs @ body"
  shows "\<exists>h'. splitHeaders maxHeaders h = (HsNoError, hs, h') \<and> hs_stream h' = body \<and> conn_ok (hs_conn h')"
proof -
  obtain n where n: "maxHeaders = length hs + Suc n" using less_imp_Suc_add [OF assms(2)] by auto
  obtain h1 where h1: "splitHeaders maxHeaders h = headersLoop (Suc n) hs h1" "hs_stream h1 = 0x0d # 0x0a # body" "conn_ok (hs_conn h1)"
    using headersLoop_lines [OF assms(1,3), of "0x0d # 0x0a # body" "Suc n" "[]"] assms(4)
    by (auto simp: headerBytes_def splitHeaders_def n)
  obtain h2 where "nextHeader h1 = (HsNoError, \<lparr> h_name = [], h_value = [] \<rparr>, h2)" "hs_stream h2 = body" "conn_ok (hs_conn h2)"
    by (rule nextHeader_blank [OF h1(3,2)])
  then show ?thesis using h1(1) by simp
qed

section \<open>Header list operations\<close>

lemma equalsIgnoreCase_sym: "equalsIgnoreCase a b \<longleftrightarrow> equalsIgnoreCase b a"
  by (auto simp: equalsIgnoreCase_def)

lemma equalsIgnoreCase_trans: "equalsIgnoreCase a b \<Longrightarrow> equalsIgnoreCase c a \<longleftrightarrow> equalsIgnoreCase c b"
  by (simp add: equalsIgnoreCase_def)

lemma normalizeHeaderName_same: "equalsIgnoreCase (normalizeHeaderName nam) nam"
  by (auto simp: normalizeHeaderName_def find_Some_iff equalsIgnoreCase_def split: option.splits)

lemma multiHeader_add:
  "multiHeader (addHeader headers nam val) q = multiHeader headers q @ (if equalsIgnoreCase q nam then [val] else [])"
  using normalizeHeaderName_same [of nam] by (auto simp: multiHeader_def addHeader_def equalsIgnoreCase_def)

lemma multiHeader_remove:
  "multiHeader (snd (removeHeader headers nam)) q =
     (if equalsIgnoreCase q nam then drop 1 (multiHeader headers q) else multiHeader headers q)"
  by (induction headers nam rule: removeHeader.induct) (auto simp: multiHeader_def equalsIgnoreCase_def split: prod.splits)

lemma removeHeader_found: "fst (removeHeader headers nam) \<longleftrightarrow> hasHeader headers nam"
  by (induction headers nam rule: removeHeader.induct) (auto simp: hasHeader_def split: prod.splits)

lemma getHeader_multi: "getHeader headers nam dflt = (case multiHeader headers nam of [] \<Rightarrow> dflt | v # _ \<Rightarrow> v)"
  by (induction headers) (auto simp: getHeader_def multiHeader_def)

lemma hasHeader_multi: "hasHeader headers nam \<longleftrightarrow> multiHeader headers nam \<noteq> []"
  by (induction headers) (auto simp: hasHeader_def multiHeader_def)

lemma multiHeader_set:
  "multiHeader (setHeader headers nam val) q =
     (if equalsIgnoreCase q nam then drop 1 (multiHeader headers q) @ [val] else multiHeader headers q)"
  by (simp add: setHeader_def multiHeader_add multiHeader_remove)

section \<open>Properties\<close>

text \<open>
  C26. A header block written as \<open>exchange\<close> and \<open>sendHeader\<close> write it is read back header by
  header, however the bytes are cut into deliveries, and exactly the bytes behind it are left for the body.
\<close>

theorem headers_roundtrip:
  assumes "list_all plainHeader hs" "length hs < maxHeaders" "conn_ok (hs_conn h)" "hs_stream h = headerBytes hs @ body"
  shows "\<exists>h'. splitHeaders maxHeaders h = (HsNoError, hs, h') \<and> hs_stream h' = body \<and> conn_ok (hs_conn h')"
  using assms by (rule splitHeaders_block)

theorem headers_roundtrip_witness:
  "\<exists>h'. splitHeaders 64 \<lparr> hs_conn = [Some [0x61], Some [0x3a, 0x20, 0x62, 0x0d], Some [0x0a, 0x0d, 0x0a, 0x78]], hs_buf = [] \<rparr>
     = (HsNoError, [\<lparr> h_name = [0x61], h_value = [0x62] \<rparr>], h') \<and> hs_stream h' = [0x78] \<and> conn_ok (hs_conn h')"
  by (rule headers_roundtrip)
    (simp_all add: plainHeader_def hs_stream_def headerBytes_def headerLine_def trimmed_def isspace_def)

text \<open>
  A line that starts with a colon ends the header block without an error: the headers before it
  are the result and the lines behind it are left as the body.
\<close>

theorem nameless_header_ends_block:
  assumes "list_all plainHeader hs" "length hs < maxHeaders" "conn_ok (hs_conn h)"
    "hs_stream h = concat (map headerLine hs) @ 0x3a # val @ 0x0d # 0x0a # rest" "plainText val" "val \<noteq> []" "length val < 65536"
  shows "\<exists>h'. splitHeaders maxHeaders h = (HsNoError, hs, h') \<and> hs_stream h' = rest"
proof -
  obtain n where n: "maxHeaders = length hs + Suc n" using less_imp_Suc_add [OF assms(2)] by auto
  obtain h1 where h1: "splitHeaders maxHeaders h = headersLoop (Suc n) hs h1" "hs_stream h1 = ([] @ 0x3a # val) @ 0x0d # 0x0a # rest"
    "conn_ok (hs_conn h1)"
    using headersLoop_lines [OF assms(1,3,4), of "Suc n" "[]"] by (auto simp: splitHeaders_def n)
  obtain h2 where "nextHeader h1 = (HsNoError, \<lparr> h_name = trimmed [], h_value = trimmed val \<rparr>, h2)" "hs_stream h2 = rest"
    by (rule nextHeader_line [OF h1(3,2)]) (use assms in \<open>simp_all\<close>)
  then show ?thesis using h1(1) by (simp add: trimmed_def)
qed

theorem nameless_header_ends_block_witness:
  "\<exists>h'. splitHeaders 64 \<lparr> hs_conn = [Some [0x3a, 0x62, 0x0d, 0x0a, 0x61, 0x3a, 0x62, 0x0d, 0x0a]], hs_buf = [] \<rparr> = (HsNoError, [], h')
     \<and> hs_stream h' = [0x61, 0x3a, 0x62, 0x0d, 0x0a]"
  by (rule nameless_header_ends_block [where val = "[0x62]"]) (simp_all add: hs_stream_def)

text \<open>
  A header with nothing behind its colon, which HTTP allows, makes the whole block an encoding error.
\<close>

theorem empty_value_rejected:
  assumes "list_all plainHeader hs" "length hs < maxHeaders" "conn_ok (hs_conn h)"
    "hs_stream h = concat (map headerLine hs) @ nam @ 0x3a # 0x0d # 0x0a # rest" "plainText nam" "0x3a \<notin> set nam" "length nam < 65536"
  shows "\<exists>h'. splitHeaders maxHeaders h = (HsEncodingError, [], h')"
proof -
  obtain n where n: "maxHeaders = length hs + Suc n" using less_imp_Suc_add [OF assms(2)] by auto
  obtain h1 where h1: "splitHeaders maxHeaders h = headersLoop (Suc n) hs h1" "hs_stream h1 = (nam @ 0x3a # []) @ 0x0d # 0x0a # rest"
    "conn_ok (hs_conn h1)"
    using headersLoop_lines [OF assms(1,3,4), of "Suc n" "[]"] by (auto simp: splitHeaders_def n)
  obtain h2 where "nextHeader h1 = (HsEncodingError, \<lparr> h_name = [], h_value = [] \<rparr>, h2)"
    by (rule nextHeader_line [OF h1(3,2)]) (use assms in \<open>simp_all\<close>)
  then show ?thesis using h1(1) by simp
qed

theorem empty_value_rejected_witness:
  "\<exists>h'. splitHeaders 64 \<lparr> hs_conn = [Some [0x61, 0x3a, 0x0d, 0x0a, 0x0d, 0x0a]], hs_buf = [] \<rparr> = (HsEncodingError, [], h')"
  by (rule empty_value_rejected [where hs = "[]" and nam = "[0x61]" and rest = "[0x0d, 0x0a]"]) (simp_all add: hs_stream_def)

text \<open>
  \<open>setHeader\<close> is what \<open>header\<close> returns afterwards, unless the list had two headers of that name:
  it replaces the first only and \<open>header\<close> then finds the second.  Other names are not affected.
\<close>

theorem set_header_lookup:
  "getHeader (setHeader headers nam val) q dflt =
     (if equalsIgnoreCase q nam then (case multiHeader headers nam of _ # v # _ \<Rightarrow> v | _ \<Rightarrow> val)
      else getHeader headers q dflt)"
proof (cases "equalsIgnoreCase q nam")
  case True
  then have "multiHeader headers q = multiHeader headers nam" by (simp add: multiHeader_def equalsIgnoreCase_def)
  then show ?thesis using True by (simp add: getHeader_multi multiHeader_set split: list.splits)
qed (simp add: getHeader_multi multiHeader_set)

end
