(* ===== verification/Http_Body.thy ===== *)
theory Http_Body
  imports Http_Headers Bytes_IO Std_Text
begin

text \<open>
  The body of an HTTP/1 message in \<open>http_utils.cpp\<close>: the chunked encoding (\<open>ChunkedWriter\<close>,
  \<open>ChunkedBlockReader\<close>, \<open>ChunkedBodyFile\<close>) and the body of known length (\<open>PlainBodyFile\<close>), read to
  the end by \<open>FileLike::readall\<close>.
\<close>

section \<open>Hexadecimal numbers\<close>

definition hexDigit :: "nat \<Rightarrow> byte" where
  "hexDigit d = (if d < 10 then 0x30 + word_of_nat d else 0x57 + word_of_nat d)"

text \<open>The loop of \<open>number(value, 16)\<close>.\<close>

fun hexLoop :: "nat \<Rightarrow> bytes" where
  "hexLoop u = (if u = 0 then [] else hexLoop (u div 16) @ [hexDigit (u mod 16)])"

declare hexLoop.simps [simp del]

definition number16 :: "int \<Rightarrow> bytes" where
  "number16 val = (let u = nat (val mod 2 ^ 64) in if u = 0 then [0x30] else hexLoop u)"

definition hexVal :: "byte \<Rightarrow> nat" where
  "hexVal c = (if isdigit c then unat c - 0x30 else if 0x61 \<le> c then unat c - 0x57 else unat c - 0x37)"

definition isxdigit :: "byte \<Rightarrow> bool" where
  "isxdigit c \<longleftrightarrow> isdigit c \<or> 0x41 \<le> c \<and> c \<le> 0x46 \<or> 0x61 \<le> c \<and> c \<le> 0x66"

text \<open>\<open>std::stoul(str, nullptr, 16)\<close>; \<open>None\<close> is an exception.\<close>

definition stoul16 :: "bytes \<Rightarrow> nat option" where
  "stoul16 str =
     (let str = dropWhile isspace str;
          neg = (str \<noteq> [] \<and> hd str = 0x2d);
          str = (if str \<noteq> [] \<and> (hd str = 0x2d \<or> hd str = 0x2b) then tl str else str);
          str = (case str of
                   a # b # c # _ \<Rightarrow> if a = 0x30 \<and> (b = 0x78 \<or> b = 0x58) \<and> isxdigit c then drop 2 str else str
                 | _ \<Rightarrow> str);
          ds = takeWhile isxdigit str;
          v = foldl (\<lambda>v c. v * 16 + hexVal c) 0 ds
      in if ds = [] \<or> v \<ge> 2 ^ 64 then None else Some (if neg then (2 ^ 64 - v) mod 2 ^ 64 else v))"

section \<open>Reading chunks\<close>

datatype CbError = CbNoError | CbChunkedEncodingError | CbUnrewindableBodyError | CbConnectionError

record ChunkedBlockReader =
  cr_conn :: conn
  cr_buf :: bytes

definition cr_size :: "ChunkedBlockReader \<Rightarrow> nat" where
  "cr_size r = conn_size (cr_conn r) + length (cr_buf r)"

text \<open>The first loop of \<open>nextBlock\<close>; \<open>False\<close> when a read fails.\<close>

function fillLine :: "ChunkedBlockReader \<Rightarrow> bool \<times> ChunkedBlockReader" where
  "fillLine r =
     (if length (cr_buf r) < 6 \<and> 0x0a \<notin> set (cr_buf r) then
        (case conn_read (1024 * 64) (cr_conn r) of
           (None, c) \<Rightarrow> (False, r\<lparr> cr_conn := c \<rparr>)
         | (Some bs, c) \<Rightarrow>
             if bs = [] then (True, r\<lparr> cr_conn := c \<rparr>) else fillLine \<lparr> cr_conn = c, cr_buf = cr_buf r @ bs \<rparr>)
      else (True, r))"
  by auto
termination
proof (relation "measure (\<lambda>r. 6 - length (cr_buf r))")
  fix r :: ChunkedBlockReader and p c a and bs :: bytes
  assume "length (cr_buf r) < 6 \<and> 0x0a \<notin> set (cr_buf r)" "bs \<noteq> []"
  then show "(\<lparr> cr_conn = c, cr_buf = cr_buf r @ bs \<rparr>, r) \<in> measure (\<lambda>r. 6 - length (cr_buf r))"
    by (cases bs) auto
qed simp

declare fillLine.simps [simp del]

text \<open>The loop over the first \<open>n\<close> bytes of the buffer: the digits and what is behind the line.\<close>

fun chunkLine :: "nat \<Rightarrow> bytes \<Rightarrow> bool \<Rightarrow> bytes \<Rightarrow> (bytes \<times> bytes) option" where
  "chunkLine (Suc n) (c # buf) expectingLineBreak numBytes =
     (if expectingLineBreak then (if c = 0x0a then Some (numBytes, buf) else None)
      else if c = 0x0a then None
      else if c = 0x0d then chunkLine n buf True numBytes
      else chunkLine n buf False (numBytes @ [c]))"
| "chunkLine n buf expectingLineBreak numBytes = None"

text \<open>The last loop of \<open>nextBlock\<close>, until \<open>need\<close> bytes are buffered.\<close>

function fillChunk :: "nat \<Rightarrow> ChunkedBlockReader \<Rightarrow> bool \<times> ChunkedBlockReader" where
  "fillChunk need r =
     (if length (cr_buf r) < need then
        (case conn_read (1024 * 64) (cr_conn r) of
           (None, c) \<Rightarrow> (False, r\<lparr> cr_conn := c \<rparr>)
         | (Some bs, c) \<Rightarrow>
             if bs = [] then (False, r\<lparr> cr_conn := c \<rparr>) else fillChunk need \<lparr> cr_conn = c, cr_buf = cr_buf r @ bs \<rparr>)
      else (True, r))"
  by auto
termination
proof (relation "measure (\<lambda>(need, r). need - length (cr_buf r))")
  fix need :: nat and r :: ChunkedBlockReader and p c a and bs :: bytes
  assume "length (cr_buf r) < need" "bs \<noteq> []"
  then show "((need, \<lparr> cr_conn = c, cr_buf = cr_buf r @ bs \<rparr>), need, r) \<in> measure (\<lambda>(need, r). need - length (cr_buf r))"
    by (cases bs) auto
qed simp

declare fillChunk.simps [simp del]

text \<open>\<open>static_cast<int32_t>(stoul(numBytes, nullptr, 16))\<close>.\<close>

definition chunkLength :: "bytes \<Rightarrow> int option" where
  "chunkLength numBytes = map_option (\<lambda>v. sint (word_of_nat v :: 32 word)) (stoul16 numBytes)"

definition nextBlock :: "int \<Rightarrow> ChunkedBlockReader \<Rightarrow> CbError \<times> bytes \<times> ChunkedBlockReader" where
  "nextBlock leftBytes r =
     (case fillLine r of
        (False, r) \<Rightarrow> (CbConnectionError, [], r)
      | (True, r) \<Rightarrow>
          if length (cr_buf r) < 3 then (CbChunkedEncodingError, [], r)
          else case chunkLine 6 (cr_buf r) False [] of
              None \<Rightarrow> (CbChunkedEncodingError, [], r)
            | Some (numBytes, rest) \<Rightarrow>
                let r = r\<lparr> cr_buf := rest \<rparr> in
                (case chunkLength numBytes of
                   None \<Rightarrow> (CbChunkedEncodingError, [], r)
                 | Some bytesToRead \<Rightarrow>
                     if bytesToRead > leftBytes \<or> bytesToRead < 0 then (CbUnrewindableBodyError, [], r)
                     else case fillChunk (nat bytesToRead + 2) r of
                         (False, r) \<Rightarrow> (CbConnectionError, [], r)
                       | (True, r) \<Rightarrow>
                           (CbNoError, take (nat bytesToRead) (cr_buf r), r\<lparr> cr_buf := drop (nat bytesToRead + 2) (cr_buf r) \<rparr>)))"

lemma fillLine_cases:
  "\<not> (length (cr_buf r) < 6 \<and> 0x0a \<notin> set (cr_buf r)) \<Longrightarrow> fillLine r = (True, r)"
  "length (cr_buf r) < 6 \<and> 0x0a \<notin> set (cr_buf r) \<Longrightarrow> conn_read (1024 * 64) (cr_conn r) = (None, c) \<Longrightarrow>
     fillLine r = (False, r\<lparr> cr_conn := c \<rparr>)"
  "length (cr_buf r) < 6 \<and> 0x0a \<notin> set (cr_buf r) \<Longrightarrow> conn_read (1024 * 64) (cr_conn r) = (Some [], c) \<Longrightarrow>
     fillLine r = (True, r\<lparr> cr_conn := c \<rparr>)"
  "length (cr_buf r) < 6 \<and> 0x0a \<notin> set (cr_buf r) \<Longrightarrow> conn_read (1024 * 64) (cr_conn r) = (Some bs, c) \<Longrightarrow> bs \<noteq> [] \<Longrightarrow>
     fillLine r = fillLine \<lparr> cr_conn = c, cr_buf = cr_buf r @ bs \<rparr>"
  by (subst fillLine.simps, auto)+

lemma fillChunk_cases:
  "need \<le> length (cr_buf r) \<Longrightarrow> fillChunk need r = (True, r)"
  "length (cr_buf r) < need \<Longrightarrow> conn_read (1024 * 64) (cr_conn r) = (None, c) \<Longrightarrow> fillChunk need r = (False, r\<lparr> cr_conn := c \<rparr>)"
  "length (cr_buf r) < need \<Longrightarrow> conn_read (1024 * 64) (cr_conn r) = (Some [], c) \<Longrightarrow> fillChunk need r = (False, r\<lparr> cr_conn := c \<rparr>)"
  "length (cr_buf r) < need \<Longrightarrow> conn_read (1024 * 64) (cr_conn r) = (Some bs, c) \<Longrightarrow> bs \<noteq> [] \<Longrightarrow>
     fillChunk need r = fillChunk need \<lparr> cr_conn = c, cr_buf = cr_buf r @ bs \<rparr>"
  by (subst fillChunk.simps, auto)+

lemma read_cases:
  obtains c where "conn_read n cc = (None, c)" "conn_size c \<le> conn_size cc"
  | c where "conn_read n cc = (Some [], c)" "conn_size c \<le> conn_size cc"
  | bs c where "conn_read n cc = (Some bs, c)" "bs \<noteq> []" "conn_size c + length bs \<le> conn_size cc"
proof -
  obtain r c where c: "conn_read n cc = (r, c)" by fastforce
  show ?thesis
  proof (cases r)
    case None
    then show ?thesis using c conn_read_size [OF c] by (intro that(1)) (auto dest: Suc_leD)
  next
    case (Some bs)
    then show ?thesis using c conn_read_size [OF c] that(2,3) by (cases "bs = []") simp_all
  qed
qed

lemma fillLine_size: "fillLine r = (ok, r') \<Longrightarrow> cr_size r' \<le> cr_size r"
proof (induction r rule: fillLine.induct)
  case (1 r)
  show ?case
  proof (cases "length (cr_buf r) < 6 \<and> 0x0a \<notin> set (cr_buf r)")
    case True
    show ?thesis
    proof (cases rule: read_cases [of "1024 * 64" "cr_conn r"])
      case (3 bs c)
      then have "fillLine \<lparr> cr_conn = c, cr_buf = cr_buf r @ bs \<rparr> = (ok, r')" using "1.prems" fillLine_cases(4) [OF True] by simp
      from "1.IH" [OF True 3(1) [symmetric] refl 3(2) this] show ?thesis using 3(3) by (simp add: cr_size_def)
    qed (use "1.prems" fillLine_cases(2,3) [OF True] in \<open>auto simp: cr_size_def\<close>)
  qed (use "1.prems" fillLine_cases(1) [of r] in \<open>simp\<close>)
qed

lemma fillChunk_size: "fillChunk need r = (ok, r') \<Longrightarrow> cr_size r' \<le> cr_size r \<and> (ok \<longrightarrow> need \<le> length (cr_buf r'))"
proof (induction need r rule: fillChunk.induct)
  case (1 need r)
  show ?case
  proof (cases "length (cr_buf r) < need")
    case True
    show ?thesis
    proof (cases rule: read_cases [of "1024 * 64" "cr_conn r"])
      case (3 bs c)
      then have "fillChunk need \<lparr> cr_conn = c, cr_buf = cr_buf r @ bs \<rparr> = (ok, r')" using "1.prems" fillChunk_cases(4) [OF True] by simp
      from "1.IH" [OF True 3(1) [symmetric] refl 3(2) this] show ?thesis using 3(3) by (simp add: cr_size_def)
    qed (use "1.prems" fillChunk_cases(2,3) [OF True] in \<open>auto simp: cr_size_def\<close>)
  qed (use "1.prems" fillChunk_cases(1) [of need r] in \<open>simp\<close>)
qed

lemma chunkLine_length: "chunkLine n buf e num = Some (num', rest) \<Longrightarrow> length rest < length buf"
  by (induction n buf e num rule: chunkLine.induct) (auto split: if_splits)

lemma nextBlock_size:
  assumes "nextBlock leftBytes r = (CbNoError, block, r')"
  shows "cr_size r' + length block < cr_size r"
proof -
  obtain r1 num rest k r2 where s: "fillLine r = (True, r1)" "chunkLine 6 (cr_buf r1) False [] = Some (num, rest)"
    "fillChunk (k + 2) (r1\<lparr> cr_buf := rest \<rparr>) = (True, r2)" "block = take k (cr_buf r2)" "r' = r2\<lparr> cr_buf := drop (k + 2) (cr_buf r2) \<rparr>"
    using assms by (auto simp: nextBlock_def Let_def split: prod.splits bool.splits option.splits if_splits)
  have "cr_size (r1\<lparr> cr_buf := rest \<rparr>) < cr_size r1" using chunkLine_length [OF s(2)] by (simp add: cr_size_def)
  moreover have "cr_size r' + length block < cr_size r2" using fillChunk_size [OF s(3)] by (auto simp: s(4,5) cr_size_def)
  ultimately show ?thesis using fillLine_size [OF s(1)] fillChunk_size [OF s(3)] by linarith
qed

record ChunkedBodyFile =
  cb_reader :: ChunkedBlockReader
  cb_error :: CbError
  cb_buf :: bytes
  cb_max :: int
  cb_count :: int
  cb_eof :: bool

definition newChunkedBodyFile :: "int \<Rightarrow> bytes \<Rightarrow> conn \<Rightarrow> ChunkedBodyFile" where
  "newChunkedBodyFile maxBodySize partialBody c =
     \<lparr> cb_reader = \<lparr> cr_conn = c, cr_buf = partialBody \<rparr>, cb_error = CbNoError, cb_buf = [], cb_max = maxBodySize, cb_count = 0,
       cb_eof = False \<rparr>"

text \<open>The loop of \<open>ChunkedBodyFile::read\<close>; \<open>False\<close> when a block cannot be read.\<close>

function cbFill :: "nat \<Rightarrow> ChunkedBodyFile \<Rightarrow> bool \<times> ChunkedBodyFile" where
  "cbFill n f =
     (if length (cb_buf f) < n \<and> \<not> cb_eof f then
        if cb_max f \<ge> 0 \<and> cb_max f - cb_count f \<le> 0 then (True, f)
        else
          let leftBytes = (if cb_max f \<ge> 0 then cb_max f - cb_count f else 2 ^ 31 - 1) in
          (case nextBlock leftBytes (cb_reader f) of
             (er, block, r) \<Rightarrow>
               if er \<noteq> CbNoError then (False, f\<lparr> cb_reader := r, cb_error := er \<rparr>)
               else if block = [] then (True, f\<lparr> cb_reader := r, cb_error := er, cb_eof := True \<rparr>)
               else cbFill n (f\<lparr> cb_reader := r, cb_error := er, cb_count := cb_count f + int (length block), cb_buf := cb_buf f @ block \<rparr>))
      else (True, f))"
  by auto
termination
proof (relation "measure (\<lambda>(n, f). cr_size (cb_reader f))", goal_cases)
  case (2 n f leftBytes er q block r)
  then show ?case using nextBlock_size [of leftBytes "cb_reader f" block r] by simp
qed simp

declare cbFill.simps [simp del]

definition cb_read :: "nat \<Rightarrow> ChunkedBodyFile \<Rightarrow> bytes option \<times> ChunkedBodyFile" where
  "cb_read n f =
     (case cbFill n f of
        (False, f) \<Rightarrow> (None, f)
      | (True, f) \<Rightarrow> let bytesToRead = min (length (cb_buf f)) n
                     in (Some (take bytesToRead (cb_buf f)), f\<lparr> cb_buf := drop bytesToRead (cb_buf f) \<rparr>))"

section \<open>Bodies of known length\<close>




section \<open>Writing chunks\<close>

text \<open>The loop of \<open>ChunkedWriter::write\<close> over the virtual \<open>write\<close> of its stream, which returns the number of bytes.\<close>

definition chunk :: "bytes \<Rightarrow> bytes" where
  "chunk block = number16 (int (length block)) @ [0x0d, 0x0a] @ block @ [0x0d, 0x0a]"

function cwLoop :: "(bytes \<Rightarrow> 's \<Rightarrow> int \<times> 's) \<Rightarrow> bytes \<Rightarrow> 's \<Rightarrow> bool \<times> 's" where
  "cwLoop wr dat s =
     (if dat = [] then (True, s)
      else
        let buf = chunk (take 0xffff dat); (writtenBytes, s) = wr buf s in
        if writtenBytes \<noteq> int (length buf) then (False, s) else cwLoop wr (drop 0xffff dat) s)"
  by auto
termination
  by (relation "measure (\<lambda>(wr, dat, s). length dat)") auto

declare cwLoop.simps [simp del]

definition cw_write :: "(bytes \<Rightarrow> 's \<Rightarrow> int \<times> 's) \<Rightarrow> bytes \<Rightarrow> 's \<Rightarrow> int \<times> 's" where
  "cw_write wr dat s = (case cwLoop wr dat s of (ok, s) \<Rightarrow> (if ok then int (length dat) else - 1, s))"

definition cw_close :: "(bytes \<Rightarrow> 's \<Rightarrow> int \<times> 's) \<Rightarrow> 's \<Rightarrow> 's" where
  "cw_close wr s = snd (wr [0x30, 0x0d, 0x0a, 0x0d, 0x0a] s)"

section \<open>The length line of a chunk\<close>

lemma hexLoop_step: "u \<noteq> 0 \<Longrightarrow> hexLoop u = hexLoop (u div 16) @ [hexDigit (u mod 16)]" "hexLoop 0 = []"
  by (subst hexLoop.simps, simp)+

lemma hexDigit_props:
  assumes "d < 16"
  shows "isxdigit (hexDigit d)" "hexVal (hexDigit d) = d" "\<not> isspace (hexDigit d)"
    "hexDigit d \<notin> {0x2d, 0x2b, 0x0a, 0x0d, 0x78, 0x58}"
proof -
  have "\<forall>d \<in> set [0..<16]. isxdigit (hexDigit d) \<and> hexVal (hexDigit d) = d \<and> \<not> isspace (hexDigit d)
      \<and> hexDigit d \<notin> {0x2d, 0x2b, 0x0a, 0x0d, 0x78, 0x58}" by code_simp
  then show "isxdigit (hexDigit d)" "hexVal (hexDigit d) = d" "\<not> isspace (hexDigit d)"
    "hexDigit d \<notin> {0x2d, 0x2b, 0x0a, 0x0d, 0x78, 0x58}" using assms by auto
qed

lemma hexLoop_digits: "c \<in> set (hexLoop u) \<Longrightarrow> \<exists>d < 16. c = hexDigit d"
proof (induction u rule: hexLoop.induct)
  case (1 u)
  then show ?case by (cases "u = 0") (auto simp: hexLoop_step intro: exI [of _ "u mod 16"])
qed

lemma hexLoop_value: "foldl (\<lambda>v c. v * 16 + hexVal c) 0 (hexLoop u) = u"
proof (induction u rule: hexLoop.induct)
  case (1 u)
  then show ?case by (cases "u = 0") (simp_all add: hexLoop_step hexDigit_props)
qed

lemma hexLoop_length: "u < 16 ^ k \<Longrightarrow> length (hexLoop u) \<le> k"
proof (induction k arbitrary: u)
  case (Suc k)
  then have "u div 16 < 16 ^ k" by (simp add: less_mult_imp_div_less mult.commute)
  then show ?case using Suc.IH [of "u div 16"] by (cases "u = 0") (simp_all add: hexLoop_step)
qed (simp add: hexLoop_step)

lemma dropWhile_none: "xs \<noteq> [] \<Longrightarrow> \<not> P (hd xs) \<Longrightarrow> dropWhile P xs = xs"
  by (cases xs) auto

lemma hexLoop_member: "xs \<noteq> [] \<Longrightarrow> set xs \<subseteq> set (hexLoop u) \<Longrightarrow> \<exists>d < 16. hd xs = hexDigit d"
  using hexLoop_digits [of "hd xs" u] by (cases xs) auto

lemma stoul16_hexLoop:
  assumes "0 < u" "u < 2 ^ 64"
  shows "stoul16 (hexLoop u) = Some u"
proof -
  have ne: "hexLoop u \<noteq> []" using assms(1) by (simp add: hexLoop_step)
  have x: "\<exists>d < 16. c = hexDigit d" if "c \<in> set (hexLoop u)" for c using hexLoop_digits that by blast
  then have all: "takeWhile isxdigit (hexLoop u) = hexLoop u" using hexDigit_props(1) by (auto simp: takeWhile_eq_all_conv)
  obtain d where d: "d < 16" "hd (hexLoop u) = hexDigit d" using hexLoop_member [OF ne] by auto
  have sp: "dropWhile isspace (hexLoop u) = hexLoop u" using ne d hexDigit_props(3) by (intro dropWhile_none) auto
  have sg: "hd (hexLoop u) \<noteq> 0x2d" "hd (hexLoop u) \<noteq> 0x2b" using d hexDigit_props(4) [of d] by auto
  have pre: "(case hexLoop u of a # b # c # _ \<Rightarrow> if a = 0x30 \<and> (b = 0x78 \<or> b = 0x58) \<and> isxdigit c then drop 2 (hexLoop u) else hexLoop u
      | _ \<Rightarrow> hexLoop u) = hexLoop u"
  proof (cases "hexLoop u" rule: list.exhaust [of _ "_"])
    case (Cons a xs)
    have "b \<noteq> 0x78 \<and> b \<noteq> 0x58" if "b \<in> set (hexLoop u)" for b using x [OF that] hexDigit_props(4) by auto
    then show ?thesis using Cons by (cases xs) (auto split: list.splits)
  qed simp
  show ?thesis unfolding stoul16_def Let_def sp using sg assms(2) ne by (simp add: pre all hexLoop_value)
qed

text \<open>The length line of a block of at most \<open>0xffff\<close> bytes, and of the last chunk.\<close>

lemma number16_small:
  assumes "n \<le> 0xffff"
  shows "chunkLength (number16 (int n)) = Some (int n)" "number16 (int n) \<noteq> []" "length (number16 (int n)) \<le> 4"
    "c \<in> set (number16 (int n)) \<Longrightarrow> c \<noteq> 0x0a \<and> c \<noteq> 0x0d"
proof -
  have m: "nat (int n mod 2 ^ 64) = n" using assms by (simp add: nat_mod_as_int)
  have "signed_take_bit 31 (int n) = int n" using assms by (intro signed_take_bit_int_eq_self) simp_all
  then have s: "sint (word_of_nat n :: 32 word) = int n" by (simp add: signed_of_nat)
  show "chunkLength (number16 (int n)) = Some (int n)"
  proof (cases "n = 0")
    case True
    then show ?thesis by (simp add: number16_def chunkLength_def stoul16_def isspace_def isxdigit_def isdigit_def hexVal_def)
  next
    case False
    then show ?thesis using assms m s stoul16_hexLoop [of n] by (simp add: number16_def chunkLength_def)
  qed
  show "number16 (int n) \<noteq> []" using m by (simp add: number16_def hexLoop_step)
  show "length (number16 (int n)) \<le> 4" using m hexLoop_length [of n 4] assms by (simp add: number16_def)
  show "c \<noteq> 0x0a \<and> c \<noteq> 0x0d" if "c \<in> set (number16 (int n))"
    using that m hexLoop_digits [of c n] hexDigit_props(4) by (auto simp: number16_def split: if_splits)
qed

section \<open>Blocks on the stream\<close>

definition cr_stream :: "ChunkedBlockReader \<Rightarrow> bytes" where
  "cr_stream r = cr_buf r @ conn_rest (cr_conn r)"

lemma fillLine_ok:
  "conn_ok (cr_conn r) \<Longrightarrow> \<exists>r'. fillLine r = (True, r') \<and> cr_stream r' = cr_stream r \<and> conn_ok (cr_conn r')
     \<and> (6 \<le> length (cr_buf r') \<or> 0x0a \<in> set (cr_buf r') \<or> conn_rest (cr_conn r') = [])"
proof (induction r rule: fillLine.induct)
  case (1 r)
  show ?case
  proof (cases "length (cr_buf r) < 6 \<and> 0x0a \<notin> set (cr_buf r)")
    case True
    obtain bs c where c: "conn_read (1024 * 64) (cr_conn r) = (Some bs, c)" "bs @ conn_rest c = conn_rest (cr_conn r)" "conn_ok c"
      "bs = [] \<longleftrightarrow> conn_rest (cr_conn r) = []"
      by (rule conn_read_ok [OF "1.prems", of "1024 * 64"]) simp
    show ?thesis
    proof (cases "bs = []")
      case True
      then show ?thesis using c fillLine_cases(3) [OF \<open>length (cr_buf r) < 6 \<and> _\<close>] by (auto simp: cr_stream_def)
    next
      case False
      from "1.IH" [OF True c(1) [symmetric] refl False] c show ?thesis
        using fillLine_cases(4) [OF True c(1) False] by (simp add: cr_stream_def)
    qed
  qed (use "1.prems" fillLine_cases(1) [of r] in \<open>auto simp: cr_stream_def\<close>)
qed

lemma fillChunk_ok:
  "conn_ok (cr_conn r) \<Longrightarrow> \<exists>r'. fillChunk need r = (need \<le> length (cr_stream r), r')
     \<and> (need \<le> length (cr_stream r) \<longrightarrow> cr_stream r' = cr_stream r \<and> conn_ok (cr_conn r') \<and> need \<le> length (cr_buf r'))"
proof (induction need r rule: fillChunk.induct)
  case (1 need r)
  show ?case
  proof (cases "length (cr_buf r) < need")
    case True
    obtain bs c where c: "conn_read (1024 * 64) (cr_conn r) = (Some bs, c)" "bs @ conn_rest c = conn_rest (cr_conn r)" "conn_ok c"
      "bs = [] \<longleftrightarrow> conn_rest (cr_conn r) = []"
      by (rule conn_read_ok [OF "1.prems", of "1024 * 64"]) simp
    show ?thesis
    proof (cases "bs = []")
      case True
      then show ?thesis using c fillChunk_cases(3) [OF \<open>length (cr_buf r) < need\<close>] \<open>length (cr_buf r) < need\<close> by (auto simp: cr_stream_def)
    next
      case False
      from "1.IH" [OF True c(1) [symmetric] refl False] c show ?thesis
        using fillChunk_cases(4) [OF True c(1) False] by (simp add: cr_stream_def)
    qed
  qed (use "1.prems" fillChunk_cases(1) [of need r] in \<open>auto simp: cr_stream_def\<close>)
qed

lemma chunkLine_ok:
  "\<forall>c \<in> set num. c \<noteq> 0x0a \<and> c \<noteq> 0x0d \<Longrightarrow> length num + 2 \<le> n \<Longrightarrow> chunkLine n (num @ 0x0d # 0x0a # rest) False acc = Some (acc @ num, rest)"
proof (induction num arbitrary: n acc)
  case Nil
  define k where "k = n - 2"
  have "n = Suc (Suc k)" using Nil(2) by (simp add: k_def)
  then show ?case by simp
next
  case (Cons c num)
  then obtain k where "n = Suc k" by (cases n) auto
  then show ?case using Cons by simp
qed

text \<open>What \<open>fillLine\<close> buffers contains the whole length line.\<close>

lemma line_buffered:
  fixes buf :: bytes
  assumes "buf @ rest = num @ 0x0d # 0x0a # post" "0x0a \<notin> set num" "length num \<le> 4"
    "6 \<le> length buf \<or> 0x0a \<in> set buf \<or> rest = []"
  shows "\<exists>tl. buf = num @ 0x0d # 0x0a # tl \<and> tl @ rest = post"
proof -
  have "buf @ rest = (num @ [0x0d, 0x0a]) @ post" using assms(1) by simp
  then obtain us where us: "buf = (num @ [0x0d, 0x0a]) @ us \<and> us @ rest = post \<or> buf @ us = num @ [0x0d, 0x0a] \<and> rest = us @ post"
    unfolding append_eq_append_conv2 by blast
  show ?thesis
  proof (cases "buf @ us = num @ [0x0d, 0x0a] \<and> us \<noteq> []")
    case True
    then obtain vs v where v: "us = vs @ [v]" by (cases us rule: rev_cases) auto
    then have "(buf @ vs) @ [v] = (num @ [0x0d]) @ [0x0a]" using True by simp
    then have b: "buf @ vs = num @ [0x0d]" by (simp only: append1_eq_conv)
    have "set (buf @ vs) = insert 0x0d (set num)" "length (buf @ vs) = length num + 1" unfolding b by simp_all
    then have "set buf \<subseteq> insert 0x0d (set num)" "length buf \<le> length num + 1" by auto
    moreover have "rest \<noteq> []"
    proof
      assume "rest = []"
      then have "length buf = length num + 2 + length post" using arg_cong [OF assms(1), of length] by simp
      then show False using \<open>length buf \<le> length num + 1\<close> by simp
    qed
    ultimately show ?thesis using assms(2,3,4) by auto
  next
    case False
    then show ?thesis using us by auto
  qed
qed

lemma nextBlock_ok:
  assumes "conn_ok (cr_conn r)" "cr_stream r = number16 (int n) @ 0x0d # 0x0a # post" "n \<le> 0xffff" "int n \<le> leftBytes"
  shows "\<exists>r'. nextBlock leftBytes r = (if n + 2 \<le> length post then (CbNoError, take n post, r') else (CbConnectionError, [], r'))
    \<and> (n + 2 \<le> length post \<longrightarrow> cr_stream r' = drop (n + 2) post \<and> conn_ok (cr_conn r'))"
proof -
  note num = number16_small [OF assms(3)]
  obtain r1 where r1: "fillLine r = (True, r1)" "cr_stream r1 = cr_stream r" "conn_ok (cr_conn r1)"
    "6 \<le> length (cr_buf r1) \<or> 0x0a \<in> set (cr_buf r1) \<or> conn_rest (cr_conn r1) = []"
    using fillLine_ok [OF assms(1)] by blast
  have "cr_buf r1 @ conn_rest (cr_conn r1) = number16 (int n) @ 0x0d # 0x0a # post" using r1(2) assms(2) by (simp add: cr_stream_def)
  then obtain tl where tl: "cr_buf r1 = number16 (int n) @ 0x0d # 0x0a # tl" "tl @ conn_rest (cr_conn r1) = post"
    using line_buffered [of "cr_buf r1" "conn_rest (cr_conn r1)" "number16 (int n)" post] num(3,4) r1(4) by blast
  have line: "chunkLine 6 (cr_buf r1) False [] = Some (number16 (int n), tl)"
    unfolding tl(1) using num(3,4) by (subst chunkLine_ok) auto
  have long: "\<not> length (cr_buf r1) < 3" using num(2) by (cases "number16 (int n)") (simp_all add: tl(1))
  have p: "cr_stream (r1\<lparr> cr_buf := tl \<rparr>) = post" "conn_ok (cr_conn (r1\<lparr> cr_buf := tl \<rparr>))"
    using tl(2) r1(3) by (simp_all add: cr_stream_def)
  obtain r2 where r2: "fillChunk (n + 2) (r1\<lparr> cr_buf := tl \<rparr>) = (n + 2 \<le> length post, r2)"
    "n + 2 \<le> length post \<Longrightarrow> cr_stream r2 = post \<and> conn_ok (cr_conn r2) \<and> n + 2 \<le> length (cr_buf r2)"
    using fillChunk_ok [OF p(2), of "n + 2"] unfolding p(1) by blast
  have step: "nextBlock leftBytes r =
      (case fillChunk (n + 2) (r1\<lparr> cr_buf := tl \<rparr>) of
         (False, r) \<Rightarrow> (CbConnectionError, [], r)
       | (True, r) \<Rightarrow> (CbNoError, take n (cr_buf r), r\<lparr> cr_buf := drop (n + 2) (cr_buf r) \<rparr>))"
    using assms(4) by (simp add: nextBlock_def r1(1) line long num(1) split: prod.split bool.split)
  show ?thesis
  proof (cases "n + 2 \<le> length post")
    case True
    have "take n (cr_buf r2) = take n post" "drop (n + 2) (cr_buf r2) @ conn_rest (cr_conn r2) = drop (n + 2) post"
      using r2(2) [OF True] by (auto simp: cr_stream_def)
    then show ?thesis using True step r2 by (intro exI [of _ "r2\<lparr> cr_buf := drop (n + 2) (cr_buf r2) \<rparr>"]) (simp add: cr_stream_def)
  qed (use step r2(1) in \<open>simp\<close>)
qed

section \<open>The body behind the chunks\<close>

text \<open>The reference reading of a chunked stream: the blocks up to the first empty one.\<close>

function dechunk :: "bytes \<Rightarrow> bytes" where
  "dechunk bs =
     (case chunkLine 6 bs False [] of
        None \<Rightarrow> []
      | Some (num, post) \<Rightarrow>
          (case chunkLength num of
             None \<Rightarrow> []
           | Some n \<Rightarrow> if n \<le> 0 then [] else take (nat n) post @ dechunk (drop (nat n + 2) post)))"
  by auto
termination
  by (relation "measure length") (auto dest: chunkLine_length)

declare dechunk.simps [simp del]

definition blockOk :: "bytes \<Rightarrow> bool" where
  "blockOk d \<longleftrightarrow> d \<noteq> [] \<and> length d \<le> 0xffff"

lemma chunkLine_number16:
  "n \<le> 0xffff \<Longrightarrow> chunkLine 6 (number16 (int n) @ 0x0d # 0x0a # post) False [] = Some (number16 (int n), post)"
  using number16_small(3,4) by (subst chunkLine_ok) auto

lemma dechunk_chunk: "blockOk d \<Longrightarrow> dechunk (chunk d @ post) = d @ dechunk post"
  using number16_small(1) [of "length d"] chunkLine_number16 [of "length d" "d @ 0x0d # 0x0a # post"]
  by (subst dechunk.simps) (auto simp: chunk_def blockOk_def)

lemma dechunk_last: "dechunk (chunk [] @ post) = []"
  using number16_small(1) [of 0] chunkLine_number16 [of 0 "0x0d # 0x0a # post"] by (subst dechunk.simps) (simp add: chunk_def)

lemma dechunk_blocks: "list_all blockOk ds \<Longrightarrow> dechunk (concat (map chunk ds) @ chunk [] @ post) = concat ds"
  by (induction ds) (simp_all add: dechunk_chunk dechunk_last)

text \<open>A body file before the blocks \<open>ds\<close>.\<close>

definition cb_inv :: "ChunkedBodyFile \<Rightarrow> bytes list \<Rightarrow> bool" where
  "cb_inv f ds \<longleftrightarrow> conn_ok (cr_conn (cb_reader f)) \<and> cb_error f = CbNoError \<and> list_all blockOk ds
     \<and> (if cb_eof f then ds = [] else \<exists>post. cr_stream (cb_reader f) = concat (map chunk ds) @ chunk [] @ post)
     \<and> (cb_max f < 0 \<or> cb_count f + int (length (concat ds)) \<le> cb_max f)"

definition cb_rest :: "ChunkedBodyFile \<Rightarrow> bytes" where
  "cb_rest f = cb_buf f @ (if cb_eof f then [] else dechunk (cr_stream (cb_reader f)))"

lemma cb_rest_inv: "cb_inv f ds \<Longrightarrow> cb_rest f = cb_buf f @ concat ds"
  using dechunk_blocks by (auto simp: cb_rest_def cb_inv_def)

lemma next_chunk:
  assumes "conn_ok (cr_conn r)" "cr_stream r = chunk d @ post" "length d \<le> 0xffff" "int (length d) \<le> leftBytes"
  obtains r' where "nextBlock leftBytes r = (CbNoError, d, r')" "cr_stream r' = post" "conn_ok (cr_conn r')"
  using nextBlock_ok [OF assms(1), of "length d" "d @ 0x0d # 0x0a # post" leftBytes] assms(2-4) that
  by (auto simp: chunk_def)

lemma blocks_empty: "list_all blockOk ds \<Longrightarrow> length (concat ds) = 0 \<Longrightarrow> ds = []"
  by (cases ds) (auto simp: blockOk_def)

abbreviation cb_left :: "ChunkedBodyFile \<Rightarrow> int" where
  "cb_left f \<equiv> if cb_max f \<ge> 0 then cb_max f - cb_count f else 2 ^ 31 - 1"

lemma cbFill_cases:
  "\<not> (length (cb_buf f) < n \<and> \<not> cb_eof f) \<or> cb_max f \<ge> 0 \<and> cb_max f - cb_count f \<le> 0 \<Longrightarrow> cbFill n f = (True, f)"
  "length (cb_buf f) < n \<Longrightarrow> \<not> cb_eof f \<Longrightarrow> \<not> (cb_max f \<ge> 0 \<and> cb_max f - cb_count f \<le> 0) \<Longrightarrow>
     nextBlock (cb_left f) (cb_reader f) = (er, block, r) \<Longrightarrow>
     cbFill n f = (if er \<noteq> CbNoError then (False, f\<lparr> cb_reader := r, cb_error := er \<rparr>)
       else if block = [] then (True, f\<lparr> cb_reader := r, cb_error := er, cb_eof := True \<rparr>)
       else cbFill n (f\<lparr> cb_reader := r, cb_error := er, cb_count := cb_count f + int (length block), cb_buf := cb_buf f @ block \<rparr>))"
  by (subst cbFill.simps, auto)+

lemma cbFill_ok:
  "cb_inv f ds \<Longrightarrow> \<exists>f' ds'. cbFill n f = (True, f') \<and> cb_inv f' ds' \<and> cb_buf f' @ concat ds' = cb_buf f @ concat ds
     \<and> (n \<le> length (cb_buf f') \<or> ds' = [])"
proof (induction ds arbitrary: f)
  case Nil
  show ?case
  proof (cases "length (cb_buf f) < n \<and> \<not> cb_eof f \<and> \<not> (cb_max f \<ge> 0 \<and> cb_max f - cb_count f \<le> 0)")
    case True
    obtain post where p: "cr_stream (cb_reader f) = chunk [] @ post" using Nil True by (auto simp: cb_inv_def)
    have left: "int (length ([] :: bytes)) \<le> cb_left f" using True by auto
    obtain r where r: "nextBlock (cb_left f) (cb_reader f) = (CbNoError, [], r)" "conn_ok (cr_conn r)"
      by (rule next_chunk [OF _ p _ left]) (use Nil in \<open>auto simp: cb_inv_def\<close>)
    then show ?thesis using True Nil cbFill_cases(2) [OF _ _ _ r(1), of n] by (auto simp: cb_inv_def)
  qed (use Nil cbFill_cases(1) [of f n] in \<open>auto\<close>)
next
  case (Cons d ds)
  have d: "blockOk d" "list_all blockOk ds" "\<not> cb_eof f" using Cons.prems by (auto simp: cb_inv_def split: if_splits)
  have "0 < int (length d)" "int (length d) \<le> 0xffff" "cb_max f < 0 \<or> cb_count f + int (length d) \<le> cb_max f"
    using Cons.prems d(1) by (auto simp: cb_inv_def blockOk_def)
  then have left: "\<not> (cb_max f \<ge> 0 \<and> cb_max f - cb_count f \<le> 0)" "int (length d) \<le> cb_left f"
    by (linarith, auto)
  show ?case
  proof (cases "length (cb_buf f) < n")
    case True
    obtain post where p: "cr_stream (cb_reader f) = chunk d @ concat (map chunk ds) @ chunk [] @ post" using Cons.prems d(3) by (auto simp: cb_inv_def)
    obtain r where r: "nextBlock (cb_left f) (cb_reader f) = (CbNoError, d, r)" "cr_stream r = concat (map chunk ds) @ chunk [] @ post" "conn_ok (cr_conn r)"
      by (rule next_chunk [OF _ p _ left(2)]) (use Cons.prems d in \<open>auto simp: cb_inv_def blockOk_def\<close>)
    define f1 where "f1 = f\<lparr> cb_reader := r, cb_error := CbNoError, cb_count := cb_count f + int (length d), cb_buf := cb_buf f @ d \<rparr>"
    have "cbFill n f = cbFill n f1" using cbFill_cases(2) [OF True d(3) left(1) r(1)] d(1) by (simp add: f1_def blockOk_def)
    moreover have "cb_inv f1 ds" using Cons.prems d r(2,3) by (auto simp: cb_inv_def f1_def)
    moreover have "cb_buf f1 @ concat ds = cb_buf f @ concat (d # ds)" by (simp add: f1_def)
    ultimately show ?thesis using Cons.IH [of f1] by auto
  qed (use Cons.prems cbFill_cases(1) [of f n] in \<open>auto\<close>)
qed

text \<open>The chunked body file keeps the contract of files, whatever the cuts of blocks and deliveries.\<close>

interpretation cbFile: file_like cb_read cb_rest "\<lambda>f. \<exists>ds. cb_inv f ds"
proof
  fix f and n :: nat
  assume "\<exists>ds. cb_inv f ds" "0 < n"
  then obtain ds where ds: "cb_inv f ds" by blast
  obtain f1 ds1 where f1: "cbFill n f = (True, f1)" "cb_inv f1 ds1" "cb_buf f1 @ concat ds1 = cb_rest f" "n \<le> length (cb_buf f1) \<or> ds1 = []"
    using cbFill_ok [OF ds] unfolding cb_rest_inv [OF ds] by blast
  define k where "k = min (length (cb_buf f1)) n"
  define f2 where "f2 = f1\<lparr> cb_buf := drop k (cb_buf f1) \<rparr>"
  have i: "cb_inv f2 ds1" using f1(2) by (simp add: cb_inv_def f2_def)
  have "take k (cb_rest f) = take k (cb_buf f1)" "drop k (cb_rest f) = drop k (cb_buf f1) @ concat ds1"
    unfolding f1(3) [symmetric] by (simp_all add: k_def)
  moreover have "cb_rest f2 = drop k (cb_buf f1) @ concat ds1" using cb_rest_inv [OF i] by (simp add: f2_def)
  moreover have "cb_rest f \<noteq> [] \<Longrightarrow> 0 < k" using f1(4) \<open>0 < n\<close> unfolding f1(3) [symmetric] by (auto simp: k_def)
  ultimately show "\<exists>k f'. cb_read n f = (Some (take k (cb_rest f)), f') \<and> (\<exists>ds. cb_inv f' ds) \<and> cb_rest f' = drop k (cb_rest f)
      \<and> k \<le> n \<and> (cb_rest f \<noteq> [] \<longrightarrow> 0 < k)"
    using i f1(1) by (intro exI [of _ k] exI [of _ f2]) (auto simp: cb_read_def Let_def k_def f2_def)
qed

section \<open>A stream that ends inside a block\<close>




section \<open>Any stream\<close>

definition cb_size :: "ChunkedBodyFile \<Rightarrow> nat" where
  "cb_size f = cr_size (cb_reader f) + length (cb_buf f)"

lemma cbFill_size: "cbFill n f = (True, f') \<Longrightarrow> cb_size f' \<le> cb_size f"
proof (induction n f rule: cbFill.induct)
  case (1 n f)
  show ?case
  proof (cases "length (cb_buf f) < n \<and> \<not> cb_eof f \<and> \<not> (cb_max f \<ge> 0 \<and> cb_max f - cb_count f \<le> 0)")
    case True
    then have c: "length (cb_buf f) < n" "\<not> cb_eof f" "\<not> (cb_max f \<ge> 0 \<and> cb_max f - cb_count f \<le> 0)" by auto
    obtain er block r where nb: "nextBlock (cb_left f) (cb_reader f) = (er, block, r)" by (cases "nextBlock (cb_left f) (cb_reader f)")
    note step = cbFill_cases(2) [OF c nb]
    have er: "er = CbNoError" using "1.prems" step by (auto split: if_splits)
    note sz = nextBlock_size [OF nb [unfolded er]]
    show ?thesis
    proof (cases "block = []")
      case True
      then show ?thesis using "1.prems" step er sz by (auto simp: cb_size_def)
    next
      case False
      define f1 where "f1 = f\<lparr> cb_reader := r, cb_error := er, cb_count := cb_count f + int (length block), cb_buf := cb_buf f @ block \<rparr>"
      have "cbFill n f1 = (True, f')" using "1.prems" step er False by (simp add: f1_def)
      then have "cb_size f' \<le> cb_size f1" using "1.IH" c nb er False by (auto simp: f1_def)
      then show ?thesis using sz by (simp add: cb_size_def f1_def)
    qed
  qed (use "1.prems" cbFill_cases(1) [of f n] in \<open>auto\<close>)
qed

lemma cb_read_size: "cb_read n f = (Some bs, f') \<Longrightarrow> cb_size f' + length bs \<le> cb_size f"
  using cbFill_size [of n f] by (auto simp: cb_read_def cb_size_def Let_def split: prod.splits bool.splits)

lemma readall_ends: "\<exists>dat f'. readallLoop (cb_read n) acc f = Some (dat, f')"
proof (induction "cb_size f" arbitrary: acc f rule: less_induct)
  case less
  show ?case
  proof (cases "cb_read n f")
    case (Pair r f1)
    show ?thesis
    proof (cases "r = None \<or> r = Some []")
      case True
      then show ?thesis using Pair by (subst readallLoop.simps) auto
    next
      case False
      then obtain bs where bs: "r = Some bs" "bs \<noteq> []" by auto
      then have "cb_size f1 < cb_size f" using cb_read_size [of n f bs f1] Pair by (cases bs) auto
      from less.hyps [OF this, of "acc @ bs"] show ?thesis using Pair bs by (subst readallLoop.simps) simp
    qed
  qed
qed

section \<open>Bodies of known length on the stream\<close>







section \<open>What the writer wrote\<close>

text \<open>The contract of \<open>write\<close> that \<open>ChunkedWriter\<close> relies on: everything is taken, behind what is there.\<close>

locale byte_sink =
  fixes wr :: "bytes \<Rightarrow> 's \<Rightarrow> int \<times> 's" and written :: "'s \<Rightarrow> bytes" and inv :: "'s \<Rightarrow> bool"
  assumes wr_all: "inv s \<Longrightarrow> \<exists>s'. wr bs s = (int (length bs), s') \<and> inv s' \<and> written s' = written s @ bs"
begin

lemma cwLoop_blocks:
  "inv s \<Longrightarrow> \<exists>ds s'. cwLoop wr dat s = (True, s') \<and> inv s' \<and> written s' = written s @ concat (map chunk ds)
     \<and> concat ds = dat \<and> list_all blockOk ds"
proof (induction "length dat" arbitrary: dat s rule: less_induct)
  case less
  show ?case
  proof (cases "dat = []")
    case True
    then show ?thesis using less.prems by (intro exI [of _ "[]"] exI [of _ s]) (simp add: cwLoop.simps)
  next
    case False
    obtain s1 where s1: "wr (chunk (take 0xffff dat)) s = (int (length (chunk (take 0xffff dat))), s1)" "inv s1"
      "written s1 = written s @ chunk (take 0xffff dat)" using wr_all [OF less.prems] by blast
    have "length (drop 0xffff dat) < length dat" using False by simp
    from less.hyps [OF this s1(2)] obtain ds s' where ds: "cwLoop wr (drop 0xffff dat) s1 = (True, s')" "inv s'"
      "written s' = written s1 @ concat (map chunk ds)" "concat ds = drop 0xffff dat" "list_all blockOk ds" by blast
    have "cwLoop wr dat s = (True, s')" using False s1(1) ds(1) by (subst cwLoop.simps) (simp add: Let_def)
    moreover have "blockOk (take 0xffff dat)" using False by (simp add: blockOk_def)
    ultimately show ?thesis using ds s1(3) by (intro exI [of _ "take 0xffff dat # ds"] exI [of _ s']) simp
  qed
qed

text \<open>A sequence of writes and the final \<open>close\<close>.\<close>

lemma writes_blocks:
  "inv s \<Longrightarrow> \<exists>ds. inv (foldl (\<lambda>s dat. snd (cw_write wr dat s)) s ws)
     \<and> written (foldl (\<lambda>s dat. snd (cw_write wr dat s)) s ws) = written s @ concat (map chunk ds) \<and> concat ds = concat ws \<and> list_all blockOk ds"
proof (induction ws arbitrary: s)
  case (Cons w ws)
  obtain ds s1 where s1: "cwLoop wr w s = (True, s1)" "inv s1" "written s1 = written s @ concat (map chunk ds)" "concat ds = w" "list_all blockOk ds"
    using cwLoop_blocks [OF Cons.prems] by blast
  have "snd (cw_write wr w s) = s1" using s1(1) by (simp add: cw_write_def)
  moreover obtain ds' where "inv (foldl (\<lambda>s dat. snd (cw_write wr dat s)) s1 ws)"
    "written (foldl (\<lambda>s dat. snd (cw_write wr dat s)) s1 ws) = written s1 @ concat (map chunk ds')" "concat ds' = concat ws" "list_all blockOk ds'"
    using Cons.IH [OF s1(2)] by blast
  ultimately show ?case using s1 by (intro exI [of _ "ds @ ds'"]) simp
qed (auto intro: exI [of _ "[]"])

lemma close_last: "inv s \<Longrightarrow> written (cw_close wr s) = written s @ chunk []"
  using wr_all [of s "[0x30, 0x0d, 0x0a, 0x0d, 0x0a]"] by (auto simp: cw_close_def chunk_def number16_def)

end

definition bioSink :: "bytes \<Rightarrow> BytesIO \<Rightarrow> int \<times> BytesIO" where
  "bioSink bs d = (int (length bs), bio_write d bs)"

interpretation bioOut: byte_sink bioSink bio_buf "\<lambda>d. bio_pos d = length (bio_buf d)"
  by unfold_locales (simp add: bioSink_def bio_write_end)

definition chunkedMessage :: "HttpHeader list \<Rightarrow> bytes list \<Rightarrow> bytes" where
  "chunkedMessage hs ws =
     (let hd = headerBytes hs; d = \<lparr> bio_buf = hd, bio_pos = length hd \<rparr>
      in bio_buf (cw_close bioSink (foldl (\<lambda>d dat. snd (cw_write bioSink dat d)) d ws)))"

lemma chunkedMessage_blocks:
  "\<exists>ds. chunkedMessage hs ws = headerBytes hs @ concat (map chunk ds) @ chunk [] \<and> concat ds = concat ws \<and> list_all blockOk ds"
proof -
  define d where "d = \<lparr> bio_buf = headerBytes hs, bio_pos = length (headerBytes hs) \<rparr>"
  have "bio_pos d = length (bio_buf d)" by (simp add: d_def)
  from bioOut.writes_blocks [OF this, of ws] show ?thesis
    using bioOut.close_last [of "foldl (\<lambda>s dat. snd (cw_write bioSink dat s)) d ws"] by (auto simp: chunkedMessage_def Let_def d_def)
qed

section \<open>Properties\<close>

text \<open>
  C14. A message with a chunked body survives: a header block followed by any writes through
  \<open>ChunkedWriter\<close> and its \<open>close\<close> is read back by \<open>HeaderSplitter\<close> and, from the bytes the splitter
  has left over and the connection behind it, by \<open>ChunkedBodyFile\<close>; the headers are the ones
  written and \<open>readall\<close> ends and returns the data of all the writes, without an error and however
  the bytes are cut into deliveries, as long as the limit on the body size is not exceeded.
\<close>

theorem chunked_message_roundtrip:
  assumes "list_all plainHeader hs" "length hs < maxHeaders" "conn_ok (hs_conn h)" "hs_stream h = chunkedMessage hs ws @ behind"
    "maxBodySize < 0 \<or> int (length (concat ws)) \<le> maxBodySize"
  shows "\<exists>h' f'. splitHeaders maxHeaders h = (HsNoError, hs, h')
    \<and> fileReadall cb_read (- 1) (newChunkedBodyFile maxBodySize (hs_buf h') (hs_conn h')) = Some (True, concat ws, f')
    \<and> cb_error f' = CbNoError"
proof -
  obtain ds where ds: "chunkedMessage hs ws = headerBytes hs @ concat (map chunk ds) @ chunk []" "concat ds = concat ws" "list_all blockOk ds"
    using chunkedMessage_blocks by blast
  have "hs_stream h = headerBytes hs @ (concat (map chunk ds) @ chunk [] @ behind)" using assms(4) ds(1) by simp
  from splitHeaders_block [OF assms(1-3) this] obtain h' where h': "splitHeaders maxHeaders h = (HsNoError, hs, h')"
    "hs_stream h' = concat (map chunk ds) @ chunk [] @ behind" "conn_ok (hs_conn h')" by blast
  define f where "f = newChunkedBodyFile maxBodySize (hs_buf h') (hs_conn h')"
  have "cb_inv f ds"
    using h'(2,3) ds assms(5) by (auto simp: cb_inv_def f_def newChunkedBodyFile_def cr_stream_def hs_stream_def)
  moreover from this have "cb_rest f = concat ws" using cb_rest_inv [of f ds] ds(2) by (simp add: f_def newChunkedBodyFile_def)
  ultimately obtain f' ds' where "fileReadall cb_read (- 1) f = Some (True, concat ws, f')" "cb_inv f' ds'"
    using cbFile.readall_all [of f "- 1"] by auto
  then show ?thesis using h'(1) by (auto simp: f_def cb_inv_def)
qed

theorem chunked_message_roundtrip_witness:
  "\<exists>h' f'. splitHeaders 64 \<lparr> hs_conn = map (\<lambda>b. Some [b]) (chunkedMessage [\<lparr> h_name = [0x61], h_value = [0x62] \<rparr>] [[1, 2], [], [3]]), hs_buf = [] \<rparr>
       = (HsNoError, [\<lparr> h_name = [0x61], h_value = [0x62] \<rparr>], h')
     \<and> fileReadall cb_read (- 1) (newChunkedBodyFile 100 (hs_buf h') (hs_conn h')) = Some (True, [1, 2, 3], f') \<and> cb_error f' = CbNoError"
proof -
  let ?m = "chunkedMessage [\<lparr> h_name = [0x61], h_value = [0x62] \<rparr>] [[1, 2], [], [3]]"
  have "conn_ok (map (\<lambda>b. Some [b]) bs)" "conn_rest (map (\<lambda>b. Some [b]) bs) = bs" for bs by (induction bs) simp_all
  then have "conn_ok (hs_conn \<lparr> hs_conn = map (\<lambda>b. Some [b]) ?m, hs_buf = [] \<rparr>)" "hs_stream \<lparr> hs_conn = map (\<lambda>b. Some [b]) ?m, hs_buf = [] \<rparr> = ?m @ []"
    by (simp_all add: hs_stream_def)
  from chunked_message_roundtrip [OF _ _ this, of 64 100] show ?thesis by (simp add: plainHeader_def trimmed_def isspace_def)
qed





text \<open>Whatever the connection delivers, \<open>readall\<close> of a chunked body ends and its flag is true.\<close>

lemma chunked_readall_flag: "\<exists>dat f'. fileReadall cb_read (- 1) f = Some (True, dat, f')"
  using readall_ends [of "1024 * 8" "[]" f] by (auto simp: fileReadall_def)

end
