(* ===== verification/Spec2Isabelle.thy ===== *)
theory Spec2Isabelle
  imports Quic_Protect Quic_Recovery Quic_Cc Hpack Replay_Window Md_Fallback Slice_Ring Bencode Lock_Clients
    Text_Codecs Civil_Date Msgpack Http_Body
begin

text \<open>
  Verification of the protocol core of qtng, a coroutine networking library in C++.

  \<^bold>\<open>The program.\<close>  Coroutines run on an event loop and wait for each other on the locks of
  \<open>src/src/locks.cpp\<close>.  On top of them stand the transports.  QUIC turns a list of frames into
  bytes (\<open>quic_varint.cpp\<close>, \<open>quic_frame.cpp\<close>), protects them as packets (\<open>quic_crypto.cpp\<close>
  over the AEAD and HKDF wrappers of \<open>aead.cpp\<close>), books every packet it sends and every
  acknowledgement it gets (\<open>quic_recovery.cpp\<close>) and asks a congestion controller
  (\<open>quic_cc.cpp\<close>) how much may be in flight.  HTTP/1 reads header blocks and bodies from a
  connection (\<open>http_utils.cpp\<close>), HTTP/2 compresses headers (\<open>hpack.cpp\<close>), Noise
  filters replayed nonces (\<open>noise_replay_p.h\<close>), BitTorrent and Kademlia exchange bencoded values
  (\<open>bencode.cpp\<close>), cached HTTP responses are MessagePack (\<open>msgpack.cpp\<close>), byte streams are buffered in a doubly mapped ring
  (\<open>utils/slice_ring_buffer.cpp\<close>), and builds without OpenSSL use the digests of
  \<open>md_fallback.cpp\<close>.  Text and dates of all of them go through \<open>utils/string_utils.cpp\<close> and
  \<open>utils/datetime.cpp\<close>.

  \<^bold>\<open>Theories and sources.\<close>  Definitions carry the names of the functions they translate.

  \<^item> \<open>Qtng_Prelude\<close>: bytes and words, output strings with a success flag, big-endian integers,
    bits of masks, and the locales \<open>prefix_parser\<close> and \<open>codec\<close> that every wire decoder interprets.
  \<^item> \<open>Quic_Varint\<close>, \<open>Quic_Frame\<close>, \<open>Quic_Packet\<close>: the integers, all frame types, and the long,
    and short headers with packet-number reconstruction.
  \<^item> \<open>Quic_Protect\<close>: \<open>aead.cpp\<close>, \<open>quic_crypto.cpp\<close>, Retry packets and the stateless reset of \<open>quic.cpp\<close>.
    OpenSSL is the parameter \<open>evp\<close> with its documented laws as hypotheses.
  \<^item> \<open>Std_Map\<close>: ordered association lists for \<open>std::map\<close>.  \<open>Quic_Recovery\<close>: received ranges,
    ACK frames, sent packets, loss detection, round-trip estimation and probe timeouts.
  \<^item> \<open>Quic_Cc\<close>: the virtual interface as locale \<open>congestion_control\<close>, interpreted by Reno.  Datagram
    sizes are below \<open>2 ^ 16\<close> and the bytes of a run below \<open>2 ^ 48\<close>, so that 64-bit products do not wrap.
  \<^item> \<open>Hpack_Huffman\<close>, \<open>Hpack\<close>: code table and bit buffer, tree decoder; static and dynamic
    tables, encoder and decoder.
  \<^item> \<open>Replay_Window\<close>: the ring of bit blocks and its advance.
  \<^item> \<open>Md_Fallback\<close>: MD5, SHA-1, SHA-224 and SHA-256 with the streaming object.
  \<^item> \<open>Slice_Ring\<close>: the ring on its physical bytes, with reallocation as a granted or denied
    request; the locale \<open>byte_deque\<close> is its abstract contract.
  \<^item> \<open>Std_Text\<close>, \<open>Bytes_IO\<close>: decimal text as \<open>to_string\<close> and \<open>strtoll\<close> handle it; the in-memory file
    of \<open>io_utils.cpp\<close>, and \<open>FileLike::readall\<close> over any file that keeps the contract \<open>file_like\<close>.
  \<^item> \<open>Bencode\<close>, \<open>Msgpack\<close>: the writers and readers as state-passing routines with a sticky status.
    The locales of \<open>Msgpack\<close> lift the codec of an element to vectors and maps; the conversions of
    \<open>DateTime\<close> are taken to keep milliseconds.
  \<^item> \<open>Http_Headers\<close>, \<open>Http_Body\<close>: the header list and \<open>HeaderSplitter\<close>; \<open>ChunkedWriter\<close>,
    \<open>ChunkedBodyFile\<close> and \<open>PlainBodyFile\<close>.  A connection is the list of what its reads deliver.
  \<^item> \<open>Coroutine_Locks\<close>, \<open>Lock_Clients\<close>: the semaphore cut at its yields, as a step relation over
    the calls in progress and the scheduled notification, with a failed assertion as an outcome of
    its own; reentrant lock and gate above it.  The functions for a whole run of the notification
    take every woken coroutine to yield back at once; the step relations do not.
  \<^item> \<open>Text_Codecs\<close>: UTF-8, base64, hexadecimal, splitting, joining and escaping of
    \<open>string_utils.cpp\<close>.  \<open>Civil_Date\<close>: the calendar and the \<open>Date\<close> class of \<open>datetime.cpp\<close>, with
    truncating division and the 32-bit reduction of \<open>unsigned\<close> expressions written out.
  \<^item> This theory: the property that spans frames, acknowledgements and packet protection.

  \<^bold>\<open>What is shown.\<close>  Codecs: decoding undoes encoding, for integers, frames, headers, protected
  packets, Retry packets, ACK ranges, compressed header lists, Huffman strings, bencoded and MessagePack
  values, HTTP header blocks and chunked bodies, base64 and calendar days;
  decoders consume a prefix of their input, what the bencode decoder accepts is well formed, and
  UTF-8 is accepted exactly in its canonical form.  Composition: an acknowledgement that is built,
  encoded, protected, unprotected and decoded names the packets it was built from.  State machines:
  invariants of recovery, dynamic table, congestion window, semaphore and reentrant lock hold in
  every history.  Refinements: the replay window is the set of fresh nonces in range, the ring
  is a deque, the streaming digest is the one-shot hash.  Progress: a notified semaphore serves
  its waiters and an opened gate lets all of them pass; key derivation ends whatever the
  library does.  Error paths: missing table entries, unchecked limits, saturated integers, refused
  memory, days that do not exist, array elements and body blocks that are missing without notice,
  a semaphore whose multi-unit waiters block each other for good, and one whose deletion runs
  into an assertion.

  \<^bold>\<open>Fuel.\<close>  Loops whose end is not structural take fuel that is shown to suffice: the bencode
  reader gets one more than twice the length of its input, since it makes at most two nested
  calls per byte, and the semaphore's notification loop runs once per waiter.  Loops over an
  interface (HKDF, \<open>readall\<close>) are partial functions, \<open>None\<close> when they do not end, and are shown
  to end.

  \<^bold>\<open>Not modelled.\<close>  Sockets, event loops, context switches and operating system threads, whose
  behaviour is that of system calls; TLS, certificates, ciphers and SSH, which drive OpenSSL at
  every step; the connection objects of QUIC, HTTP, WebSocket, MQTT, STUN, KCP and BitTorrent,
  whose code interleaves protocol steps with live sockets, clocks and coroutines; vendored code
  (libev, LMDB, ikcp); URLs and punycode with the IDNA shell on it, most number
  conversions of \<open>string_utils.cpp\<close>, and \<open>DateTime\<close>, which asks the C library; and \<open>Condition\<close>, \<open>Event\<close> and the queues of
  \<open>locks.cpp\<close>.
\<close>

section \<open>From frames to packets and back\<close>

lemma wireFrame_ack:
  "fr_type f = Ack \<Longrightarrow> largestAcknowledged (wireFrame f) = largestAcknowledged f
     \<and> ackedNumbers n (wireFrame f) = ackedNumbers n f"
  by (simp add: wireFrame_def ackedNumbers_def Let_def)

lemma mergePadding_ack: "fr_type f = Ack \<Longrightarrow> mergePadding (f # fs) = f # mergePadding fs"
  by (cases fs) auto

text \<open>
  C4. An acknowledgement survives the whole stack.  An endpoint that has received the packets \<open>S\<close>
  builds the ACK frame, which has room for all its ranges if there are fewer than 255 gaps, encodes
  it in front of other frames, and protects the payload as a short-header packet.  The peer that removes the protection from the packet and decodes the payload gets
  the packet number, an ACK frame that acknowledges exactly \<open>S\<close>, and the other frames as the wire
  represents them.
\<close>

theorem acknowledgement_delivered:
  assumes E: "evpAead E"
    and ack: "S \<noteq> {}" "Max S \<le> largestSent" "ack = quicBuildAckFrame S emptyFrame" "length (ackRanges ack) < 255"
    and fs: "\<forall>f \<in> set (ack # fs). fst (quicEncodeFrame f) \<and> frameSizes f"
    and payload: "payload = concat (map (\<lambda>f. snd (quicEncodeFrame f)) (ack # fs))" "length payload + 16 \<le> INT_MAX"
    and pkt: "quicProtectPacket E keys (quicBuildShortHeader dc pn len kp) payload pn len = Some pkt"
    and win: "unat largestPn + 1 < 2 ^ 62" "unat pn < 2 ^ 62"
      "unat largestPn + 1 < unat pn + 2 ^ (8 * nat len - 1)"
      "unat pn \<le> unat largestPn + 1 + 2 ^ (8 * nat len - 1)"
  shows "\<exists>h ack'. quicUnprotectPacket E keys pkt (length dc) largestPn = Some (h, payload, length pkt)
    \<and> packetNumber h = pn
    \<and> quicDecodeFrames payload = (True, ack' # map wireFrame (mergePadding fs))
    \<and> ackedNumbers (min (largestAcknowledged ack') largestSent) ack' = S"
proof -
  have t: "fr_type ack = Ack" using ack(1,3) by (simp add: quicBuildAckFrame_def Let_def)
  have "quicDecodeFrames payload = (True, wireFrame ack # map wireFrame (mergePadding fs))"
    using quicDecodeFrames_encode [OF fs] by (simp add: payload(1) mergePadding_ack [OF t])
  moreover have "ackedNumbers (min (largestAcknowledged (wireFrame ack)) largestSent) (wireFrame ack) = S"
    using ackedNumbers_build(3) [OF ack(1) _ ack(2,3,4)] by (simp add: wireFrame_ack [OF t] emptyFrame_def)
  moreover note quicUnprotect_protect_short [OF E payload(2) refl pkt win]
  ultimately show ?thesis by (intro exI conjI) (assumption | simp)+
qed

definition deliveredAck :: QuicFrame where
  "deliveredAck = quicBuildAckFrame {2, 3, 7, 9} emptyFrame"

definition deliveredPayload :: bytes where
  "deliveredPayload = concat (map (\<lambda>f. snd (quicEncodeFrame f)) [deliveredAck, emptyFrame\<lparr> fr_type := Ping \<rparr>])"

lemma deliveredAck_eval:
  "deliveredAck = emptyFrame\<lparr> fr_type := Ack, largestAcknowledged := 9, firstAckRange := 0,
    ackRanges := [\<lparr> gap = 0, ackRangeLength = 0 \<rparr>, \<lparr> gap = 2, ackRangeLength = 1 \<rparr>] \<rparr>"
proof -
  have "Max {2, 3, 7, 9 :: u64} = 9" by simp
  then show ?thesis
    by (simp add: deliveredAck_def quicBuildAckFrame_def runLow.simps ackRangesLoop.simps gapLow.simps emptyFrame_def Let_def)
qed

lemma deliveredPayload_eval: "deliveredPayload = [2, 9, 0, 2, 0, 0, 0, 2, 1, 1]"
  by (simp add: deliveredPayload_def deliveredAck_eval quicEncodeFrame_def emptyFrame_def emits.simps quicEncodeVarint_def put_size_def)

theorem acknowledgement_delivered_witness:
  "\<exists>pkt h ack'. quicProtectPacket sampleEvp sampleKeys (quicBuildShortHeader [8, 8] 0x1234 1 True) deliveredPayload 0x1234 1 = Some pkt
    \<and> quicUnprotectPacket sampleEvp sampleKeys pkt 2 0x1230 = Some (h, deliveredPayload, length pkt)
    \<and> packetNumber h = 0x1234
    \<and> quicDecodeFrames deliveredPayload = (True, [ack', wireFrame (emptyFrame\<lparr> fr_type := Ping \<rparr>)])
    \<and> ackedNumbers (min (largestAcknowledged ack') 20) ack' = {2, 3, 7, 9}"
proof -
  have hdr: "quicBuildShortHeader [8, 8] 0x1234 1 True = [0x44, 8, 8, 0x34]"
    by (simp add: quicBuildShortHeader_def pnBits_def writePn_def upt_rec)
  obtain pkt where pkt: "quicProtectPacket sampleEvp sampleKeys (quicBuildShortHeader [8, 8] 0x1234 1 True) deliveredPayload 0x1234 1 = Some pkt"
    by (simp add: hdr deliveredPayload_eval sample_defs upt_rec)
  have fs: "\<forall>f \<in> set [deliveredAck, emptyFrame\<lparr> fr_type := Ping \<rparr>]. fst (quicEncodeFrame f) \<and> frameSizes f"
    by (simp add: deliveredAck_eval quicEncodeFrame_def frameSizes_def emptyFrame_def quicEncodeVarint_ok put_size_def)
  have "length (ackRanges deliveredAck) < 255" "length deliveredPayload + 16 \<le> INT_MAX"
    by (simp_all add: deliveredAck_eval deliveredPayload_eval INT_MAX_def emptyFrame_def)
  from acknowledgement_delivered [OF sampleEvp_aead _ _ deliveredAck_def this(1) fs deliveredPayload_def this(2) pkt, of 20 "0x1230"]
  show ?thesis using pkt by (simp flip: numeral_2_eq_2)
qed

end
